theory Spec2Isabelle
  imports Main "HOL-Library.Word"
begin

unbundle bit_operations_syntax

section \<open>SimpleFS: the disk emulator and the file system of src/library\<close>

text \<open>
  The development embeds \<^verbatim>\<open>disk.c\<close> and \<^verbatim>\<open>fs.c\<close>. Every C function is one HOL
  function of the same name. A function returns \<open>Inl e\<close> where the C program aborts on a
  failed \<^verbatim>\<open>assert\<close> or leaves the bounds of an array; otherwise it returns \<open>Inr\<close> of its
  result together with the objects it has mutated.
\<close>

subsection \<open>Constants and types of the headers\<close>

type_synonym byte = "8 word"
type_synonym u32 = "32 word"

text \<open>Modelled from the spec: the headers \<^verbatim>\<open>sfs/disk.h\<close> and \<^verbatim>\<open>sfs/fs.h\<close> are missing; the
  constants are those of section 3 of the specification.\<close>

definition BLOCK_SIZE :: nat where
  "BLOCK_SIZE = 4096"

definition POINTERS_PER_INODE :: nat where
  "POINTERS_PER_INODE = 5"

definition POINTERS_PER_BLOCK :: nat where
  "POINTERS_PER_BLOCK = 1024"

definition INODES_PER_BLOCK :: nat where
  "INODES_PER_BLOCK = 128"

definition MAGIC_NUMBER :: u32 where
  "MAGIC_NUMBER = 0xf0f03410"

text \<open>How a run of the C program can stop without returning.\<close>

datatype error =
    AssertFailed    \<comment> \<open>an \<^verbatim>\<open>assert\<close> of the source fails and the process aborts\<close>
  | OutOfBounds     \<comment> \<open>an array is indexed, or copied from, outside its extent\<close>
  | NullPointer     \<comment> \<open>\<^verbatim>\<open>fs->free_blocks\<close> is dereferenced while it is \<^verbatim>\<open>NULL\<close>\<close>
  | CounterOverflow \<comment> \<open>a loop counter is incremented past the largest value of its type\<close>

text \<open>Modelled from the spec: the union \<^verbatim>\<open>Block\<close> of the missing header. A block is
  \<^verbatim>\<open>char data[BLOCK_SIZE]\<close>, a function from the byte index to the byte; only indices below
  \<open>BLOCK_SIZE\<close> belong to it. The other members of the union (\<^verbatim>\<open>super\<close>, \<^verbatim>\<open>inodes\<close>,
  \<^verbatim>\<open>pointers\<close>) are views of the same bytes, with little-endian 32-bit fields.\<close>

type_synonym Block = "nat \<Rightarrow> byte"

text \<open>A \<^verbatim>\<open>char *\<close> buffer of a caller: the bytes from the pointer onwards.\<close>

type_synonym buffer = "nat \<Rightarrow> byte"

definition zero_block :: Block where
  "zero_block = (\<lambda>i. 0)"

definition u32_of_bytes :: "byte \<Rightarrow> byte \<Rightarrow> byte \<Rightarrow> byte \<Rightarrow> u32" where
  "u32_of_bytes b0 b1 b2 b3 =
     ucast b0 OR push_bit 8 (ucast b1) OR push_bit 16 (ucast b2) OR push_bit 24 (ucast b3)"

definition byte_of_u32 :: "u32 \<Rightarrow> nat \<Rightarrow> byte" where
  "byte_of_u32 w k = ucast (drop_bit (8 * k) w)"

text \<open>The 32-bit field at word index \<open>k\<close> of a block, read and written.\<close>

definition get_u32 :: "Block \<Rightarrow> nat \<Rightarrow> u32" where
  "get_u32 b k = u32_of_bytes (b (4 * k)) (b (4 * k + 1)) (b (4 * k + 2)) (b (4 * k + 3))"

definition set_u32 :: "Block \<Rightarrow> nat \<Rightarrow> u32 \<Rightarrow> Block" where
  "set_u32 b k w = (\<lambda>i. if 4 * k \<le> i \<and> i < 4 * k + 4 then byte_of_u32 w (i - 4 * k) else b i)"

text \<open>Modelled from the spec: the struct \<^verbatim>\<open>SuperBlock\<close> of the missing header (four
  \<^verbatim>\<open>uint32_t\<close> fields at the start of block 0).\<close>

record SuperBlock =
  magic_number :: u32
  blocks :: u32
  inode_blocks :: u32
  inodes :: u32

text \<open>Modelled from the spec: the struct \<^verbatim>\<open>Inode\<close> of the missing header (32 bytes: valid,
  size, five direct pointers, one indirect pointer).\<close>

record Inode =
  valid :: u32
  size :: u32
  direct :: "u32 list"
  indirect :: u32

definition block_super :: "Block \<Rightarrow> SuperBlock" where
  "block_super b =
     \<lparr>magic_number = get_u32 b 0, blocks = get_u32 b 1,
      inode_blocks = get_u32 b 2, inodes = get_u32 b 3\<rparr>"

definition set_block_super :: "Block \<Rightarrow> SuperBlock \<Rightarrow> Block" where
  "set_block_super b s =
     set_u32 (set_u32 (set_u32 (set_u32 b 0 (magic_number s)) 1 (blocks s))
       2 (inode_blocks s)) 3 (inodes s)"

text \<open>\<^verbatim>\<open>block.inodes[j]\<close>: the eight words from word \<open>8 * j\<close>.\<close>

definition block_inode :: "Block \<Rightarrow> nat \<Rightarrow> Inode" where
  "block_inode b j =
     \<lparr>valid = get_u32 b (8 * j), size = get_u32 b (8 * j + 1),
      direct = [get_u32 b (8 * j + 2), get_u32 b (8 * j + 3), get_u32 b (8 * j + 4),
                get_u32 b (8 * j + 5), get_u32 b (8 * j + 6)],
      indirect = get_u32 b (8 * j + 7)\<rparr>"

definition set_block_inode :: "Block \<Rightarrow> nat \<Rightarrow> Inode \<Rightarrow> Block" where
  "set_block_inode b j n =
     set_u32 (set_u32 (set_u32 (set_u32 (set_u32 (set_u32 (set_u32 (set_u32 b
       (8 * j) (valid n)) (8 * j + 1) (size n))
       (8 * j + 2) (direct n ! 0)) (8 * j + 3) (direct n ! 1)) (8 * j + 4) (direct n ! 2))
       (8 * j + 5) (direct n ! 3)) (8 * j + 6) (direct n ! 4)) (8 * j + 7) (indirect n)"

text \<open>\<^verbatim>\<open>memset(&node, 0, sizeof(Inode))\<close>.\<close>

definition zero_inode :: Inode where
  "zero_inode = \<lparr>valid = 0, size = 0, direct = [0, 0, 0, 0, 0], indirect = 0\<rparr>"

text \<open>\<^verbatim>\<open>memcpy(dst + doff, src + soff, n)\<close> on byte arrays.\<close>

definition memcpy :: "(nat \<Rightarrow> byte) \<Rightarrow> nat \<Rightarrow> (nat \<Rightarrow> byte) \<Rightarrow> nat \<Rightarrow> nat \<Rightarrow> (nat \<Rightarrow> byte)" where
  "memcpy dst doff src soff n =
     (\<lambda>i. if doff \<le> i \<and> i < doff + n then src (soff + (i - doff)) else dst i)"

subsection \<open>disk.c\<close>

text \<open>Modelled from the spec: the struct \<^verbatim>\<open>Disk\<close> of the missing header. The host file behind
  the descriptor \<^verbatim>\<open>fd\<close> is the field \<open>image\<close>: block number to block contents. The host
  calls \<^verbatim>\<open>lseek\<close>, \<^verbatim>\<open>read\<close> and \<^verbatim>\<open>write\<close> are taken to succeed and to transfer whole
  blocks.\<close>

record Disk =
  disk_blocks :: nat
  image :: "nat \<Rightarrow> Block"
  reads :: nat
  writes :: nat

text \<open>The pointers \<^verbatim>\<open>disk\<close> and \<^verbatim>\<open>data\<close> of the C function are never \<^verbatim>\<open>NULL\<close> here: a
  \<open>Disk\<close> value is a disk that exists.\<close>

definition disk_sanity_check :: "Disk \<Rightarrow> nat \<Rightarrow> bool" where
  "disk_sanity_check disk block = (block < disk_blocks disk)"

text \<open>\<open>None\<close> is \<^verbatim>\<open>DISK_FAILURE\<close>.\<close>

definition disk_read :: "Disk \<Rightarrow> nat \<Rightarrow> (Disk \<times> Block) option" where
  "disk_read disk block =
     (if \<not> disk_sanity_check disk block then None
      else Some (disk\<lparr>reads := reads disk + 1\<rparr>, image disk block))"

definition disk_write :: "Disk \<Rightarrow> nat \<Rightarrow> Block \<Rightarrow> Disk option" where
  "disk_write disk block d =
     (if \<not> disk_sanity_check disk block then None
      else Some (disk\<lparr>image := (image disk)(block := d), writes := writes disk + 1\<rparr>))"

subsection \<open>fs.c: the file system handle and its helpers\<close>

text \<open>Modelled from the spec: the struct \<^verbatim>\<open>FileSystem\<close> of the missing header. \<open>None\<close> is the
  \<^verbatim>\<open>NULL\<close> pointer. A mounted handle owns its disk: the \<open>Disk\<close> value inside the handle is
  the object that \<^verbatim>\<open>fs->disk\<close> points to.\<close>

record FileSystem =
  disk :: "Disk option"
  meta_data :: SuperBlock
  free_blocks :: "bool list option"

text \<open>\<^verbatim>\<open>assert(disk_read(fs->disk, block, buf) != DISK_FAILURE)\<close>; with \<^verbatim>\<open>fs->disk == NULL\<close>
  the sanity check of \<^verbatim>\<open>disk_read\<close> fails as well.\<close>

definition fs_disk_read :: "FileSystem \<Rightarrow> nat \<Rightarrow> error + (FileSystem \<times> Block)" where
  "fs_disk_read fs block =
     (case disk fs of
        None \<Rightarrow> Inl AssertFailed
      | Some d \<Rightarrow>
          (case disk_read d block of
             None \<Rightarrow> Inl AssertFailed
           | Some (d', b) \<Rightarrow> Inr (fs\<lparr>disk := Some d'\<rparr>, b)))"

text \<open>\<^verbatim>\<open>assert(disk_write(fs->disk, block, buf) != DISK_FAILURE)\<close>.\<close>

definition fs_disk_write :: "FileSystem \<Rightarrow> nat \<Rightarrow> Block \<Rightarrow> error + FileSystem" where
  "fs_disk_write fs block b =
     (case disk fs of
        None \<Rightarrow> Inl AssertFailed
      | Some d \<Rightarrow>
          (case disk_write d block b of
             None \<Rightarrow> Inl AssertFailed
           | Some d' \<Rightarrow> Inr (fs\<lparr>disk := Some d'\<rparr>)))"

text \<open>\<^verbatim>\<open>fs->free_blocks[k]\<close>, read and written. The vector has the length it was allocated
  with.\<close>

definition get_free_block :: "FileSystem \<Rightarrow> nat \<Rightarrow> error + bool" where
  "get_free_block fs k =
     (case free_blocks fs of
        None \<Rightarrow> Inl NullPointer
      | Some fb \<Rightarrow> if k < length fb then Inr (fb ! k) else Inl OutOfBounds)"

definition set_free_block :: "FileSystem \<Rightarrow> nat \<Rightarrow> bool \<Rightarrow> error + FileSystem" where
  "set_free_block fs k v =
     (case free_blocks fs of
        None \<Rightarrow> Inl NullPointer
      | Some fb \<Rightarrow>
          if k < length fb then Inr (fs\<lparr>free_blocks := Some (fb[k := v])\<rparr>) else Inl OutOfBounds)"

subsection \<open>fs\_load\_inode and fs\_save\_inode\<close>

text \<open>The result \<open>None\<close> is the return value \<^verbatim>\<open>false\<close>; \<open>Some node\<close> is \<^verbatim>\<open>true\<close> with
  \<^verbatim>\<open>*node\<close> filled in. The validity test indexes \<^verbatim>\<open>block.inodes\<close> with the inode number
  itself; the array has \<open>INODES_PER_BLOCK\<close> elements.\<close>

definition fs_load_inode :: "FileSystem \<Rightarrow> nat \<Rightarrow> error + (FileSystem \<times> Inode option)" where
  "fs_load_inode fs inode_number =
     (if inode_number \<ge> unat (inodes (meta_data fs)) then Inr (fs, None)
      else
        (case fs_disk_read fs (inode_number div INODES_PER_BLOCK + 1) of
           Inl e \<Rightarrow> Inl e
         | Inr (fs', block) \<Rightarrow>
             if inode_number \<ge> INODES_PER_BLOCK then Inl OutOfBounds
             else if valid (block_inode block inode_number) = 0 then Inr (fs', None)
             else Inr (fs', Some (block_inode block (inode_number mod INODES_PER_BLOCK)))))"

definition fs_save_inode :: "FileSystem \<Rightarrow> nat \<Rightarrow> Inode \<Rightarrow> error + (FileSystem \<times> bool)" where
  "fs_save_inode fs inode_number node =
     (if inode_number \<ge> unat (inodes (meta_data fs)) then Inr (fs, False)
      else
        (case fs_disk_read fs (inode_number div INODES_PER_BLOCK + 1) of
           Inl e \<Rightarrow> Inl e
         | Inr (fs', block) \<Rightarrow>
             (case fs_disk_write fs' (inode_number div INODES_PER_BLOCK + 1)
                     (set_block_inode block (inode_number mod INODES_PER_BLOCK) node) of
                Inl e \<Rightarrow> Inl e
              | Inr fs'' \<Rightarrow> Inr (fs'', True))))"

text \<open>\<^verbatim>\<open>assert(fs_save_inode(fs, inode_number, &node))\<close>.\<close>

definition assert_save_inode :: "FileSystem \<Rightarrow> nat \<Rightarrow> Inode \<Rightarrow> error + FileSystem" where
  "assert_save_inode fs inode_number node =
     (case fs_save_inode fs inode_number node of
        Inl e \<Rightarrow> Inl e
      | Inr (fs', ok) \<Rightarrow> if ok then Inr fs' else Inl AssertFailed)"

subsection \<open>fs\_allocate\_free\_block\<close>

text \<open>The scan \<^verbatim>\<open>for (i = 1; i < fs->meta_data.blocks; i++)\<close>, from index \<open>i\<close> on. The result
  is the block number, 0 when no block is free.\<close>

function allocate_scan :: "FileSystem \<Rightarrow> nat \<Rightarrow> error + (FileSystem \<times> u32)" where
  "allocate_scan fs i =
     (if i < unat (blocks (meta_data fs)) then
        (case get_free_block fs i of
           Inl e \<Rightarrow> Inl e
         | Inr used \<Rightarrow>
             if \<not> used then
               (case set_free_block fs i True of
                  Inl e \<Rightarrow> Inl e
                | Inr fs' \<Rightarrow> Inr (fs', of_nat i))
             else allocate_scan fs (i + 1))
      else Inr (fs, 0))"
  by pat_completeness auto
termination
  by (relation "measure (\<lambda>(fs, i). unat (blocks (meta_data fs)) - i)") auto

declare allocate_scan.simps [simp del]

definition fs_allocate_free_block :: "FileSystem \<Rightarrow> error + (FileSystem \<times> u32)" where
  "fs_allocate_free_block fs = allocate_scan fs 1"

subsection \<open>fs\_initialize\_free\_block\_bitmap, fs\_mount, fs\_unmount, fs\_format\<close>

text \<open>The loop over the direct pointers of an inode, shared by mount (\<open>v = True\<close>) and
  remove (\<open>v = False\<close>):
  \<^verbatim>\<open>for(j = 0; j < POINTERS_PER_INODE; ++j) { if(inode.direct[j] == 0) break;
  fs->free_blocks[inode.direct[j]] = v; }\<close>\<close>

function set_direct_blocks :: "FileSystem \<Rightarrow> Inode \<Rightarrow> bool \<Rightarrow> nat \<Rightarrow> error + FileSystem" where
  "set_direct_blocks fs inode v j =
     (if j < POINTERS_PER_INODE then
        if direct inode ! j = 0 then Inr fs
        else
          (case set_free_block fs (unat (direct inode ! j)) v of
             Inl e \<Rightarrow> Inl e
           | Inr fs' \<Rightarrow> set_direct_blocks fs' inode v (j + 1))
      else Inr fs)"
  by pat_completeness auto
termination
  by (relation "measure (\<lambda>(fs, inode, v, j). POINTERS_PER_INODE - j)") auto

declare set_direct_blocks.simps [simp del]

text \<open>The loop over the pointers of an indirect block, shared in the same way; it also
  returns the index at which it stopped:
  \<^verbatim>\<open>for(; j < POINTERS_PER_BLOCK; ++j) { if(block.pointers[j] == 0) break;
  fs->free_blocks[block.pointers[j]] = v; }\<close>\<close>

function set_pointer_blocks :: "FileSystem \<Rightarrow> Block \<Rightarrow> bool \<Rightarrow> nat \<Rightarrow> error + (FileSystem \<times> nat)" where
  "set_pointer_blocks fs block v j =
     (if j < POINTERS_PER_BLOCK then
        if get_u32 block j = 0 then Inr (fs, j)
        else
          (case set_free_block fs (unat (get_u32 block j)) v of
             Inl e \<Rightarrow> Inl e
           | Inr fs' \<Rightarrow> set_pointer_blocks fs' block v (j + 1))
      else Inr (fs, j))"
  by pat_completeness auto
termination
  by (relation "measure (\<lambda>(fs, block, v, j). POINTERS_PER_BLOCK - j)") auto

declare set_pointer_blocks.simps [simp del]

text \<open>The loop \<^verbatim>\<open>for(int p = 0; p < INODES_PER_BLOCK; ++p)\<close> over the inodes of the inode
  block \<open>b\<close>.\<close>

function bitmap_inodes :: "FileSystem \<Rightarrow> Block \<Rightarrow> nat \<Rightarrow> error + FileSystem" where
  "bitmap_inodes fs b p =
     (if p < INODES_PER_BLOCK then
        if valid (block_inode b p) = 0 then bitmap_inodes fs b (p + 1)
        else
          (case set_direct_blocks fs (block_inode b p) True 0 of
             Inl e \<Rightarrow> Inl e
           | Inr fs1 \<Rightarrow>
               if indirect (block_inode b p) = 0 then bitmap_inodes fs1 b (p + 1)
               else
                 (case set_free_block fs1 (unat (indirect (block_inode b p))) True of
                    Inl e \<Rightarrow> Inl e
                  | Inr fs2 \<Rightarrow>
                      (case fs_disk_read fs2 (unat (indirect (block_inode b p))) of
                         Inl e \<Rightarrow> Inl e
                       | Inr (fs3, indirect_point) \<Rightarrow>
                           (case set_pointer_blocks fs3 indirect_point True 0 of
                              Inl e \<Rightarrow> Inl e
                            | Inr (fs4, j) \<Rightarrow> bitmap_inodes fs4 b (p + 1)))))
      else Inr fs)"
  by pat_completeness auto
termination
  by (relation "measure (\<lambda>(fs, b, p). INODES_PER_BLOCK - p)") auto

declare bitmap_inodes.simps [simp del]

text \<open>The loop \<^verbatim>\<open>for(uint32_t i = 1; i <= inode_blocks; ++i)\<close>; \<open>n\<close> is the local
  \<^verbatim>\<open>inode_blocks\<close>. With \<open>n = 2^32 - 1\<close> the counter would wrap to 0 after the last block.\<close>

function bitmap_inode_blocks :: "FileSystem \<Rightarrow> nat \<Rightarrow> nat \<Rightarrow> error + FileSystem" where
  "bitmap_inode_blocks fs n i =
     (if i \<le> n then
        (case set_free_block fs i True of
           Inl e \<Rightarrow> Inl e
         | Inr fs1 \<Rightarrow>
             (case fs_disk_read fs1 i of
                Inl e \<Rightarrow> Inl e
              | Inr (fs2, b) \<Rightarrow>
                  (case bitmap_inodes fs2 b 0 of
                     Inl e \<Rightarrow> Inl e
                   | Inr fs3 \<Rightarrow>
                       if i = 2 ^ 32 - 1 then Inl CounterOverflow
                       else bitmap_inode_blocks fs3 n (i + 1))))
      else Inr fs)"
  by pat_completeness auto
termination
  by (relation "measure (\<lambda>(fs, n, i). n + 1 - i)") auto

declare bitmap_inode_blocks.simps [simp del]

text \<open>\<^verbatim>\<open>malloc\<close> is taken to succeed; the fresh vector has \<^verbatim>\<open>meta_data.blocks\<close> entries, all
  \<^verbatim>\<open>false\<close> after the \<^verbatim>\<open>memset\<close>.\<close>

definition fs_initialize_free_block_bitmap :: "FileSystem \<Rightarrow> error + (FileSystem \<times> bool)" where
  "fs_initialize_free_block_bitmap fs =
     (case set_free_block
             (fs\<lparr>free_blocks := Some (replicate (unat (blocks (meta_data fs))) False)\<rparr>) 0 True of
        Inl e \<Rightarrow> Inl e
      | Inr fs1 \<Rightarrow>
          (case bitmap_inode_blocks fs1 (unat (inode_blocks (meta_data fs))) 1 of
             Inl e \<Rightarrow> Inl e
           | Inr fs2 \<Rightarrow> Inr (fs2, True)))"

text \<open>The third component of the result is the caller's \<open>Disk\<close> object after the call.\<close>

definition fs_mount :: "FileSystem \<Rightarrow> Disk \<Rightarrow> error + (bool \<times> FileSystem \<times> Disk)" where
  "fs_mount fs d =
     (if disk fs \<noteq> None then Inr (False, fs, d)
      else
        (case disk_read d 0 of
           None \<Rightarrow> Inl AssertFailed
         | Some (d1, block) \<Rightarrow>
             if magic_number (block_super block) \<noteq> MAGIC_NUMBER
                \<or> unat (blocks (block_super block)) \<noteq> disk_blocks d1
             then Inr (False, fs, d1)
             else if unat (inodes (block_super block))
                     \<noteq> unat (inode_blocks (block_super block)) * INODES_PER_BLOCK
             then Inr (False, fs, d1)
             else
               (case fs_initialize_free_block_bitmap
                       (fs\<lparr>disk := Some d1, meta_data := block_super block\<rparr>) of
                  Inl e \<Rightarrow> Inl e
                | Inr (fs', ok) \<Rightarrow>
                    Inr (ok, fs', (case disk fs' of None \<Rightarrow> d1 | Some d' \<Rightarrow> d')))))"

definition fs_unmount :: "FileSystem \<Rightarrow> FileSystem" where
  "fs_unmount fs = fs\<lparr>free_blocks := None, disk := None\<rparr>"

text \<open>The loop \<^verbatim>\<open>for(int i = 1; i < blocks; ++i)\<close> of \<^verbatim>\<open>fs_format\<close>; the counter is a signed
  \<^verbatim>\<open>int\<close>.\<close>

function format_clear :: "Disk \<Rightarrow> nat \<Rightarrow> error + Disk" where
  "format_clear d i =
     (if i < disk_blocks d then
        (case disk_write d i zero_block of
           None \<Rightarrow> Inl AssertFailed
         | Some d' \<Rightarrow>
             if i = 2 ^ 31 - 1 then Inl CounterOverflow
             else format_clear d' (i + 1))
      else Inr d)"
  by pat_completeness auto
termination
  by (relation "measure (\<lambda>(d, i). disk_blocks d - i)")
     (auto simp add: disk_write_def split: if_splits)

declare format_clear.simps [simp del]

definition fs_format :: "FileSystem \<Rightarrow> Disk \<Rightarrow> error + (bool \<times> Disk)" where
  "fs_format fs d =
     (if disk_blocks d < 2 then Inr (False, d)
      else if disk fs \<noteq> None then Inr (False, d)
      else
        (case disk_write d 0
                (set_block_super zero_block
                   \<lparr>magic_number = MAGIC_NUMBER,
                    blocks = of_nat (disk_blocks d),
                    inode_blocks = of_nat (if disk_blocks d div 10 = 0 then 1 else disk_blocks d div 10),
                    inodes = of_nat ((if disk_blocks d div 10 = 0 then 1 else disk_blocks d div 10)
                                      * INODES_PER_BLOCK)\<rparr>) of
           None \<Rightarrow> Inr (False, d)
         | Some d1 \<Rightarrow>
             (case format_clear d1 1 of
                Inl e \<Rightarrow> Inl e
              | Inr d2 \<Rightarrow> Inr (True, d2))))"

subsection \<open>fs\_create, fs\_remove, fs\_stat\<close>

text \<open>The inner loop \<^verbatim>\<open>for(uint32_t j = 0; j < INODES_PER_BLOCK; ++j)\<close> of \<^verbatim>\<open>fs_create\<close> over
  the inode block \<open>i\<close>; \<open>Some index\<close> is \<^verbatim>\<open>return index\<close>.\<close>

function fs_create_slots :: "FileSystem \<Rightarrow> Block \<Rightarrow> nat \<Rightarrow> nat \<Rightarrow> error + (FileSystem \<times> nat option)" where
  "fs_create_slots fs inode_table i j =
     (if j < INODES_PER_BLOCK then
        if valid (block_inode inode_table j) = 0 then
          (case assert_save_inode fs ((i - 1) * INODES_PER_BLOCK + j)
                  (zero_inode\<lparr>valid := 1, indirect := 0\<rparr>) of
             Inl e \<Rightarrow> Inl e
           | Inr fs' \<Rightarrow> Inr (fs', Some ((i - 1) * INODES_PER_BLOCK + j)))
        else fs_create_slots fs inode_table i (j + 1)
      else Inr (fs, None))"
  by pat_completeness auto
termination
  by (relation "measure (\<lambda>(fs, inode_table, i, j). INODES_PER_BLOCK - j)") auto

declare fs_create_slots.simps [simp del]

text \<open>The outer loop \<^verbatim>\<open>for(uint32_t i = 1; i <= inode_blocks; ++i)\<close>; \<open>n\<close> is the local
  \<^verbatim>\<open>inode_blocks\<close>.\<close>

function fs_create_blocks :: "FileSystem \<Rightarrow> nat \<Rightarrow> nat \<Rightarrow> error + (FileSystem \<times> int)" where
  "fs_create_blocks fs n i =
     (if i \<le> n then
        (case fs_disk_read fs i of
           Inl e \<Rightarrow> Inl e
         | Inr (fs1, inode_table) \<Rightarrow>
             (case fs_create_slots fs1 inode_table i 0 of
                Inl e \<Rightarrow> Inl e
              | Inr (fs2, Some index) \<Rightarrow> Inr (fs2, int index)
              | Inr (fs2, None) \<Rightarrow>
                  if i = 2 ^ 32 - 1 then Inl CounterOverflow
                  else fs_create_blocks fs2 n (i + 1)))
      else Inr (fs, - 1))"
  by pat_completeness auto
termination
  by (relation "measure (\<lambda>(fs, n, i). n + 1 - i)") auto

declare fs_create_blocks.simps [simp del]

definition fs_create :: "FileSystem \<Rightarrow> error + (FileSystem \<times> int)" where
  "fs_create fs = fs_create_blocks fs (unat (inode_blocks (meta_data fs))) 1"

definition fs_remove :: "FileSystem \<Rightarrow> nat \<Rightarrow> error + (FileSystem \<times> bool)" where
  "fs_remove fs inode_number =
     (case fs_load_inode fs inode_number of
        Inl e \<Rightarrow> Inl e
      | Inr (fs1, None) \<Rightarrow> Inr (fs1, False)
      | Inr (fs1, Some inode) \<Rightarrow>
          (case set_direct_blocks fs1 inode False 0 of
             Inl e \<Rightarrow> Inl e
           | Inr fs2 \<Rightarrow>
               (case (if indirect inode \<noteq> 0 then
                        (case fs_disk_read fs2 (unat (indirect inode)) of
                           Inl e \<Rightarrow> Inl e
                         | Inr (fs3, block) \<Rightarrow>
                             (case set_pointer_blocks fs3 block False 0 of
                                Inl e \<Rightarrow> Inl e
                              | Inr (fs4, i) \<Rightarrow>
                                  if i \<noteq> 0 then set_free_block fs4 (unat (indirect inode)) False
                                  else Inr fs4))
                      else Inr fs2) of
                  Inl e \<Rightarrow> Inl e
                | Inr fs5 \<Rightarrow>
                    (case assert_save_inode fs5 inode_number zero_inode of
                       Inl e \<Rightarrow> Inl e
                     | Inr fs6 \<Rightarrow> Inr (fs6, True)))))"

definition fs_stat :: "FileSystem \<Rightarrow> nat \<Rightarrow> error + (FileSystem \<times> int)" where
  "fs_stat fs inode_number =
     (case fs_load_inode fs inode_number of
        Inl e \<Rightarrow> Inl e
      | Inr (fs1, None) \<Rightarrow> Inr (fs1, - 1)
      | Inr (fs1, Some inode) \<Rightarrow> Inr (fs1, uint (size inode)))"

subsection \<open>fs\_read\<close>

text \<open>Lengths and offsets are \<^verbatim>\<open>size_t\<close> values, natural numbers below \<open>2 ^ 64\<close>; the
  additions that the C program performs on them wrap at \<open>2 ^ 64\<close>.

  The variables \<open>len\<close> and \<open>sm\<close> are \<^verbatim>\<open>length\<close> and \<^verbatim>\<open>sum\<close> of the source.

  The body of both copy loops of \<^verbatim>\<open>fs_read\<close> after the test for a zero pointer: read block
  \<open>b\<close> into \<^verbatim>\<open>block_data\<close>, copy \<^verbatim>\<open>read_size\<close> bytes from \<^verbatim>\<open>block_data + offset % BLOCK_SIZE\<close>
  to \<^verbatim>\<open>data + sm\<close>, advance \<^verbatim>\<open>sum\<close> and \<^verbatim>\<open>offset\<close>. \<^verbatim>\<open>block_data\<close> has \<open>BLOCK_SIZE\<close> bytes.\<close>

definition fs_read_block ::
  "FileSystem \<Rightarrow> nat \<Rightarrow> buffer \<Rightarrow> nat \<Rightarrow> nat \<Rightarrow> nat \<Rightarrow> error + (FileSystem \<times> buffer \<times> nat \<times> nat)" where
  "fs_read_block fs b data len sm offset =
     (case fs_disk_read fs b of
        Inl e \<Rightarrow> Inl e
      | Inr (fs', block_data) \<Rightarrow>
          (let read_size = (if len - sm < BLOCK_SIZE then len - sm else BLOCK_SIZE) in
           if offset mod BLOCK_SIZE + read_size > BLOCK_SIZE then Inl OutOfBounds
           else Inr (fs', memcpy data sm block_data (offset mod BLOCK_SIZE) read_size,
                     sm + read_size, (offset + read_size) mod 2 ^ 64)))"

text \<open>\<^verbatim>\<open>for(; i < POINTERS_PER_INODE && sum < length; ++i)\<close>\<close>

function fs_read_direct ::
  "FileSystem \<Rightarrow> Inode \<Rightarrow> buffer \<Rightarrow> nat \<Rightarrow> nat \<Rightarrow> nat \<Rightarrow> nat
     \<Rightarrow> error + (FileSystem \<times> buffer \<times> nat \<times> nat \<times> nat)" where
  "fs_read_direct fs node data len sm offset i =
     (if i < POINTERS_PER_INODE \<and> sm < len then
        if direct node ! i = 0 then Inr (fs, data, sm, offset, i)
        else
          (case fs_read_block fs (unat (direct node ! i)) data len sm offset of
             Inl e \<Rightarrow> Inl e
           | Inr (fs', data', sm', offset') \<Rightarrow>
               fs_read_direct fs' node data' len sm' offset' (i + 1))
      else Inr (fs, data, sm, offset, i))"
  by pat_completeness auto
termination
  by (relation "measure (\<lambda>(fs, node, data, len, sm, offset, i). POINTERS_PER_INODE - i)") auto

declare fs_read_direct.simps [simp del]

text \<open>\<^verbatim>\<open>for (; i < POINTERS_PER_BLOCK && sum < length; ++i)\<close> over the indirect block.\<close>

function fs_read_indirect ::
  "FileSystem \<Rightarrow> Block \<Rightarrow> buffer \<Rightarrow> nat \<Rightarrow> nat \<Rightarrow> nat \<Rightarrow> nat
     \<Rightarrow> error + (FileSystem \<times> buffer \<times> nat \<times> nat \<times> nat)" where
  "fs_read_indirect fs block data len sm offset i =
     (if i < POINTERS_PER_BLOCK \<and> sm < len then
        if get_u32 block i = 0 then Inr (fs, data, sm, offset, i)
        else
          (case fs_read_block fs (unat (get_u32 block i)) data len sm offset of
             Inl e \<Rightarrow> Inl e
           | Inr (fs', data', sm', offset') \<Rightarrow>
               fs_read_indirect fs' block data' len sm' offset' (i + 1))
      else Inr (fs, data, sm, offset, i))"
  by pat_completeness auto
termination
  by (relation "measure (\<lambda>(fs, block, data, len, sm, offset, i). POINTERS_PER_BLOCK - i)") auto

declare fs_read_indirect.simps [simp del]

text \<open>The result is the handle, the caller's buffer after the call and the return value.
  The counter \<^verbatim>\<open>i\<close> is a \<^verbatim>\<open>uint32_t\<close>: \<^verbatim>\<open>i -= POINTERS_PER_INODE\<close> wraps when \<open>i\<close> is less
  than 5. At the initialisation of \<^verbatim>\<open>i\<close> the offset is below the 32-bit size of the inode,
  so the quotient fits.\<close>

definition fs_read :: "FileSystem \<Rightarrow> nat \<Rightarrow> buffer \<Rightarrow> nat \<Rightarrow> nat \<Rightarrow> error + (FileSystem \<times> buffer \<times> int)" where
  "fs_read fs inode_number data len offset =
     (case fs_load_inode fs inode_number of
        Inl e \<Rightarrow> Inl e
      | Inr (fs0, None) \<Rightarrow> Inr (fs0, data, - 1)
      | Inr (fs0, Some node) \<Rightarrow>
          if offset \<ge> unat (size node) then Inr (fs0, data, 0)
          else if len = 0 then Inr (fs0, data, 0)
          else
            (let len1 = (if (offset + len) mod 2 ^ 64 \<ge> unat (size node)
                            then unat (size node) - offset else len) in
             case fs_read_direct fs0 node data len1 0 offset (offset div BLOCK_SIZE) of
               Inl e \<Rightarrow> Inl e
             | Inr (fs1, data1, sm1, offset1, i1) \<Rightarrow>
                 if indirect node \<noteq> 0 \<and> sm1 < len1 then
                   (case fs_disk_read fs1 (unat (indirect node)) of
                      Inl e \<Rightarrow> Inl e
                    | Inr (fs2, block) \<Rightarrow>
                        (case fs_read_indirect fs2 block data1 len1 sm1 offset1
                                (if i1 < POINTERS_PER_INODE then 2 ^ 32 + i1 - POINTERS_PER_INODE
                                 else i1 - POINTERS_PER_INODE) of
                           Inl e \<Rightarrow> Inl e
                         | Inr (fs3, data3, sm3, offset3, i3) \<Rightarrow> Inr (fs3, data3, int sm3)))
                 else Inr (fs1, data1, int sm1)))"

subsection \<open>fs\_write\<close>

text \<open>The second half of the body of both loops of \<^verbatim>\<open>fs_write\<close>: copy \<^verbatim>\<open>copy_size\<close> bytes from
  \<^verbatim>\<open>data + written\<close> into the block buffer at \<^verbatim>\<open>offset % BLOCK_SIZE\<close>, write the buffer to
  block \<open>b\<close>, and update \<^verbatim>\<open>length\<close>, \<^verbatim>\<open>offset\<close> and \<^verbatim>\<open>written\<close> (the result, in this order).\<close>

definition fs_write_block ::
  "FileSystem \<Rightarrow> nat \<Rightarrow> Block \<Rightarrow> buffer \<Rightarrow> nat \<Rightarrow> nat \<Rightarrow> nat \<Rightarrow> error + (FileSystem \<times> nat \<times> nat \<times> nat)" where
  "fs_write_block fs b block data len offset written =
     (let remaining = BLOCK_SIZE - offset mod BLOCK_SIZE;
          copy_size = (if remaining < len then remaining else len) in
      case fs_disk_write fs b (memcpy block (offset mod BLOCK_SIZE) data written copy_size) of
        Inl e \<Rightarrow> Inl e
      | Inr fs' \<Rightarrow> Inr (fs', len - copy_size, (offset + copy_size) mod 2 ^ 64, written + copy_size))"

text \<open>\<^verbatim>\<open>for(; point < POINTERS_PER_INODE && length > 0; point++)\<close>. The last component of the
  result tells whether the loop was left by \<^verbatim>\<open>goto last\<close>.\<close>

function fs_write_direct ::
  "FileSystem \<Rightarrow> Inode \<Rightarrow> buffer \<Rightarrow> nat \<Rightarrow> nat \<Rightarrow> nat \<Rightarrow> nat
     \<Rightarrow> error + (FileSystem \<times> Inode \<times> nat \<times> nat \<times> nat \<times> nat \<times> bool)" where
  "fs_write_direct fs node data len offset written point =
     (if point < POINTERS_PER_INODE \<and> len > 0 then
        if direct node ! point = 0 then
          (case fs_allocate_free_block fs of
             Inl e \<Rightarrow> Inl e
           | Inr (fs1, b) \<Rightarrow>
               if b = 0 then
                 Inr (fs1, node\<lparr>direct := (direct node)[point := b]\<rparr>, len, offset, written, point, True)
               else
                 (case fs_write_block fs1 (unat b) zero_block data len offset written of
                    Inl e \<Rightarrow> Inl e
                  | Inr (fs2, len', offset', written') \<Rightarrow>
                      fs_write_direct fs2 (node\<lparr>direct := (direct node)[point := b]\<rparr>)
                        data len' offset' written' (point + 1)))
        else
          (case fs_disk_read fs (unat (direct node ! point)) of
             Inl e \<Rightarrow> Inl e
           | Inr (fs1, block) \<Rightarrow>
               (case fs_write_block fs1 (unat (direct node ! point)) block data len offset written of
                  Inl e \<Rightarrow> Inl e
                | Inr (fs2, len', offset', written') \<Rightarrow>
                    fs_write_direct fs2 node data len' offset' written' (point + 1)))
      else Inr (fs, node, len, offset, written, point, False))"
  by pat_completeness auto
termination
  by (relation "measure (\<lambda>(fs, node, data, len, offset, written, point). POINTERS_PER_INODE - point)")
     auto

declare fs_write_direct.simps [simp del]

text \<open>\<^verbatim>\<open>while(length > 0)\<close> over the indirect block held in the local \<^verbatim>\<open>block\<close>. The loop has
  no test on \<^verbatim>\<open>point\<close>; \<^verbatim>\<open>block.pointers\<close> has \<open>POINTERS_PER_BLOCK\<close> elements.\<close>

function fs_write_indirect ::
  "FileSystem \<Rightarrow> Block \<Rightarrow> buffer \<Rightarrow> nat \<Rightarrow> nat \<Rightarrow> nat \<Rightarrow> nat
     \<Rightarrow> error + (FileSystem \<times> Block \<times> nat \<times> nat \<times> nat)" where
  "fs_write_indirect fs block data len offset written point =
     (if len > 0 then
        if point \<ge> POINTERS_PER_BLOCK then Inl OutOfBounds
        else if get_u32 block point = 0 then
          (case fs_allocate_free_block fs of
             Inl e \<Rightarrow> Inl e
           | Inr (fs1, b) \<Rightarrow>
               if b = 0 then Inr (fs1, set_u32 block point b, len, offset, written)
               else
                 (case fs_write_block fs1 (unat b) zero_block data len offset written of
                    Inl e \<Rightarrow> Inl e
                  | Inr (fs2, len', offset', written') \<Rightarrow>
                      fs_write_indirect fs2 (set_u32 block point b) data len' offset' written'
                        (point + 1)))
        else
          (case fs_disk_read fs (unat (get_u32 block point)) of
             Inl e \<Rightarrow> Inl e
           | Inr (fs1, data_block) \<Rightarrow>
               (case fs_write_block fs1 (unat (get_u32 block point)) data_block data len offset
                       written of
                  Inl e \<Rightarrow> Inl e
                | Inr (fs2, len', offset', written') \<Rightarrow>
                    fs_write_indirect fs2 block data len' offset' written' (point + 1)))
      else Inr (fs, block, len, offset, written))"
  by pat_completeness auto
termination
  by (relation "measure (\<lambda>(fs, block, data, len, offset, written, point). POINTERS_PER_BLOCK - point)")
     auto

declare fs_write_indirect.simps [simp del]

text \<open>The block \<^verbatim>\<open>if(length > 0) { ... }\<close> after the direct loop. The result is the handle,
  the inode, \<^verbatim>\<open>offset\<close> and \<^verbatim>\<open>written\<close> at the label \<^verbatim>\<open>last\<close>.\<close>

definition fs_write_indirect_part ::
  "FileSystem \<Rightarrow> Inode \<Rightarrow> buffer \<Rightarrow> nat \<Rightarrow> nat \<Rightarrow> nat \<Rightarrow> nat
     \<Rightarrow> error + (FileSystem \<times> Inode \<times> nat \<times> nat)" where
  "fs_write_indirect_part fs node data len offset written point =
     (if point < POINTERS_PER_INODE then Inl AssertFailed
      else if indirect node = 0 then
        (if offset mod BLOCK_SIZE \<noteq> 0 then Inl AssertFailed
         else
           (case fs_allocate_free_block fs of
              Inl e \<Rightarrow> Inl e
            | Inr (fs1, b) \<Rightarrow>
                if b = 0 then Inr (fs1, node\<lparr>indirect := b\<rparr>, offset, written)
                else
                  (case fs_write_indirect fs1 zero_block data len offset written
                          (point - POINTERS_PER_INODE) of
                     Inl e \<Rightarrow> Inl e
                   | Inr (fs2, block', len', offset', written') \<Rightarrow>
                       (case fs_disk_write fs2 (unat b) block' of
                          Inl e \<Rightarrow> Inl e
                        | Inr fs3 \<Rightarrow> Inr (fs3, node\<lparr>indirect := b\<rparr>, offset', written')))))
      else
        (case fs_disk_read fs (unat (indirect node)) of
           Inl e \<Rightarrow> Inl e
         | Inr (fs1, block) \<Rightarrow>
             (case fs_write_indirect fs1 block data len offset written
                     (point - POINTERS_PER_INODE) of
                Inl e \<Rightarrow> Inl e
              | Inr (fs2, block', len', offset', written') \<Rightarrow>
                  (case fs_disk_write fs2 (unat (indirect node)) block' of
                     Inl e \<Rightarrow> Inl e
                   | Inr fs3 \<Rightarrow> Inr (fs3, node, offset', written')))))"

text \<open>The code from the label \<^verbatim>\<open>last\<close>: the 32-bit field \<^verbatim>\<open>node.size\<close> takes the
  \<^verbatim>\<open>size_t\<close> offset.\<close>

definition fs_write_last :: "FileSystem \<Rightarrow> nat \<Rightarrow> Inode \<Rightarrow> nat \<Rightarrow> nat \<Rightarrow> error + (FileSystem \<times> int)" where
  "fs_write_last fs inode_number node offset written =
     (case assert_save_inode fs inode_number
             (node\<lparr>size := (if offset > unat (size node) then of_nat offset else size node)\<rparr>) of
        Inl e \<Rightarrow> Inl e
      | Inr fs' \<Rightarrow> Inr (fs', int written))"

definition fs_write :: "FileSystem \<Rightarrow> nat \<Rightarrow> buffer \<Rightarrow> nat \<Rightarrow> nat \<Rightarrow> error + (FileSystem \<times> int)" where
  "fs_write fs inode_number data len offset =
     (case fs_load_inode fs inode_number of
        Inl e \<Rightarrow> Inl e
      | Inr (fs0, None) \<Rightarrow> Inr (fs0, - 1)
      | Inr (fs0, Some node) \<Rightarrow>
          if offset > unat (size node) then Inr (fs0, 0)
          else
            (case fs_write_direct fs0 node data len offset 0 (offset div BLOCK_SIZE) of
               Inl e \<Rightarrow> Inl e
             | Inr (fs1, node1, len1, offset1, written1, point1, at_last) \<Rightarrow>
                 if \<not> at_last \<and> len1 > 0 then
                   (case fs_write_indirect_part fs1 node1 data len1 offset1 written1 point1 of
                      Inl e \<Rightarrow> Inl e
                    | Inr (fs2, node2, offset2, written2) \<Rightarrow>
                        fs_write_last fs2 inode_number node2 offset2 written2)
                 else fs_write_last fs1 inode_number node1 offset1 written1))"

subsection \<open>fs\_debug\<close>

text \<open>The decimal digits that \<^verbatim>\<open>printf\<close> prints for \<^verbatim>\<open>%u\<close> and for a non-negative \<^verbatim>\<open>%d\<close>.\<close>

function string_of_nat :: "nat \<Rightarrow> string" where
  "string_of_nat n =
     (if n < 10 then [char_of (48 + n)]
      else string_of_nat (n div 10) @ [char_of (48 + n mod 10)])"
  by pat_completeness auto
termination
  by (relation "measure (\<lambda>n. n)") auto

declare string_of_nat.simps [simp del]

text \<open>\<^verbatim>\<open>for(z = 0; z < POINTERS_PER_BLOCK; ++z) { if(!point.pointers[z]) break;
  printf(" %u", point.pointers[z]); }\<close>\<close>

function debug_pointers :: "Block \<Rightarrow> nat \<Rightarrow> string" where
  "debug_pointers point z =
     (if z < POINTERS_PER_BLOCK then
        if get_u32 point z = 0 then []
        else '' '' @ string_of_nat (unat (get_u32 point z)) @ debug_pointers point (z + 1)
      else [])"
  by pat_completeness auto
termination
  by (relation "measure (\<lambda>(point, z). POINTERS_PER_BLOCK - z)") auto

declare debug_pointers.simps [simp del]

text \<open>\<^verbatim>\<open>for(j = 0; j < POINTERS_PER_INODE; ++j) if(node.direct[j]) printf(" %u", node.direct[j]);\<close>\<close>

definition debug_direct :: "Inode \<Rightarrow> string" where
  "debug_direct node =
     concat (map (\<lambda>j. if direct node ! j \<noteq> 0 then '' '' @ string_of_nat (unat (direct node ! j))
                       else [])
               [0..<POINTERS_PER_INODE])"

text \<open>The functions of \<^verbatim>\<open>fs_debug\<close> return the text printed and either the disk after the
  call or the failure that stopped it. The loop \<^verbatim>\<open>for(int i = 0; i < INODES_PER_BLOCK; ++i)\<close>
  over the inode block in \<open>block\<close>:\<close>

function debug_inodes :: "Disk \<Rightarrow> Block \<Rightarrow> nat \<Rightarrow> string \<times> (error + Disk)" where
  "debug_inodes d block i =
     (if i < INODES_PER_BLOCK then
        if valid (block_inode block i) = 0 then debug_inodes d block (i + 1)
        else if indirect (block_inode block i) \<noteq> 0 then
          (case disk_read d (unat (indirect (block_inode block i))) of
             None \<Rightarrow>
               (''Inode '' @ string_of_nat i @ '':\<newline>''
                  @ ''    size: '' @ string_of_nat (unat (size (block_inode block i))) @ '' bytes\<newline>''
                  @ ''    direct blocks:'' @ debug_direct (block_inode block i) @ ''\<newline>''
                  @ ''    indirect block: '' @ string_of_nat (unat (indirect (block_inode block i)))
                  @ ''\<newline>'',
                Inl AssertFailed)
           | Some (d', point) \<Rightarrow>
               (case debug_inodes d' block (i + 1) of
                  (rest, r) \<Rightarrow>
                    (''Inode '' @ string_of_nat i @ '':\<newline>''
                       @ ''    size: '' @ string_of_nat (unat (size (block_inode block i))) @ '' bytes\<newline>''
                       @ ''    direct blocks:'' @ debug_direct (block_inode block i) @ ''\<newline>''
                       @ ''    indirect block: '' @ string_of_nat (unat (indirect (block_inode block i)))
                       @ ''\<newline>''
                       @ ''    indirect data blocks:'' @ debug_pointers point 0 @ ''\<newline>''
                       @ rest,
                     r)))
        else
          (case debug_inodes d block (i + 1) of
             (rest, r) \<Rightarrow>
               (''Inode '' @ string_of_nat i @ '':\<newline>''
                  @ ''    size: '' @ string_of_nat (unat (size (block_inode block i))) @ '' bytes\<newline>''
                  @ ''    direct blocks:'' @ debug_direct (block_inode block i) @ ''\<newline>''
                  @ rest,
                r))
      else ([], Inr d))"
  by pat_completeness auto
termination
  by (relation "measure (\<lambda>(d, block, i). INODES_PER_BLOCK - i)") auto

declare debug_inodes.simps [simp del]

text \<open>\<^verbatim>\<open>for(uint32_t index = 1; index <= inode_blocks; ++index)\<close>; \<open>n\<close> is the local
  \<^verbatim>\<open>inode_blocks\<close>.\<close>

function debug_blocks :: "Disk \<Rightarrow> nat \<Rightarrow> nat \<Rightarrow> string \<times> (error + Disk)" where
  "debug_blocks d n index =
     (if index \<le> n then
        (case disk_read d index of
           None \<Rightarrow> ([], Inl AssertFailed)
         | Some (d1, block) \<Rightarrow>
             (case debug_inodes d1 block 0 of
                (out, Inl e) \<Rightarrow> (out, Inl e)
              | (out, Inr d2) \<Rightarrow>
                  if index = 2 ^ 32 - 1 then (out, Inl CounterOverflow)
                  else (case debug_blocks d2 n (index + 1) of (rest, r) \<Rightarrow> (out @ rest, r))))
      else ([], Inr d))"
  by pat_completeness auto
termination
  by (relation "measure (\<lambda>(d, n, index). n + 1 - index)") auto

declare debug_blocks.simps [simp del]

definition fs_debug :: "Disk \<Rightarrow> string \<times> (error + Disk)" where
  "fs_debug d =
     (case disk_read d 0 of
        None \<Rightarrow> ([], Inl AssertFailed)
      | Some (d1, block) \<Rightarrow>
          if inodes (block_super block) = 0 then
            (''SuperBlock:\<newline>''
               @ ''    magic number is valid\<newline>''
               @ ''    '' @ string_of_nat (unat (blocks (block_super block))) @ '' blocks\<newline>'',
             Inr d1)
          else
            (case debug_blocks d1 (unat (inode_blocks (block_super block))) 1 of
               (rest, r) \<Rightarrow>
                 (''SuperBlock:\<newline>''
                    @ ''    magic number is valid\<newline>''
                    @ ''    '' @ string_of_nat (unat (blocks (block_super block))) @ '' blocks\<newline>''
                    @ ''    '' @ string_of_nat (unat (inode_blocks (block_super block)))
                    @ '' inode blocks\<newline>''
                    @ ''    '' @ string_of_nat (unat (inodes (block_super block))) @ '' inodes\<newline>''
                    @ rest,
                  r)))"

subsection \<open>Callers: fresh disks and sequences of operations\<close>

text \<open>A handle that is not mounted, as a caller declares it (\<^verbatim>\<open>FileSystem fs = {0}\<close>), and a disk
  image of \<open>n\<close> zero blocks.\<close>

definition blank_fs :: FileSystem where
  "blank_fs =
     \<lparr>disk = None,
      meta_data = \<lparr>magic_number = 0, blocks = 0, inode_blocks = 0, inodes = 0\<rparr>,
      free_blocks = None\<rparr>"

definition blank_disk :: "nat \<Rightarrow> Disk" where
  "blank_disk n = \<lparr>disk_blocks = n, image = (\<lambda>b. zero_block), reads = 0, writes = 0\<rparr>"

text \<open>\<^verbatim>\<open>fs_format\<close> followed by \<^verbatim>\<open>fs_mount\<close>, both required to return \<^verbatim>\<open>true\<close>.\<close>

definition format_and_mount :: "FileSystem \<Rightarrow> Disk \<Rightarrow> error + FileSystem" where
  "format_and_mount fs d =
     (case fs_format fs d of
        Inl e \<Rightarrow> Inl e
      | Inr (ok, d1) \<Rightarrow>
          if \<not> ok then Inl AssertFailed
          else
            (case fs_mount fs d1 of
               Inl e \<Rightarrow> Inl e
             | Inr (ok', fs', d2) \<Rightarrow> if ok' then Inr fs' else Inl AssertFailed))"

text \<open>\<^verbatim>\<open>fs_unmount\<close> followed by \<^verbatim>\<open>fs_mount\<close> on the disk that was mounted; the result is the
  handle after a mount that returned \<^verbatim>\<open>true\<close>.\<close>

definition remount :: "FileSystem \<Rightarrow> error + FileSystem" where
  "remount fs =
     (case disk fs of
        None \<Rightarrow> Inl NullPointer
      | Some d \<Rightarrow>
          (case fs_mount (fs_unmount fs) d of
             Inl e \<Rightarrow> Inl e
           | Inr (ok, fs', d') \<Rightarrow> if ok then Inr fs' else Inl AssertFailed))"

text \<open>One call of the public interface on a mounted handle, with its arguments.\<close>

datatype operation =
    Create
  | Remove nat
  | Stat nat
  | Read nat buffer nat nat
  | Write nat buffer nat nat

fun apply_operation :: "FileSystem \<Rightarrow> operation \<Rightarrow> error + FileSystem" where
  "apply_operation fs Create =
     (case fs_create fs of Inl e \<Rightarrow> Inl e | Inr (fs', r) \<Rightarrow> Inr fs')"
| "apply_operation fs (Remove n) =
     (case fs_remove fs n of Inl e \<Rightarrow> Inl e | Inr (fs', r) \<Rightarrow> Inr fs')"
| "apply_operation fs (Stat n) =
     (case fs_stat fs n of Inl e \<Rightarrow> Inl e | Inr (fs', r) \<Rightarrow> Inr fs')"
| "apply_operation fs (Read n buf len offset) =
     (case fs_read fs n buf len offset of Inl e \<Rightarrow> Inl e | Inr (fs', buf', r) \<Rightarrow> Inr fs')"
| "apply_operation fs (Write n buf len offset) =
     (case fs_write fs n buf len offset of Inl e \<Rightarrow> Inl e | Inr (fs', r) \<Rightarrow> Inr fs')"

fun run :: "FileSystem \<Rightarrow> operation list \<Rightarrow> error + FileSystem" where
  "run fs [] = Inr fs"
| "run fs (x # xs) =
     (case apply_operation fs x of Inl e \<Rightarrow> Inl e | Inr fs' \<Rightarrow> run fs' xs)"

subsection \<open>Concrete disks used as examples\<close>

text \<open>The handle after \<^verbatim>\<open>fs_format\<close> and \<^verbatim>\<open>fs_mount\<close> on a blank disk of 10 blocks.\<close>

definition mounted10 :: FileSystem where
  "mounted10 =
     \<lparr>disk = Some
        \<lparr>disk_blocks = 10,
         image = (\<lambda>b. if b = 0 then set_block_super zero_block
                          \<lparr>magic_number = MAGIC_NUMBER, blocks = 10, inode_blocks = 1, inodes = 128\<rparr>
                        else zero_block),
         reads = 2, writes = 10\<rparr>,
      meta_data = \<lparr>magic_number = MAGIC_NUMBER, blocks = 10, inode_blocks = 1, inodes = 128\<rparr>,
      free_blocks = Some [True, True, False, False, False, False, False, False, False, False]\<rparr>"

text \<open>The same handle after one \<^verbatim>\<open>fs_create\<close>, which returns inode 0.\<close>

definition created10 :: FileSystem where
  "created10 =
     \<lparr>disk = Some
        \<lparr>disk_blocks = 10,
         image = (\<lambda>b. if b = 0 then set_block_super zero_block
                          \<lparr>magic_number = MAGIC_NUMBER, blocks = 10, inode_blocks = 1, inodes = 128\<rparr>
                        else if b = 1 then set_block_inode zero_block 0 (zero_inode\<lparr>valid := 1\<rparr>)
                        else zero_block),
         reads = 4, writes = 11\<rparr>,
      meta_data = \<lparr>magic_number = MAGIC_NUMBER, blocks = 10, inode_blocks = 1, inodes = 128\<rparr>,
      free_blocks = Some [True, True, False, False, False, False, False, False, False, False]\<rparr>"

text \<open>The handle \<open>created10\<close> after one more block read (the read of the inode table by
  \<^verbatim>\<open>fs_load_inode\<close>).\<close>

definition loaded10 :: FileSystem where
  "loaded10 =
     \<lparr>disk = Some
        \<lparr>disk_blocks = 10,
         image = (\<lambda>b. if b = 0 then set_block_super zero_block
                          \<lparr>magic_number = MAGIC_NUMBER, blocks = 10, inode_blocks = 1, inodes = 128\<rparr>
                        else if b = 1 then set_block_inode zero_block 0 (zero_inode\<lparr>valid := 1\<rparr>)
                        else zero_block),
         reads = 5, writes = 11\<rparr>,
      meta_data = \<lparr>magic_number = MAGIC_NUMBER, blocks = 10, inode_blocks = 1, inodes = 128\<rparr>,
      free_blocks = Some [True, True, False, False, False, False, False, False, False, False]\<rparr>"

text \<open>The handle after \<^verbatim>\<open>fs_format\<close> and \<^verbatim>\<open>fs_mount\<close> on a blank disk of 20 blocks: two inode
  blocks, 256 inodes.\<close>

definition mounted20 :: FileSystem where
  "mounted20 =
     \<lparr>disk = Some
        \<lparr>disk_blocks = 20,
         image = (\<lambda>b. if b = 0 then set_block_super zero_block
                          \<lparr>magic_number = MAGIC_NUMBER, blocks = 20, inode_blocks = 2, inodes = 256\<rparr>
                        else zero_block),
         reads = 3, writes = 20\<rparr>,
      meta_data = \<lparr>magic_number = MAGIC_NUMBER, blocks = 20, inode_blocks = 2, inodes = 256\<rparr>,
      free_blocks = Some (replicate 3 True @ replicate 17 False)\<rparr>"

text \<open>The handle \<open>created10\<close> after \<^verbatim>\<open>fs_write\<close> of \<open>6 * 4096\<close> zero bytes at offset 0 to inode 0:
  five direct blocks, the indirect block 7 and one data block behind it.\<close>

definition written10_disk :: Disk where
  "written10_disk =
     \<lparr>disk_blocks = 10,
      image = (\<lambda>b. if b = 0 then set_block_super zero_block
                       \<lparr>magic_number = MAGIC_NUMBER, blocks = 10, inode_blocks = 1, inodes = 128\<rparr>
                     else if b = 1 then set_block_inode zero_block 0
                       \<lparr>valid = 1, size = 24576, direct = [2, 3, 4, 5, 6], indirect = 7\<rparr>
                     else if b = 7 then set_u32 zero_block 0 8
                     else zero_block),
      reads = 6, writes = 19\<rparr>"

definition written10 :: FileSystem where
  "written10 =
     \<lparr>disk = Some written10_disk,
      meta_data = \<lparr>magic_number = MAGIC_NUMBER, blocks = 10, inode_blocks = 1, inodes = 128\<rparr>,
      free_blocks = Some [True, True, True, True, True, True, True, True, True, False]\<rparr>"

text \<open>The handle \<open>written10\<close> after \<^verbatim>\<open>fs_remove\<close> of inode 0.\<close>

definition removed10 :: FileSystem where
  "removed10 =
     \<lparr>disk = Some
        \<lparr>disk_blocks = 10,
         image = (\<lambda>b. if b = 0 then set_block_super zero_block
                          \<lparr>magic_number = MAGIC_NUMBER, blocks = 10, inode_blocks = 1, inodes = 128\<rparr>
                        else if b = 1 then set_block_inode zero_block 0 zero_inode
                        else if b = 7 then set_u32 zero_block 0 8
                        else zero_block),
         reads = 9, writes = 20\<rparr>,
      meta_data = \<lparr>magic_number = MAGIC_NUMBER, blocks = 10, inode_blocks = 1, inodes = 128\<rparr>,
      free_blocks = Some [True, True, False, False, False, False, False, False, False, False]\<rparr>"

text \<open>Two disks of the same size whose images differ at most in block 0.\<close>

definition same_after_block0 :: "Disk \<Rightarrow> Disk \<Rightarrow> bool" where
  "same_after_block0 d d' \<longleftrightarrow>
     disk_blocks d' = disk_blocks d \<and> (\<forall>b. b \<noteq> 0 \<longrightarrow> image d' b = image d b)"

text \<open>A blank disk of 8 blocks: the handle after \<^verbatim>\<open>fs_format\<close> and \<^verbatim>\<open>fs_mount\<close>; the handle
  after \<^verbatim>\<open>fs_create\<close>, a write of \<open>6 * 4096\<close> zero bytes to inode 0 (which stores \<open>5 * 4096\<close>
  of them and allocates the last free block as indirect block) and \<^verbatim>\<open>fs_remove\<close> of inode
  0; and that handle unmounted and mounted again.\<close>

definition mounted8 :: FileSystem where
  "mounted8 =
     \<lparr>disk = Some
        \<lparr>disk_blocks = 8,
         image = (\<lambda>b. if b = 0 then set_block_super zero_block
                          \<lparr>magic_number = MAGIC_NUMBER, blocks = 8, inode_blocks = 1, inodes = 128\<rparr>
                        else zero_block),
         reads = 2, writes = 8\<rparr>,
      meta_data = \<lparr>magic_number = MAGIC_NUMBER, blocks = 8, inode_blocks = 1, inodes = 128\<rparr>,
      free_blocks = Some [True, True, False, False, False, False, False, False]\<rparr>"

definition removed8 :: FileSystem where
  "removed8 =
     \<lparr>disk = Some
        \<lparr>disk_blocks = 8,
         image = (\<lambda>b. if b = 0 then set_block_super zero_block
                          \<lparr>magic_number = MAGIC_NUMBER, blocks = 8, inode_blocks = 1, inodes = 128\<rparr>
                        else if b = 1 then set_block_inode zero_block 0 zero_inode
                        else zero_block),
         reads = 9, writes = 17\<rparr>,
      meta_data = \<lparr>magic_number = MAGIC_NUMBER, blocks = 8, inode_blocks = 1, inodes = 128\<rparr>,
      free_blocks = Some [True, True, False, False, False, False, False, True]\<rparr>"

definition remounted8 :: FileSystem where
  "remounted8 =
     \<lparr>disk = Some
        \<lparr>disk_blocks = 8,
         image = (\<lambda>b. if b = 0 then set_block_super zero_block
                          \<lparr>magic_number = MAGIC_NUMBER, blocks = 8, inode_blocks = 1, inodes = 128\<rparr>
                        else if b = 1 then set_block_inode zero_block 0 zero_inode
                        else zero_block),
         reads = 11, writes = 17\<rparr>,
      meta_data = \<lparr>magic_number = MAGIC_NUMBER, blocks = 8, inode_blocks = 1, inodes = 128\<rparr>,
      free_blocks = Some [True, True, False, False, False, False, False, False]\<rparr>"

text \<open>An inode block whose first \<open>k\<close> inodes are valid and empty, as \<open>k\<close> calls of \<^verbatim>\<open>fs_create\<close>
  leave it, and the handle on the disk of 20 blocks whose two inode blocks hold \<open>a\<close> and \<open>b\<close>
  such inodes (\<open>r\<close> and \<open>w\<close> count the block reads and writes). After \<open>129\<close> calls of
  \<^verbatim>\<open>fs_create\<close> on \<open>mounted20\<close> the first inode block is full and inode 128, the first inode of
  the second inode block, is valid.\<close>

fun inode_table :: "nat \<Rightarrow> Block" where
  "inode_table 0 = zero_block"
| "inode_table (Suc k) = set_block_inode (inode_table k) k (zero_inode\<lparr>valid := 1, indirect := 0\<rparr>)"

definition inodes20 :: "nat \<Rightarrow> nat \<Rightarrow> nat \<Rightarrow> nat \<Rightarrow> FileSystem" where
  "inodes20 a b r w =
     \<lparr>disk = Some
        \<lparr>disk_blocks = 20,
         image = (\<lambda>x. if x = 0 then set_block_super zero_block
                          \<lparr>magic_number = MAGIC_NUMBER, blocks = 20, inode_blocks = 2, inodes = 256\<rparr>
                        else if x = 1 then inode_table a
                        else if x = 2 then inode_table b
                        else zero_block),
         reads = r, writes = w\<rparr>,
      meta_data = \<lparr>magic_number = MAGIC_NUMBER, blocks = 20, inode_blocks = 2, inodes = 256\<rparr>,
      free_blocks = Some (replicate 3 True @ replicate 17 False)\<rparr>"

definition created20 :: FileSystem where
  "created20 = inodes20 128 1 262 149"

subsection \<open>The blocks that the inodes of a disk image refer to\<close>

text \<open>The places where an inode holds a block number: \<^verbatim>\<open>direct[i]\<close>, \<^verbatim>\<open>indirect\<close>, and
  \<^verbatim>\<open>pointers[j]\<close> of its indirect block.\<close>

datatype slot = Direct nat | Indirect | Pointer nat

fun slot_ok :: "slot \<Rightarrow> bool" where
  "slot_ok (Direct i) = (i < POINTERS_PER_INODE)"
| "slot_ok Indirect = True"
| "slot_ok (Pointer j) = (j < POINTERS_PER_BLOCK)"

text \<open>The inode with number \<open>k\<close> in a disk image.\<close>

definition inode_at :: "(nat \<Rightarrow> Block) \<Rightarrow> nat \<Rightarrow> Inode" where
  "inode_at img k = block_inode (img (k div INODES_PER_BLOCK + 1)) (k mod INODES_PER_BLOCK)"

text \<open>The block number in a slot of the inode record \<open>node\<close>, whose indirect block has the
  contents \<open>ib\<close>; 0 stands for no block.\<close>

fun node_ref :: "Inode \<Rightarrow> Block \<Rightarrow> slot \<Rightarrow> nat" where
  "node_ref node ib (Direct i) = unat (direct node ! i)"
| "node_ref node ib Indirect = unat (indirect node)"
| "node_ref node ib (Pointer j) = (if indirect node = 0 then 0 else unat (get_u32 ib j))"

text \<open>The block number in a slot of inode \<open>k\<close> of a disk image; an invalid inode refers to no
  block.\<close>

definition ref :: "(nat \<Rightarrow> Block) \<Rightarrow> nat \<Rightarrow> slot \<Rightarrow> nat" where
  "ref img k s =
     (if valid (inode_at img k) = 0 then 0
      else node_ref (inode_at img k) (img (unat (indirect (inode_at img k)))) s)"

text \<open>The references \<open>r\<close> of the inodes of a disk of \<open>B\<close> blocks with \<open>IB\<close> inode blocks
  (\<open>r k s\<close> is the block number in slot \<open>s\<close> of inode \<open>k\<close>) and a bitmap agree: the superblock
  and the inode blocks are marked, every block referred to is a data block and is marked,
  and no block is referred to from two slots.\<close>

definition wf_refs :: "nat \<Rightarrow> nat \<Rightarrow> (nat \<Rightarrow> slot \<Rightarrow> nat) \<Rightarrow> bool list \<Rightarrow> bool" where
  "wf_refs B IB r fb \<longleftrightarrow>
     length fb = B \<and> 0 < IB \<and> IB < B \<and> B < 2 ^ 32
     \<and> (\<forall>b \<le> IB. fb ! b)
     \<and> (\<forall>k s. k < IB * INODES_PER_BLOCK \<and> slot_ok s \<and> r k s \<noteq> 0
            \<longrightarrow> IB < r k s \<and> r k s < B \<and> fb ! r k s)
     \<and> (\<forall>k s k' s'. k < IB * INODES_PER_BLOCK \<and> k' < IB * INODES_PER_BLOCK
            \<and> slot_ok s \<and> slot_ok s' \<and> r k s \<noteq> 0 \<and> r k' s' = r k s
            \<longrightarrow> k' = k \<and> s' = s)"

definition well_formed :: "nat \<Rightarrow> nat \<Rightarrow> (nat \<Rightarrow> Block) \<Rightarrow> bool list \<Rightarrow> bool" where
  "well_formed B IB img fb \<longleftrightarrow> wf_refs B IB (ref img) fb"

text \<open>The disk image after \<^verbatim>\<open>fs_save_inode\<close> has stored the record \<open>node\<close> as inode \<open>n\<close>.\<close>

definition put_inode :: "(nat \<Rightarrow> Block) \<Rightarrow> nat \<Rightarrow> Inode \<Rightarrow> (nat \<Rightarrow> Block)" where
  "put_inode img n node =
     img(n div INODES_PER_BLOCK + 1 :=
           set_block_inode (img (n div INODES_PER_BLOCK + 1)) (n mod INODES_PER_BLOCK) node)"

text \<open>The references of a disk image while \<^verbatim>\<open>fs_write\<close> works on inode \<open>n\<close>: the inode is the
  local record \<open>node\<close> and its indirect block is the buffer \<open>ib\<close>; the other inodes are those
  of the image.\<close>

definition local_ref :: "(nat \<Rightarrow> Block) \<Rightarrow> nat \<Rightarrow> Inode \<Rightarrow> Block \<Rightarrow> nat \<Rightarrow> slot \<Rightarrow> nat" where
  "local_ref img n node ib k s = (if k = n then node_ref node ib s else ref img k s)"

text \<open>A mounted handle whose cached superblock is the one on its disk and whose disk image
  and bitmap agree.\<close>

definition consistent :: "FileSystem \<Rightarrow> bool" where
  "consistent fs \<longleftrightarrow>
     (\<exists>d fb. disk fs = Some d \<and> free_blocks fs = Some fb
        \<and> disk_blocks d = unat (blocks (meta_data fs))
        \<and> unat (inodes (meta_data fs)) = unat (inode_blocks (meta_data fs)) * INODES_PER_BLOCK
        \<and> magic_number (meta_data fs) = MAGIC_NUMBER
        \<and> block_super (image d 0) = meta_data fs
        \<and> well_formed (unat (blocks (meta_data fs))) (unat (inode_blocks (meta_data fs)))
             (image d) fb)"

text \<open>Two handles that differ at most in the read and write counters of their disks.\<close>

definition same_contents :: "FileSystem \<Rightarrow> FileSystem \<Rightarrow> bool" where
  "same_contents fs fs' \<longleftrightarrow>
     meta_data fs' = meta_data fs \<and> free_blocks fs' = free_blocks fs
     \<and> (case (disk fs, disk fs') of
           (None, None) \<Rightarrow> True
         | (Some d, Some d') \<Rightarrow> disk_blocks d' = disk_blocks d \<and> image d' = image d
         | _ \<Rightarrow> False)"

text \<open>The state of \<^verbatim>\<open>fs_write\<close> on inode \<open>n\<close> between two steps: the handle, the local inode
  record \<open>node\<close> and, once the indirect block has been read or allocated, its buffer
  (\<open>Some ib\<close>; before that the indirect block is the one on the disk). The references seen
  through the local record and buffer agree with the bitmap.\<close>

definition write_inv :: "FileSystem \<Rightarrow> nat \<Rightarrow> Inode \<Rightarrow> Block option \<Rightarrow> bool" where
  "write_inv fs n node ibo \<longleftrightarrow>
     (\<exists>d fb. disk fs = Some d \<and> free_blocks fs = Some fb
        \<and> disk_blocks d = unat (blocks (meta_data fs))
        \<and> unat (inodes (meta_data fs)) = unat (inode_blocks (meta_data fs)) * INODES_PER_BLOCK
        \<and> magic_number (meta_data fs) = MAGIC_NUMBER
        \<and> block_super (image d 0) = meta_data fs
        \<and> n < unat (inode_blocks (meta_data fs)) * INODES_PER_BLOCK
        \<and> valid node \<noteq> 0 \<and> length (direct node) = 5
        \<and> wf_refs (unat (blocks (meta_data fs))) (unat (inode_blocks (meta_data fs)))
             (local_ref (image d) n node
                (case ibo of None \<Rightarrow> image d (unat (indirect node)) | Some ib \<Rightarrow> ib))
             fb)"

text \<open>The state of \<^verbatim>\<open>fs_initialize_free_block_bitmap\<close> between two steps, on a disk with image
  \<open>img\<close> and \<open>B\<close> blocks and with cached superblock \<open>sb\<close>: the vector under construction marks
  every block below \<open>lo\<close> and marks only blocks that the bitmap \<open>fb\<close> marks.\<close>

definition marked_within ::
  "SuperBlock \<Rightarrow> (nat \<Rightarrow> Block) \<Rightarrow> nat \<Rightarrow> bool list \<Rightarrow> nat \<Rightarrow> FileSystem \<Rightarrow> bool" where
  "marked_within sb img B fb lo fs \<longleftrightarrow>
     (\<exists>d fbR. disk fs = Some d \<and> image d = img \<and> disk_blocks d = B \<and> meta_data fs = sb
        \<and> free_blocks fs = Some fbR \<and> length fbR = B
        \<and> (\<forall>b < B. fbR ! b \<longrightarrow> fb ! b)
        \<and> (\<forall>b < lo. fbR ! b))"

text \<open>A mounted handle on a disk of \<open>B\<close> blocks in whose bitmap exactly the blocks below \<open>a\<close>
  are marked: \<open>a\<close> is the block that \<^verbatim>\<open>fs_allocate_free_block\<close> finds next.\<close>

definition first_free :: "nat \<Rightarrow> nat \<Rightarrow> FileSystem \<Rightarrow> bool" where
  "first_free B a fs \<longleftrightarrow>
     (\<exists>d. disk fs = Some d \<and> disk_blocks d = B \<and> unat (blocks (meta_data fs)) = B
        \<and> 0 < a \<and> a \<le> B
        \<and> free_blocks fs = Some (replicate a True @ replicate (B - a) False))"

text \<open>The slot that holds the \<open>q\<close>-th data block of a file: the direct pointers come first,
  then the pointers of the indirect block.\<close>

definition slot_of :: "nat \<Rightarrow> slot" where
  "slot_of q = (if q < POINTERS_PER_INODE then Direct q else Pointer (q - POINTERS_PER_INODE))"

text \<open>The data slots \<open>\<rho>\<close> of a file of \<open>c\<close> bytes are filled in order: every block that the \<open>c\<close>
  bytes reach has a block number, and a slot with a block number is not preceded by an empty
  slot. The loops of \<^verbatim>\<open>fs_mount\<close> and \<^verbatim>\<open>fs_remove\<close> stop at the first empty slot.\<close>

definition filled_in_order :: "(slot \<Rightarrow> nat) \<Rightarrow> nat \<Rightarrow> bool" where
  "filled_in_order \<rho> c \<longleftrightarrow>
     (\<forall>q < POINTERS_PER_INODE + POINTERS_PER_BLOCK.
         q * BLOCK_SIZE < c \<longrightarrow> \<rho> (slot_of q) \<noteq> 0)
     \<and> (\<forall>q < POINTERS_PER_INODE + POINTERS_PER_BLOCK. \<forall>q' < q.
         \<rho> (slot_of q) \<noteq> 0 \<longrightarrow> \<rho> (slot_of q') \<noteq> 0)"

text \<open>The size of inode \<open>k\<close> of a disk image; an invalid inode has no bytes.\<close>

definition file_size :: "(nat \<Rightarrow> Block) \<Rightarrow> nat \<Rightarrow> nat" where
  "file_size img k = (if valid (inode_at img k) = 0 then 0 else unat (size (inode_at img k)))"

text \<open>The references \<open>r\<close> and sizes \<open>sz\<close> of the inodes are filled in order; with \<open>t\<close>, the bitmap
  is moreover tight: it marks no block other than the superblock, the inode blocks and the
  blocks referred to.\<close>

definition tidy_refs ::
  "bool \<Rightarrow> nat \<Rightarrow> nat \<Rightarrow> (nat \<Rightarrow> slot \<Rightarrow> nat) \<Rightarrow> (nat \<Rightarrow> nat) \<Rightarrow> bool list \<Rightarrow> bool" where
  "tidy_refs t B IB r sz fb \<longleftrightarrow>
     (\<forall>k < IB * INODES_PER_BLOCK. filled_in_order (r k) (sz k))
     \<and> (t \<longrightarrow> (\<forall>b < B. fb ! b
              \<longrightarrow> b \<le> IB \<or> (\<exists>k s. k < IB * INODES_PER_BLOCK \<and> slot_ok s \<and> r k s = b)))"

definition tidy :: "bool \<Rightarrow> FileSystem \<Rightarrow> bool" where
  "tidy t fs \<longleftrightarrow>
     (\<exists>d fb. disk fs = Some d \<and> free_blocks fs = Some fb
        \<and> tidy_refs t (unat (blocks (meta_data fs))) (unat (inode_blocks (meta_data fs)))
             (ref (image d)) (file_size (image d)) fb)"

text \<open>The sizes while \<^verbatim>\<open>fs_write\<close> works on inode \<open>n\<close> and has reached \<open>offset\<close>: the size that
  inode \<open>n\<close> will be saved with is the larger of \<open>offset\<close> and the size of the local record.\<close>

definition local_size :: "(nat \<Rightarrow> Block) \<Rightarrow> nat \<Rightarrow> Inode \<Rightarrow> nat \<Rightarrow> nat \<Rightarrow> nat" where
  "local_size img n node offset k =
     (if k = n then max offset (unat (size node)) else file_size img k)"

definition write_tidy :: "bool \<Rightarrow> FileSystem \<Rightarrow> nat \<Rightarrow> Inode \<Rightarrow> Block option \<Rightarrow> nat \<Rightarrow> bool" where
  "write_tidy t fs n node ibo offset \<longleftrightarrow>
     (\<exists>d fb. disk fs = Some d \<and> free_blocks fs = Some fb
        \<and> tidy_refs t (unat (blocks (meta_data fs))) (unat (inode_blocks (meta_data fs)))
             (local_ref (image d) n node
                (case ibo of None \<Rightarrow> image d (unat (indirect node)) | Some ib \<Rightarrow> ib))
             (local_size (image d) n node offset) fb)"

text \<open>The operation is an \<^verbatim>\<open>fs_remove\<close> of a valid inode whose indirect block holds no pointer:
  the call that leaves the indirect block marked in the bitmap. A sequence of operations
  without such a call.\<close>

fun leaves_indirect :: "FileSystem \<Rightarrow> operation \<Rightarrow> bool" where
  "leaves_indirect fs (Remove n) =
     (case disk fs of
        None \<Rightarrow> False
      | Some d \<Rightarrow>
          n < unat (inodes (meta_data fs)) \<and> valid (inode_at (image d) n) \<noteq> 0
          \<and> indirect (inode_at (image d) n) \<noteq> 0
          \<and> get_u32 (image d (unat (indirect (inode_at (image d) n)))) 0 = 0)"
| "leaves_indirect fs Create = False"
| "leaves_indirect fs (Stat n) = False"
| "leaves_indirect fs (Read n buf len offset) = False"
| "leaves_indirect fs (Write n buf len offset) = False"

fun no_indirect_left :: "FileSystem \<Rightarrow> operation list \<Rightarrow> bool" where
  "no_indirect_left fs [] = True"
| "no_indirect_left fs (x # xs) =
     (\<not> leaves_indirect fs x
      \<and> (case apply_operation fs x of Inl e \<Rightarrow> True | Inr fs' \<Rightarrow> no_indirect_left fs' xs))"

section \<open>Properties\<close>

subsection \<open>Blocks and their views\<close>

lemma u32_of_bytes_of_u32:
  "u32_of_bytes (byte_of_u32 w 0) (byte_of_u32 w 1) (byte_of_u32 w 2) (byte_of_u32 w 3) = w"
proof (rule bit_word_eqI)
  fix n assume n: "n < LENGTH(32)"
  then consider "n < 8" | "8 \<le> n \<and> n < 16" | "16 \<le> n \<and> n < 24" | "24 \<le> n \<and> n < 32"
    by fastforce
  then show "bit (u32_of_bytes (byte_of_u32 w 0) (byte_of_u32 w 1) (byte_of_u32 w 2)
                    (byte_of_u32 w 3)) n = bit w n"
    by cases (auto simp add: u32_of_bytes_def byte_of_u32_def bit_simps)
qed

lemma byte_of_u32_of_bytes:
  "byte_of_u32 (u32_of_bytes b0 b1 b2 b3) 0 = b0"
  "byte_of_u32 (u32_of_bytes b0 b1 b2 b3) 1 = b1"
  "byte_of_u32 (u32_of_bytes b0 b1 b2 b3) (Suc 0) = b1"
  "byte_of_u32 (u32_of_bytes b0 b1 b2 b3) 2 = b2"
  "byte_of_u32 (u32_of_bytes b0 b1 b2 b3) 3 = b3"
  unfolding u32_of_bytes_def byte_of_u32_def
  by (rule bit_word_eqI; auto simp add: bit_simps dest: bit_imp_le_length)+

lemma byte_of_u32_of_bytes_nth:
  assumes "r < 4"
  shows "byte_of_u32 (u32_of_bytes (b k) (b (k + 1)) (b (k + 2)) (b (k + 3))) r = b (k + r)"
proof -
  from assms consider "r = 0" | "r = 1" | "r = 2" | "r = 3" by linarith
  then show ?thesis by cases (simp_all add: byte_of_u32_of_bytes)
qed

lemma get_u32_zero_block [simp]: "get_u32 zero_block k = 0"
  by (simp add: get_u32_def zero_block_def u32_of_bytes_def)

lemma get_u32_set_u32 [simp]:
  "get_u32 (set_u32 b k w) j = (if j = k then w else get_u32 b j)"
  using u32_of_bytes_of_u32[of w] by (auto simp add: get_u32_def set_u32_def)

lemma set_u32_get_u32 [simp]: "set_u32 b k (get_u32 b k) = b"
proof
  fix i
  show "set_u32 b k (get_u32 b k) i = b i"
  proof (cases "4 * k \<le> i \<and> i < 4 * k + 4")
    case True
    then have "i - 4 * k < 4" by linarith
    from byte_of_u32_of_bytes_nth[OF this, of b "4 * k"] True show ?thesis
      by (simp add: set_u32_def get_u32_def)
  next
    case False
    then show ?thesis by (auto simp add: set_u32_def)
  qed
qed

lemma block_super_set_block_super [simp]: "block_super (set_block_super b s) = s"
  by (simp add: block_super_def set_block_super_def)

lemma length_direct_block_inode [simp]: "length (direct (block_inode b j)) = 5"
  by (simp add: block_inode_def)

lemma block_inode_zero_block [simp]: "block_inode zero_block j = zero_inode"
  by (simp add: block_inode_def zero_inode_def)

lemma list5_nth:
  "length xs = 5 \<Longrightarrow> [xs ! 0, xs ! 1, xs ! 2, xs ! 3, xs ! 4] = xs"
  by (rule nth_equalityI) (auto simp add: nth_Cons' less_Suc_eq numeral_eq_Suc)

lemma block_inode_set_block_inode:
  assumes "length (direct n) = 5"
  shows "block_inode (set_block_inode b j n) j' = (if j' = j then n else block_inode b j')"
proof (cases "j' = j")
  case True
  have "block_inode (set_block_inode b j n) j
          = \<lparr>valid = valid n, size = size n,
              direct = [direct n ! 0, direct n ! 1, direct n ! 2, direct n ! 3, direct n ! 4],
              indirect = indirect n\<rparr>"
    by (simp add: block_inode_def set_block_inode_def)
  also have "\<dots> = n"
    unfolding list5_nth[OF assms] by simp
  finally show ?thesis using True by simp
next
  case False
  then show ?thesis by (simp add: block_inode_def set_block_inode_def)
qed

lemma set_block_inode_block_inode [simp]: "set_block_inode b j (block_inode b j) = b"
  by (simp add: block_inode_def set_block_inode_def)

subsection \<open>Reading and writing blocks through the handle\<close>

lemma fs_disk_read_Inr:
  "fs_disk_read fs b = Inr (fs', blk) \<longleftrightarrow>
     (\<exists>d. disk fs = Some d \<and> b < disk_blocks d
          \<and> fs' = fs\<lparr>disk := Some (d\<lparr>reads := reads d + 1\<rparr>)\<rparr> \<and> blk = image d b)"
  by (auto simp add: fs_disk_read_def disk_read_def disk_sanity_check_def split: option.splits)

lemma fs_disk_write_Inr:
  "fs_disk_write fs b blk = Inr fs' \<longleftrightarrow>
     (\<exists>d. disk fs = Some d \<and> b < disk_blocks d
          \<and> fs' = fs\<lparr>disk := Some (d\<lparr>image := (image d)(b := blk), writes := writes d + 1\<rparr>)\<rparr>)"
  by (auto simp add: fs_disk_write_def disk_write_def disk_sanity_check_def split: option.splits)

lemma fs_load_inode_Some:
  "fs_load_inode fs n = Inr (fs', Some node) \<longleftrightarrow>
     (\<exists>d. disk fs = Some d \<and> n < unat (inodes (meta_data fs)) \<and> n < INODES_PER_BLOCK
          \<and> 1 < disk_blocks d
          \<and> fs' = fs\<lparr>disk := Some (d\<lparr>reads := reads d + 1\<rparr>)\<rparr>
          \<and> valid (block_inode (image d 1) n) \<noteq> 0
          \<and> node = block_inode (image d 1) n)"
  by (auto simp add: fs_load_inode_def fs_disk_read_def disk_read_def disk_sanity_check_def
        INODES_PER_BLOCK_def
      split: option.splits if_splits)

lemma fs_load_inode_None:
  "fs_load_inode fs n = Inr (fs', None) \<longleftrightarrow>
     (unat (inodes (meta_data fs)) \<le> n \<and> fs' = fs
      \<or> (\<exists>d. disk fs = Some d \<and> n < unat (inodes (meta_data fs)) \<and> n < INODES_PER_BLOCK
             \<and> 1 < disk_blocks d
             \<and> fs' = fs\<lparr>disk := Some (d\<lparr>reads := reads d + 1\<rparr>)\<rparr>
             \<and> valid (block_inode (image d 1) n) = 0))"
  by (auto simp add: fs_load_inode_def fs_disk_read_def disk_read_def disk_sanity_check_def
        INODES_PER_BLOCK_def
      split: option.splits if_splits)


subsection \<open>The example disks\<close>

lemma fs_format_blank10:
  "fs_format blank_fs (blank_disk 10) =
     Inr (True,
       \<lparr>disk_blocks = 10,
        image = (\<lambda>b. if b = 0 then set_block_super zero_block
                         \<lparr>magic_number = MAGIC_NUMBER, blocks = 10, inode_blocks = 1, inodes = 128\<rparr>
                       else zero_block),
        reads = 0, writes = 10\<rparr>)"
  by (simp add: fs_format_def blank_fs_def blank_disk_def disk_write_def disk_sanity_check_def
        format_clear.simps INODES_PER_BLOCK_def fun_eq_iff)

lemma replicate10: "replicate 10 False = [False, False, False, False, False, False, False, False, False, False]"
  by (simp add: eval_nat_numeral)

lemma format_and_mount_blank10: "format_and_mount blank_fs (blank_disk 10) = Inr mounted10"
  unfolding format_and_mount_def fs_format_blank10
  by (simp add: fs_mount_def blank_fs_def disk_read_def disk_sanity_check_def
        MAGIC_NUMBER_def INODES_PER_BLOCK_def fs_initialize_free_block_bitmap_def set_free_block_def
        bitmap_inode_blocks.simps fs_disk_read_def bitmap_inodes.simps zero_inode_def mounted10_def
        replicate10)

lemma fs_create_mounted10: "fs_create mounted10 = Inr (created10, 0)"
  by (simp add: fs_create_def mounted10_def fs_create_blocks.simps fs_create_slots.simps
        fs_disk_read_def disk_read_def disk_sanity_check_def assert_save_inode_def
        fs_save_inode_def fs_disk_write_def disk_write_def INODES_PER_BLOCK_def created10_def
        zero_inode_def fun_eq_iff)

lemma fs_load_inode_created10:
  "fs_load_inode created10 0 = Inr (loaded10, Some (zero_inode\<lparr>valid := 1\<rparr>))"
  by (simp add: fs_load_inode_Some created10_def loaded10_def INODES_PER_BLOCK_def
        block_inode_set_block_inode zero_inode_def)

subsection \<open>Writes that change nothing\<close>

text \<open>For an inode that \<^verbatim>\<open>fs_load_inode\<close> loads, a write whose offset lies strictly beyond the
  size of the inode returns 0. The handle it leaves is the one that loading the inode leaves:
  the free-block bitmap, the cached superblock and every block of the disk image are
  unchanged (one block read is counted), and the inode loads again with the same record.\<close>

lemma fs_write_first_block_offset_beyond_size:
  assumes "fs_load_inode fs n = Inr (fs1, Some node)"
    and "unat (size node) < offset"
  shows "fs_write fs n data len offset = Inr (fs1, 0)
         \<and> free_blocks fs1 = free_blocks fs
         \<and> meta_data fs1 = meta_data fs
         \<and> (\<exists>d d1. disk fs = Some d \<and> disk fs1 = Some d1 \<and> image d1 = image d
                \<and> disk_blocks d1 = disk_blocks d \<and> writes d1 = writes d)
         \<and> (\<exists>fs2. fs_load_inode fs1 n = Inr (fs2, Some node))"
proof -
  from assms(1) obtain d where d: "disk fs = Some d" "n < unat (inodes (meta_data fs))"
      "n < INODES_PER_BLOCK" "1 < disk_blocks d"
      "fs1 = fs\<lparr>disk := Some (d\<lparr>reads := reads d + 1\<rparr>)\<rparr>"
      "valid (block_inode (image d 1) n) \<noteq> 0" "node = block_inode (image d 1) n"
    unfolding fs_load_inode_Some by blast
  have "fs_write fs n data len offset = Inr (fs1, 0)"
    using assms by (simp add: fs_write_def)
  moreover have "\<exists>fs2. fs_load_inode fs1 n = Inr (fs2, Some node)"
    unfolding fs_load_inode_Some using d by simp
  ultimately show ?thesis using d by simp
qed

lemma fs_save_inode_loaded:
  assumes "fs_load_inode fs n = Inr (fs1, Some node)"
  shows "\<exists>d. disk fs = Some d
           \<and> fs_save_inode fs1 n node
               = Inr (fs\<lparr>disk := Some (d\<lparr>reads := reads d + 2, writes := writes d + 1\<rparr>)\<rparr>, True)"
proof -
  from assms obtain d where d: "disk fs = Some d" "n < unat (inodes (meta_data fs))"
      "n < INODES_PER_BLOCK" "1 < disk_blocks d"
      "fs1 = fs\<lparr>disk := Some (d\<lparr>reads := reads d + 1\<rparr>)\<rparr>"
      "node = block_inode (image d 1) n"
    unfolding fs_load_inode_Some by blast
  then show ?thesis
    by (simp add: fs_save_inode_def fs_disk_read_def disk_read_def disk_sanity_check_def
          fs_disk_write_def disk_write_def)
qed

text \<open>For an inode that \<^verbatim>\<open>fs_load_inode\<close> loads, a write of length 0 at an offset not beyond
  the size of the inode returns 0. It allocates nothing: the free-block bitmap is unchanged,
  every block of the disk image is unchanged, and the inode loads again with the same record
  (size, direct pointers and indirect pointer).\<close>

lemma fs_write_first_block_length_zero:
  assumes "fs_load_inode fs n = Inr (fs1, Some node)"
    and "offset \<le> unat (size node)"
  shows "\<exists>fs'. fs_write fs n data 0 offset = Inr (fs', 0)
           \<and> free_blocks fs' = free_blocks fs
           \<and> (\<exists>d d'. disk fs = Some d \<and> disk fs' = Some d' \<and> image d' = image d)
           \<and> (\<exists>fs2. fs_load_inode fs' n = Inr (fs2, Some node))"
proof -
  from assms(1) obtain d where d: "disk fs = Some d" "n < unat (inodes (meta_data fs))"
      "n < INODES_PER_BLOCK" "1 < disk_blocks d"
      "fs1 = fs\<lparr>disk := Some (d\<lparr>reads := reads d + 1\<rparr>)\<rparr>"
      "valid (block_inode (image d 1) n) \<noteq> 0" "node = block_inode (image d 1) n"
    unfolding fs_load_inode_Some by blast
  from fs_save_inode_loaded[OF assms(1)] d(1)
  have save: "fs_save_inode fs1 n node
      = Inr (fs\<lparr>disk := Some (d\<lparr>reads := reads d + 2, writes := writes d + 1\<rparr>)\<rparr>, True)"
    by simp
  let ?fs' = "fs\<lparr>disk := Some (d\<lparr>reads := reads d + 2, writes := writes d + 1\<rparr>)\<rparr>"
  have "fs_write_last fs1 n node offset 0 = Inr (?fs', 0)"
    using assms(2) save by (simp add: fs_write_last_def assert_save_inode_def)
  then have "fs_write fs n data 0 offset = Inr (?fs', 0)"
    using assms by (simp add: fs_write_def fs_write_direct.simps)
  moreover have "\<exists>fs2. fs_load_inode ?fs' n = Inr (fs2, Some node)"
    unfolding fs_load_inode_Some using d by simp
  ultimately show ?thesis using d(1) by simp
qed

subsection \<open>Mounting\<close>

text \<open>C8. On a handle that is not mounted, mounting a disk whose block 0 fails one of the
  superblock checks returns false and gives back the handle as it was: no disk is bound and the
  bitmap pointer is untouched (the disk has counted one block read). The handle being
  unchanged, a later mount behaves as it would have on the original handle.\<close>

theorem fs_mount_bad_superblock:
  assumes "disk fs = None"
    and "0 < disk_blocks d"
    and "magic_number (block_super (image d 0)) \<noteq> MAGIC_NUMBER
         \<or> unat (blocks (block_super (image d 0))) \<noteq> disk_blocks d
         \<or> unat (inodes (block_super (image d 0)))
             \<noteq> unat (inode_blocks (block_super (image d 0))) * INODES_PER_BLOCK"
  shows "\<exists>fs' d'. fs_mount fs d = Inr (False, fs', d')
           \<and> fs' = fs \<and> disk fs' = None \<and> free_blocks fs' = free_blocks fs
           \<and> d' = d\<lparr>reads := reads d + 1\<rparr>
           \<and> (\<forall>d2. fs_mount fs' d2 = fs_mount fs d2)"
  using assms by (auto simp add: fs_mount_def disk_read_def disk_sanity_check_def)

theorem fs_mount_bad_superblock_witness:
  "disk blank_fs = None \<and> 0 < disk_blocks (blank_disk 10)
   \<and> magic_number (block_super (image (blank_disk 10) 0)) \<noteq> MAGIC_NUMBER
   \<and> fs_mount blank_fs (blank_disk 10)
       = Inr (False, blank_fs, (blank_disk 10)\<lparr>reads := reads (blank_disk 10) + 1\<rparr>)
   \<and> free_blocks blank_fs = None"
proof -
  have h1: "disk blank_fs = None" by (simp add: blank_fs_def)
  have h2: "0 < disk_blocks (blank_disk 10)" by (simp add: blank_disk_def)
  have h3: "magic_number (block_super (image (blank_disk 10) 0)) \<noteq> MAGIC_NUMBER"
    by (simp add: blank_disk_def block_super_def MAGIC_NUMBER_def)
  from fs_mount_bad_superblock[OF h1 h2 disjI1, OF h3]
  show ?thesis using h1 h2 h3 by (auto simp add: blank_fs_def)
qed

subsection \<open>Loading an inode of the second inode block\<close>

lemma fs_format_blank20:
  "fs_format blank_fs (blank_disk 20) =
     Inr (True,
       \<lparr>disk_blocks = 20,
        image = (\<lambda>b. if b = 0 then set_block_super zero_block
                         \<lparr>magic_number = MAGIC_NUMBER, blocks = 20, inode_blocks = 2, inodes = 256\<rparr>
                       else zero_block),
        reads = 0, writes = 20\<rparr>)"
  by (simp add: fs_format_def blank_fs_def blank_disk_def disk_write_def disk_sanity_check_def
        format_clear.simps INODES_PER_BLOCK_def fun_eq_iff)

lemma replicate20:
  "(replicate 20 False)[0 := True, Suc 0 := True, Suc (Suc 0) := True]
     = replicate 3 True @ replicate 17 False"
  by (simp add: eval_nat_numeral)

lemma format_and_mount_blank20: "format_and_mount blank_fs (blank_disk 20) = Inr mounted20"
  unfolding format_and_mount_def fs_format_blank20
  by (simp add: fs_mount_def blank_fs_def disk_read_def disk_sanity_check_def
        MAGIC_NUMBER_def INODES_PER_BLOCK_def fs_initialize_free_block_bitmap_def set_free_block_def
        bitmap_inode_blocks.simps fs_disk_read_def bitmap_inodes.simps zero_inode_def mounted20_def
        replicate20)

text \<open>C4. The claim fails on the code for inode numbers of the second and later inode
  blocks. On a freshly formatted and mounted disk of 20 blocks, which has 256 inodes, loading
  inode 128 passes the range check, reads inode block 2 and then tests
  \<^verbatim>\<open>block.inodes[128].valid\<close>, outside the 128 inodes of the block.\<close>

theorem fs_load_inode_128_out_of_bounds:
  "format_and_mount blank_fs (blank_disk 20) = Inr mounted20
   \<and> 128 < unat (inodes (meta_data mounted20))
   \<and> fs_load_inode mounted20 128 = Inl OutOfBounds"
  by (simp add: format_and_mount_blank20)
     (simp add: mounted20_def fs_load_inode_def fs_disk_read_def disk_read_def
        disk_sanity_check_def INODES_PER_BLOCK_def)

subsection \<open>The loops that mark blocks in the bitmap\<close>

lemma set_free_block_Inr:
  "set_free_block fs k v = Inr fs' \<longleftrightarrow>
     (\<exists>fb. free_blocks fs = Some fb \<and> k < length fb \<and> fs' = fs\<lparr>free_blocks := Some (fb[k := v])\<rparr>)"
  by (auto simp add: set_free_block_def split: option.splits)

lemma set_pointer_blocks_result:
  assumes "set_pointer_blocks fs blk v j0 = Inr (fs', i)"
    and "free_blocks fs = Some fb"
    and "j0 \<le> POINTERS_PER_BLOCK"
  shows "\<exists>fb'. fs' = fs\<lparr>free_blocks := Some fb'\<rparr> \<and> length fb' = length fb
           \<and> j0 \<le> i \<and> i \<le> POINTERS_PER_BLOCK
           \<and> (\<forall>j. j0 \<le> j \<and> j < i \<longrightarrow> get_u32 blk j \<noteq> 0 \<and> unat (get_u32 blk j) < length fb)
           \<and> (i < POINTERS_PER_BLOCK \<longrightarrow> get_u32 blk i = 0)
           \<and> (\<forall>b < length fb. fb' ! b
                 = (if \<exists>j. j0 \<le> j \<and> j < i \<and> unat (get_u32 blk j) = b then v else fb ! b))"
  using assms
proof (induction fs blk v j0 arbitrary: fb rule: set_pointer_blocks.induct)
  case (1 fs block v j)
  show ?case
  proof (cases "j < POINTERS_PER_BLOCK \<and> get_u32 block j \<noteq> 0")
    case False
    with "1.prems" have "fs' = fs" "i = j"
      by (auto simp add: set_pointer_blocks.simps[of fs block v j] split: if_splits)
    with False "1.prems" show ?thesis by (intro exI[of _ fb]) auto
  next
    case True
    with "1.prems" obtain fs1 where
      s1: "set_free_block fs (unat (get_u32 block j)) v = Inr fs1"
      and rec: "set_pointer_blocks fs1 block v (j + 1) = Inr (fs', i)"
      by (auto simp add: set_pointer_blocks.simps[of fs block v j] split: sum.splits)
    from s1 "1.prems"(2) have k: "unat (get_u32 block j) < length fb"
      and fs1: "fs1 = fs\<lparr>free_blocks := Some (fb[unat (get_u32 block j) := v])\<rparr>"
      by (auto simp add: set_free_block_Inr)
    from fs1 have fb1: "free_blocks fs1 = Some (fb[unat (get_u32 block j) := v])" by simp
    from True have j1: "j + 1 \<le> POINTERS_PER_BLOCK" by simp
    from "1.IH"[OF _ _ s1 rec fb1 j1] True
    obtain fb' where IH: "fs' = fs1\<lparr>free_blocks := Some fb'\<rparr>" "length fb' = length fb"
      "j + 1 \<le> i" "i \<le> POINTERS_PER_BLOCK"
      "\<forall>ja. j + 1 \<le> ja \<and> ja < i \<longrightarrow> get_u32 block ja \<noteq> 0 \<and> unat (get_u32 block ja) < length fb"
      "i < POINTERS_PER_BLOCK \<longrightarrow> get_u32 block i = 0"
      "\<forall>b < length fb. fb' ! b
         = (if \<exists>ja. j + 1 \<le> ja \<and> ja < i \<and> unat (get_u32 block ja) = b then v
            else (fb[unat (get_u32 block j) := v]) ! b)"
      by auto
    have a: "\<forall>ja. j \<le> ja \<and> ja < i \<longrightarrow> get_u32 block ja \<noteq> 0 \<and> unat (get_u32 block ja) < length fb"
    proof (intro allI impI)
      fix ja assume "j \<le> ja \<and> ja < i"
      then consider "ja = j" | "j + 1 \<le> ja \<and> ja < i" by linarith
      then show "get_u32 block ja \<noteq> 0 \<and> unat (get_u32 block ja) < length fb"
        using True k IH(5) by cases auto
    qed
    have b: "\<forall>b < length fb. fb' ! b
                 = (if \<exists>ja. j \<le> ja \<and> ja < i \<and> unat (get_u32 block ja) = b then v else fb ! b)"
    proof (intro allI impI)
      fix b assume b: "b < length fb"
      have ex: "(\<exists>ja. j \<le> ja \<and> ja < i \<and> unat (get_u32 block ja) = b)
                \<longleftrightarrow> unat (get_u32 block j) = b \<or> (\<exists>ja. j + 1 \<le> ja \<and> ja < i \<and> unat (get_u32 block ja) = b)"
        using IH(3) by (metis Suc_eq_plus1 Suc_le_eq le_eq_less_or_eq)
      show "fb' ! b = (if \<exists>ja. j \<le> ja \<and> ja < i \<and> unat (get_u32 block ja) = b then v else fb ! b)"
        unfolding ex using IH(7) b k by (auto simp add: nth_list_update)
    qed
    have eq: "fs' = fs\<lparr>free_blocks := Some fb'\<rparr>" using IH(1) fs1 by simp
    have ji: "j \<le> i" using IH(3) by simp
    from eq IH(2) ji IH(4) a IH(6) b show ?thesis by blast
  qed
qed


lemma set_direct_blocks_result:
  assumes "set_direct_blocks fs inode v j0 = Inr fs'"
    and "free_blocks fs = Some fb"
    and "j0 \<le> POINTERS_PER_INODE"
  shows "\<exists>fb' i. fs' = fs\<lparr>free_blocks := Some fb'\<rparr> \<and> length fb' = length fb
           \<and> j0 \<le> i \<and> i \<le> POINTERS_PER_INODE
           \<and> (\<forall>j. j0 \<le> j \<and> j < i \<longrightarrow> direct inode ! j \<noteq> 0 \<and> unat (direct inode ! j) < length fb)
           \<and> (i < POINTERS_PER_INODE \<longrightarrow> direct inode ! i = 0)
           \<and> (\<forall>b < length fb. fb' ! b
                 = (if \<exists>j. j0 \<le> j \<and> j < i \<and> unat (direct inode ! j) = b then v else fb ! b))"
  using assms
proof (induction fs inode v j0 arbitrary: fb rule: set_direct_blocks.induct)
  case (1 fs inode v j)
  show ?case
  proof (cases "j < POINTERS_PER_INODE \<and> direct inode ! j \<noteq> 0")
    case False
    with "1.prems" have "fs' = fs"
      by (auto simp add: set_direct_blocks.simps[of fs inode v j] split: if_splits)
    with False "1.prems" show ?thesis by (intro exI[of _ fb] exI[of _ j]) auto
  next
    case True
    with "1.prems" obtain fs1 where
      s1: "set_free_block fs (unat (direct inode ! j)) v = Inr fs1"
      and rec: "set_direct_blocks fs1 inode v (j + 1) = Inr fs'"
      by (auto simp add: set_direct_blocks.simps[of fs inode v j] split: sum.splits)
    from s1 "1.prems"(2) have k: "unat (direct inode ! j) < length fb"
      and fs1: "fs1 = fs\<lparr>free_blocks := Some (fb[unat (direct inode ! j) := v])\<rparr>"
      by (auto simp add: set_free_block_Inr)
    from fs1 have fb1: "free_blocks fs1 = Some (fb[unat (direct inode ! j) := v])" by simp
    from True have j1: "j + 1 \<le> POINTERS_PER_INODE" by simp
    from "1.IH"[OF _ _ s1 rec fb1 j1] True
    obtain fb' i where IH: "fs' = fs1\<lparr>free_blocks := Some fb'\<rparr>" "length fb' = length fb"
      "j + 1 \<le> i" "i \<le> POINTERS_PER_INODE"
      "\<forall>ja. j + 1 \<le> ja \<and> ja < i \<longrightarrow> direct inode ! ja \<noteq> 0 \<and> unat (direct inode ! ja) < length fb"
      "i < POINTERS_PER_INODE \<longrightarrow> direct inode ! i = 0"
      "\<forall>b < length fb. fb' ! b
         = (if \<exists>ja. j + 1 \<le> ja \<and> ja < i \<and> unat (direct inode ! ja) = b then v
            else (fb[unat (direct inode ! j) := v]) ! b)"
      by auto
    have a: "\<forall>ja. j \<le> ja \<and> ja < i \<longrightarrow> direct inode ! ja \<noteq> 0 \<and> unat (direct inode ! ja) < length fb"
    proof (intro allI impI)
      fix ja assume "j \<le> ja \<and> ja < i"
      then consider "ja = j" | "j + 1 \<le> ja \<and> ja < i" by linarith
      then show "direct inode ! ja \<noteq> 0 \<and> unat (direct inode ! ja) < length fb"
        using True k IH(5) by cases auto
    qed
    have b: "\<forall>b < length fb. fb' ! b
                 = (if \<exists>ja. j \<le> ja \<and> ja < i \<and> unat (direct inode ! ja) = b then v else fb ! b)"
    proof (intro allI impI)
      fix b assume b: "b < length fb"
      have ex: "(\<exists>ja. j \<le> ja \<and> ja < i \<and> unat (direct inode ! ja) = b)
                \<longleftrightarrow> unat (direct inode ! j) = b \<or> (\<exists>ja. j + 1 \<le> ja \<and> ja < i \<and> unat (direct inode ! ja) = b)"
        using IH(3) by (metis Suc_eq_plus1 Suc_le_eq le_eq_less_or_eq)
      show "fb' ! b = (if \<exists>ja. j \<le> ja \<and> ja < i \<and> unat (direct inode ! ja) = b then v else fb ! b)"
        unfolding ex using IH(7) b k by (auto simp add: nth_list_update)
    qed
    have eq: "fs' = fs\<lparr>free_blocks := Some fb'\<rparr>" using IH(1) fs1 by simp
    have ji: "j \<le> i" using IH(3) by simp
    from eq IH(2) ji IH(4) a IH(6) b show ?thesis by blast
  qed
qed

lemma fs_save_inode_frame:
  assumes "fs_save_inode fs n node = Inr (fs', ok)"
  shows "free_blocks fs' = free_blocks fs \<and> meta_data fs' = meta_data fs"
  using assms
  by (auto simp add: fs_save_inode_def fs_disk_read_Inr fs_disk_write_Inr
      split: if_splits sum.splits)

lemma assert_save_inode_frame:
  assumes "assert_save_inode fs n node = Inr fs'"
  shows "free_blocks fs' = free_blocks fs \<and> meta_data fs' = meta_data fs"
  using assms fs_save_inode_frame
  by (auto simp add: assert_save_inode_def split: sum.splits if_splits)


subsection \<open>fs\_remove\<close>

lemma prefix_index_iff:
  fixes i m k :: nat
  assumes "i \<le> m"
    and "\<forall>j. j < i \<longrightarrow> f j \<noteq> (0::u32)"
    and "i < m \<longrightarrow> f i = 0"
    and "k < m"
  shows "(\<forall>j \<le> k. f j \<noteq> 0) \<longleftrightarrow> k < i"
proof
  assume a: "\<forall>j \<le> k. f j \<noteq> 0"
  show "k < i"
  proof (rule ccontr)
    assume "\<not> k < i"
    then have "i \<le> k" by simp
    with assms(4) have "i < m" by simp
    with assms(3) have "f i = 0" by simp
    with a \<open>i \<le> k\<close> show False by blast
  qed
next
  assume "k < i"
  with assms(2) show "\<forall>j \<le> k. f j \<noteq> 0" by simp
qed

lemma fs_remove_valid_indirect:
  assumes load: "fs_load_inode fs n = Inr (fs1, Some inode)"
    and ind: "indirect inode \<noteq> 0"
    and d: "disk fs = Some d"
    and fb: "free_blocks fs = Some fb"
    and rm: "fs_remove fs n = Inr (fs', ok)"
  shows "ok \<and> (\<exists>fb'. free_blocks fs' = Some fb' \<and> length fb' = length fb
     \<and> (\<forall>b < length fb. fb' ! b \<longleftrightarrow> fb ! b
           \<and> \<not> ((\<exists>i < POINTERS_PER_INODE. (\<forall>j \<le> i. direct inode ! j \<noteq> 0)
                      \<and> unat (direct inode ! i) = b)
                \<or> (\<exists>i < POINTERS_PER_BLOCK.
                      (\<forall>j \<le> i. get_u32 (image d (unat (indirect inode))) j \<noteq> 0)
                      \<and> unat (get_u32 (image d (unat (indirect inode))) i) = b)
                \<or> (get_u32 (image d (unat (indirect inode))) 0 \<noteq> 0
                      \<and> unat (indirect inode) = b)))
     \<and> (\<forall>i < POINTERS_PER_BLOCK. (\<forall>j \<le> i. get_u32 (image d (unat (indirect inode))) j \<noteq> 0)
           \<longrightarrow> unat (get_u32 (image d (unat (indirect inode))) i) < length fb)
     \<and> (get_u32 (image d (unat (indirect inode))) 0 \<noteq> 0 \<longrightarrow> unat (indirect inode) < length fb))"
proof -
  let ?blk = "image d (unat (indirect inode))"
  from load d have fs1: "fs1 = fs\<lparr>disk := Some (d\<lparr>reads := reads d + 1\<rparr>)\<rparr>"
    unfolding fs_load_inode_Some by auto
  with fb have fb1: "free_blocks fs1 = Some fb" by simp
  from rm load ind obtain fs2 fs3 blk3 fs4 i fs5 where
    sd: "set_direct_blocks fs1 inode False 0 = Inr fs2"
    and rd: "fs_disk_read fs2 (unat (indirect inode)) = Inr (fs3, blk3)"
    and sp: "set_pointer_blocks fs3 blk3 False 0 = Inr (fs4, i)"
    and s5: "(if i \<noteq> 0 then set_free_block fs4 (unat (indirect inode)) False else Inr fs4) = Inr fs5"
    and sv: "assert_save_inode fs5 n zero_inode = Inr fs'"
    and ok: "ok"
    by (auto simp add: fs_remove_def split: sum.splits if_splits)
  from set_direct_blocks_result[OF sd fb1] obtain fb2 iD where
    D: "fs2 = fs1\<lparr>free_blocks := Some fb2\<rparr>" "length fb2 = length fb" "iD \<le> POINTERS_PER_INODE"
       "\<forall>j. j < iD \<longrightarrow> direct inode ! j \<noteq> 0 \<and> unat (direct inode ! j) < length fb"
       "iD < POINTERS_PER_INODE \<longrightarrow> direct inode ! iD = 0"
       "\<forall>b < length fb. fb2 ! b = (if \<exists>j. j < iD \<and> unat (direct inode ! j) = b then False else fb ! b)"
    by auto
  from rd D(1) fs1 have blk3: "blk3 = ?blk" and fb3: "free_blocks fs3 = Some fb2"
    unfolding fs_disk_read_Inr by auto
  from set_pointer_blocks_result[OF sp fb3] D(2) blk3 obtain fb4 where
    P: "fs4 = fs3\<lparr>free_blocks := Some fb4\<rparr>" "length fb4 = length fb" "i \<le> POINTERS_PER_BLOCK"
       "\<forall>j. j < i \<longrightarrow> get_u32 ?blk j \<noteq> 0 \<and> unat (get_u32 ?blk j) < length fb"
       "i < POINTERS_PER_BLOCK \<longrightarrow> get_u32 ?blk i = 0"
       "\<forall>b < length fb. fb4 ! b = (if \<exists>j. j < i \<and> unat (get_u32 ?blk j) = b then False else fb2 ! b)"
    by auto
  have i0: "i \<noteq> 0 \<longleftrightarrow> get_u32 ?blk 0 \<noteq> 0"
    using P(4,5) by (cases "i = 0") (auto simp add: POINTERS_PER_BLOCK_def)
  define fb5 where "fb5 = (if i \<noteq> 0 then fb4[unat (indirect inode) := False] else fb4)"
  from s5 P(1) have fs5: "free_blocks fs5 = Some fb5"
    and indlt: "i \<noteq> 0 \<longrightarrow> unat (indirect inode) < length fb4"
    by (auto simp add: fb5_def set_free_block_Inr split: if_splits)
  from assert_save_inode_frame[OF sv] fs5 have fb': "free_blocks fs' = Some fb5" by simp
  have len5: "length fb5 = length fb" using P(2) by (simp add: fb5_def)
  have dpre: "\<And>k. k < POINTERS_PER_INODE \<Longrightarrow> (\<forall>j \<le> k. direct inode ! j \<noteq> 0) \<longleftrightarrow> k < iD"
    using prefix_index_iff[of iD POINTERS_PER_INODE "\<lambda>j. direct inode ! j"] D(3,4,5) by blast
  have ppre: "\<And>k. k < POINTERS_PER_BLOCK \<Longrightarrow> (\<forall>j \<le> k. get_u32 ?blk j \<noteq> 0) \<longleftrightarrow> k < i"
    using prefix_index_iff[of i POINTERS_PER_BLOCK "\<lambda>j. get_u32 ?blk j"] P(3,4,5) by blast
  have dset: "\<And>b. (\<exists>k < POINTERS_PER_INODE. (\<forall>j \<le> k. direct inode ! j \<noteq> 0) \<and> unat (direct inode ! k) = b)
                \<longleftrightarrow> (\<exists>j. j < iD \<and> unat (direct inode ! j) = b)"
    using dpre D(3) by (metis less_le_trans)
  have pset: "\<And>b. (\<exists>k < POINTERS_PER_BLOCK. (\<forall>j \<le> k. get_u32 ?blk j \<noteq> 0) \<and> unat (get_u32 ?blk k) = b)
                \<longleftrightarrow> (\<exists>j. j < i \<and> unat (get_u32 ?blk j) = b)"
    using ppre P(3) by (metis less_le_trans)
  have main: "\<forall>b < length fb. fb5 ! b \<longleftrightarrow> fb ! b
           \<and> \<not> ((\<exists>k < POINTERS_PER_INODE. (\<forall>j \<le> k. direct inode ! j \<noteq> 0)
                      \<and> unat (direct inode ! k) = b)
                \<or> (\<exists>k < POINTERS_PER_BLOCK. (\<forall>j \<le> k. get_u32 ?blk j \<noteq> 0)
                      \<and> unat (get_u32 ?blk k) = b)
                \<or> (get_u32 ?blk 0 \<noteq> 0 \<and> unat (indirect inode) = b))"
  proof (intro allI impI)
    fix b assume b: "b < length fb"
    have "fb5 ! b \<longleftrightarrow> fb4 ! b \<and> \<not> (i \<noteq> 0 \<and> unat (indirect inode) = b)"
      using b P(2) by (cases "unat (indirect inode) = b") (auto simp add: fb5_def)
    also have "fb4 ! b \<longleftrightarrow> fb2 ! b \<and> \<not> (\<exists>j. j < i \<and> unat (get_u32 ?blk j) = b)"
      using P(6) b by auto
    also have "fb2 ! b \<longleftrightarrow> fb ! b \<and> \<not> (\<exists>j. j < iD \<and> unat (direct inode ! j) = b)"
      using D(6) b by auto
    finally show "fb5 ! b \<longleftrightarrow> fb ! b
           \<and> \<not> ((\<exists>k < POINTERS_PER_INODE. (\<forall>j \<le> k. direct inode ! j \<noteq> 0)
                      \<and> unat (direct inode ! k) = b)
                \<or> (\<exists>k < POINTERS_PER_BLOCK. (\<forall>j \<le> k. get_u32 ?blk j \<noteq> 0)
                      \<and> unat (get_u32 ?blk k) = b)
                \<or> (get_u32 ?blk 0 \<noteq> 0 \<and> unat (indirect inode) = b))"
      unfolding dset pset i0 by blast
  qed
  have r1: "\<forall>k < POINTERS_PER_BLOCK. (\<forall>j \<le> k. get_u32 ?blk j \<noteq> 0)
           \<longrightarrow> unat (get_u32 ?blk k) < length fb"
    using ppre P(4) by blast
  have r2: "get_u32 ?blk 0 \<noteq> 0 \<longrightarrow> unat (indirect inode) < length fb"
    using indlt i0 P(2) by simp
  from ok fb' len5 main r1 r2 show ?thesis by blast
qed


lemma set_block_inode_twice [simp]:
  "set_block_inode (set_block_inode b j n1) j n2 = set_block_inode b j n2"
  by (rule ext) (simp add: set_block_inode_def set_u32_def)

lemma memcpy_zero_block [simp]: "memcpy zero_block off zero_block w n = zero_block"
  by (rule ext) (simp add: memcpy_def zero_block_def)

text \<open>The definitions that a run of the file system on a concrete disk unfolds.\<close>

lemmas fs_run_simps =
  fs_load_inode_def fs_disk_read_def disk_read_def disk_sanity_check_def
  fs_disk_write_def disk_write_def assert_save_inode_def fs_save_inode_def
  fs_allocate_free_block_def allocate_scan.simps get_free_block_def set_free_block_def
  INODES_PER_BLOCK_def POINTERS_PER_INODE_def POINTERS_PER_BLOCK_def BLOCK_SIZE_def
  block_inode_set_block_inode zero_inode_def

lemma fs_write_created10:
  "fs_write created10 0 zero_block 24576 0 = Inr (written10, 24576)"
  unfolding created10_def written10_def written10_disk_def
  by (simp add: fs_run_simps fs_write_def fs_write_direct.simps fs_write_indirect.simps
        fs_write_indirect_part_def fs_write_last_def fs_write_block_def fun_eq_iff)

lemma fs_load_inode_written10:
  "fs_load_inode written10 0
     = Inr (written10\<lparr>disk := Some (written10_disk\<lparr>reads := 7\<rparr>)\<rparr>,
            Some \<lparr>valid = 1, size = 24576, direct = [2, 3, 4, 5, 6], indirect = 7\<rparr>)"
  by (simp add: written10_def written10_disk_def fs_run_simps)

lemma fs_remove_written10: "fs_remove written10 0 = Inr (removed10, True)"
  unfolding written10_def written10_disk_def removed10_def
  by (simp add: fs_run_simps fs_remove_def set_direct_blocks.simps set_pointer_blocks.simps
        fun_eq_iff)

text \<open>When \<^verbatim>\<open>fs_load_inode\<close> finds the inode invalid, \<^verbatim>\<open>fs_remove\<close> returns false. When it loads
  a valid inode whose indirect pointer is not 0 (and the call returns), \<^verbatim>\<open>fs_remove\<close> returns
  true and clears in the bitmap every pointer of the indirect block before its first zero
  entry; it clears the entry of the indirect block itself when the first pointer of the block
  is not 0, and does not touch that entry when the first pointer is 0 (unless a direct
  pointer of the inode names the same block). The last conjunct gives the whole bitmap after
  the call.\<close>

lemma fs_remove_first_block_indirect_blocks:
  "(fs_load_inode fs n = Inr (fs1, None) \<longrightarrow> fs_remove fs n = Inr (fs1, False))
   \<and> (fs_load_inode fs n = Inr (fs1, Some inode) \<and> indirect inode \<noteq> 0
        \<and> disk fs = Some d \<and> free_blocks fs = Some fb \<and> fs_remove fs n = Inr (fs', ok)
      \<longrightarrow> ok \<and> (\<exists>fb'. free_blocks fs' = Some fb' \<and> length fb' = length fb
           \<and> (\<forall>i < POINTERS_PER_BLOCK.
                 (\<forall>j \<le> i. get_u32 (image d (unat (indirect inode))) j \<noteq> 0)
                 \<longrightarrow> unat (get_u32 (image d (unat (indirect inode))) i) < length fb
                     \<and> \<not> fb' ! unat (get_u32 (image d (unat (indirect inode))) i))
           \<and> (get_u32 (image d (unat (indirect inode))) 0 \<noteq> 0
                 \<longrightarrow> unat (indirect inode) < length fb \<and> \<not> fb' ! unat (indirect inode))
           \<and> (get_u32 (image d (unat (indirect inode))) 0 = 0
                 \<and> unat (indirect inode) < length fb
                 \<and> (\<forall>i < POINTERS_PER_INODE. (\<forall>j \<le> i. direct inode ! j \<noteq> 0)
                       \<longrightarrow> direct inode ! i \<noteq> indirect inode)
                 \<longrightarrow> fb' ! unat (indirect inode) = fb ! unat (indirect inode))
           \<and> (\<forall>b < length fb. fb' ! b \<longleftrightarrow> fb ! b
                 \<and> \<not> ((\<exists>i < POINTERS_PER_INODE. (\<forall>j \<le> i. direct inode ! j \<noteq> 0)
                            \<and> unat (direct inode ! i) = b)
                      \<or> (\<exists>i < POINTERS_PER_BLOCK.
                            (\<forall>j \<le> i. get_u32 (image d (unat (indirect inode))) j \<noteq> 0)
                            \<and> unat (get_u32 (image d (unat (indirect inode))) i) = b)
                      \<or> (get_u32 (image d (unat (indirect inode))) 0 \<noteq> 0
                            \<and> unat (indirect inode) = b)))))"
proof (rule conjI; rule impI)
  assume "fs_load_inode fs n = Inr (fs1, None)"
  then show "fs_remove fs n = Inr (fs1, False)" by (simp add: fs_remove_def)
next
  let ?blk = "image d (unat (indirect inode))"
  assume a: "fs_load_inode fs n = Inr (fs1, Some inode) \<and> indirect inode \<noteq> 0
        \<and> disk fs = Some d \<and> free_blocks fs = Some fb \<and> fs_remove fs n = Inr (fs', ok)"
  from a fs_remove_valid_indirect[of fs n fs1 inode d fb fs' ok]
  obtain fb' where r: "ok" "free_blocks fs' = Some fb'" "length fb' = length fb"
    "\<forall>b < length fb. fb' ! b \<longleftrightarrow> fb ! b
           \<and> \<not> ((\<exists>i < POINTERS_PER_INODE. (\<forall>j \<le> i. direct inode ! j \<noteq> 0)
                      \<and> unat (direct inode ! i) = b)
                \<or> (\<exists>i < POINTERS_PER_BLOCK. (\<forall>j \<le> i. get_u32 ?blk j \<noteq> 0)
                      \<and> unat (get_u32 ?blk i) = b)
                \<or> (get_u32 ?blk 0 \<noteq> 0 \<and> unat (indirect inode) = b))"
    "\<forall>i < POINTERS_PER_BLOCK. (\<forall>j \<le> i. get_u32 ?blk j \<noteq> 0) \<longrightarrow> unat (get_u32 ?blk i) < length fb"
    "get_u32 ?blk 0 \<noteq> 0 \<longrightarrow> unat (indirect inode) < length fb"
    by blast
  have b1: "\<forall>i < POINTERS_PER_BLOCK. (\<forall>j \<le> i. get_u32 ?blk j \<noteq> 0)
              \<longrightarrow> unat (get_u32 ?blk i) < length fb \<and> \<not> fb' ! unat (get_u32 ?blk i)"
    using r(4,5) by blast
  have b2: "get_u32 ?blk 0 \<noteq> 0 \<longrightarrow> unat (indirect inode) < length fb \<and> \<not> fb' ! unat (indirect inode)"
    using r(4,6) by blast
  have b3: "get_u32 ?blk 0 = 0 \<and> unat (indirect inode) < length fb
              \<and> (\<forall>i < POINTERS_PER_INODE. (\<forall>j \<le> i. direct inode ! j \<noteq> 0)
                    \<longrightarrow> direct inode ! i \<noteq> indirect inode)
            \<longrightarrow> fb' ! unat (indirect inode) = fb ! unat (indirect inode)"
  proof
    assume h: "get_u32 ?blk 0 = 0 \<and> unat (indirect inode) < length fb
              \<and> (\<forall>i < POINTERS_PER_INODE. (\<forall>j \<le> i. direct inode ! j \<noteq> 0)
                    \<longrightarrow> direct inode ! i \<noteq> indirect inode)"
    then have "\<not> (\<exists>i < POINTERS_PER_BLOCK. (\<forall>j \<le> i. get_u32 ?blk j \<noteq> 0)
                      \<and> unat (get_u32 ?blk i) = unat (indirect inode))"
      by auto
    moreover from h have "\<not> (\<exists>i < POINTERS_PER_INODE. (\<forall>j \<le> i. direct inode ! j \<noteq> 0)
                      \<and> unat (direct inode ! i) = unat (indirect inode))"
      by (metis unsigned_word_eqI)
    ultimately show "fb' ! unat (indirect inode) = fb ! unat (indirect inode)"
      using r(4) h by simp
  qed
  from r(1,2,3) b1 b2 b3 r(4)
  show "ok \<and> (\<exists>fb'. free_blocks fs' = Some fb' \<and> length fb' = length fb
           \<and> (\<forall>i < POINTERS_PER_BLOCK.
                 (\<forall>j \<le> i. get_u32 (image d (unat (indirect inode))) j \<noteq> 0)
                 \<longrightarrow> unat (get_u32 (image d (unat (indirect inode))) i) < length fb
                     \<and> \<not> fb' ! unat (get_u32 (image d (unat (indirect inode))) i))
           \<and> (get_u32 (image d (unat (indirect inode))) 0 \<noteq> 0
                 \<longrightarrow> unat (indirect inode) < length fb \<and> \<not> fb' ! unat (indirect inode))
           \<and> (get_u32 (image d (unat (indirect inode))) 0 = 0
                 \<and> unat (indirect inode) < length fb
                 \<and> (\<forall>i < POINTERS_PER_INODE. (\<forall>j \<le> i. direct inode ! j \<noteq> 0)
                       \<longrightarrow> direct inode ! i \<noteq> indirect inode)
                 \<longrightarrow> fb' ! unat (indirect inode) = fb ! unat (indirect inode))
           \<and> (\<forall>b < length fb. fb' ! b \<longleftrightarrow> fb ! b
                 \<and> \<not> ((\<exists>i < POINTERS_PER_INODE. (\<forall>j \<le> i. direct inode ! j \<noteq> 0)
                            \<and> unat (direct inode ! i) = b)
                      \<or> (\<exists>i < POINTERS_PER_BLOCK.
                            (\<forall>j \<le> i. get_u32 (image d (unat (indirect inode))) j \<noteq> 0)
                            \<and> unat (get_u32 (image d (unat (indirect inode))) i) = b)
                      \<or> (get_u32 (image d (unat (indirect inode))) 0 \<noteq> 0
                            \<and> unat (indirect inode) = b))))"
    by blast
qed


subsection \<open>fs\_debug\<close>

lemma same_after_block0_disk_read:
  assumes "same_after_block0 d d'" and "b \<noteq> 0"
  shows "(disk_read d b = None \<longleftrightarrow> disk_read d' b = None)
         \<and> (\<forall>d1 blk. disk_read d b = Some (d1, blk)
               \<longrightarrow> (\<exists>d1'. disk_read d' b = Some (d1', blk) \<and> same_after_block0 d1 d1'))"
  using assms
  by (auto simp add: same_after_block0_def disk_read_def disk_sanity_check_def)

lemma debug_inodes_same_after_block0:
  "same_after_block0 d d' \<Longrightarrow>
     rel_prod (=) (rel_sum (=) same_after_block0) (debug_inodes d block i) (debug_inodes d' block i)"
proof (induction "INODES_PER_BLOCK - i" arbitrary: i d d')
  case 0
  then show ?case
    by (simp add: debug_inodes.simps[of _ block i])
next
  case (Suc k)
  then have i: "i < INODES_PER_BLOCK" and k: "k = INODES_PER_BLOCK - (i + 1)" by auto
  let ?node = "block_inode block i"
  show ?case
  proof (cases "valid ?node = 0")
    case True
    with i Suc.hyps(1)[OF k Suc.prems] show ?thesis
      by (simp add: debug_inodes.simps[of _ block i])
  next
    case v: False
    show ?thesis
    proof (cases "indirect ?node = 0")
      case True
      from Suc.hyps(1)[OF k Suc.prems] i v True show ?thesis
        by (auto simp add: debug_inodes.simps[of _ block i] rel_prod_sel split: prod.splits)
    next
      case False
      then have nz: "unat (indirect ?node) \<noteq> 0" by (simp add: unat_eq_0)
      show ?thesis
      proof (cases "disk_read d (unat (indirect ?node))")
        case None
        with same_after_block0_disk_read[OF Suc.prems nz]
        have "disk_read d' (unat (indirect ?node)) = None" by simp
        with None i v False show ?thesis
          by (simp add: debug_inodes.simps[of _ block i])
      next
        case (Some r)
        obtain d1 point where r: "r = (d1, point)" by (cases r)
        with Some same_after_block0_disk_read[OF Suc.prems nz]
        obtain d1' where r': "disk_read d' (unat (indirect ?node)) = Some (d1', point)"
          and s: "same_after_block0 d1 d1'" by blast
        from Suc.hyps(1)[OF k s] Some r r' i v False show ?thesis
          by (auto simp add: debug_inodes.simps[of _ block i] rel_prod_sel split: prod.splits)
      qed
    qed
  qed
qed

lemma debug_blocks_same_after_block0:
  "same_after_block0 d d' \<Longrightarrow> index \<noteq> 0 \<Longrightarrow>
     rel_prod (=) (rel_sum (=) same_after_block0) (debug_blocks d n index) (debug_blocks d' n index)"
proof (induction "n + 1 - index" arbitrary: index d d')
  case 0
  then show ?case
    by (simp add: debug_blocks.simps[of _ n index])
next
  case (Suc k)
  then have i: "index \<le> n" and k: "k = n + 1 - (index + 1)" by auto
  show ?case
  proof (cases "disk_read d index")
    case None
    with same_after_block0_disk_read[OF Suc.prems]
    have "disk_read d' index = None" by simp
    with None i show ?thesis
      by (simp add: debug_blocks.simps[of _ n index])
  next
    case (Some r)
    obtain d1 blk where r: "r = (d1, blk)" by (cases r)
    with Some same_after_block0_disk_read[OF Suc.prems]
    obtain d1' where r': "disk_read d' index = Some (d1', blk)"
      and s: "same_after_block0 d1 d1'" by blast
    note di = debug_inodes_same_after_block0[OF s, of blk 0]
    obtain out res where o: "debug_inodes d1 blk 0 = (out, res)" by (cases "debug_inodes d1 blk 0")
    obtain out' res' where o': "debug_inodes d1' blk 0 = (out', res')" by (cases "debug_inodes d1' blk 0")
    from di o o' have oo: "out' = out" and rr: "rel_sum (=) same_after_block0 res res'" by auto
    show ?thesis
    proof (cases res)
      case (Inl e)
      with rr have "res' = Inl e" by (cases res') auto
      with Inl Some r r' o o' oo i show ?thesis
        by (simp add: debug_blocks.simps[of _ n index])
    next
      case (Inr d2)
      with rr obtain d2' where res': "res' = Inr d2'" and s2: "same_after_block0 d2 d2'"
        by (cases res') auto
      have "index + 1 \<noteq> 0" by simp
      from Suc.hyps(1)[OF k s2 this] Inr res' Some r r' o o' oo i show ?thesis
        by (auto simp add: debug_blocks.simps[of _ n index] rel_prod_sel split: prod.splits)
    qed
  qed
qed


text \<open>C10. For every disk with a block 0 to read, the text printed by \<^verbatim>\<open>fs_debug\<close> starts
  with the lines \<^verbatim>\<open>SuperBlock:\<close> and \<^verbatim>\<open>    magic number is valid\<close>, and the whole text is the
  same whatever value the magic field of the superblock holds (the disk being one that a
  32-bit block count can describe).\<close>

theorem fs_debug_magic_number:
  assumes "0 < disk_blocks d" and "disk_blocks d < 2 ^ 32"
  shows "(\<exists>rest. fst (fs_debug d)
            = ''SuperBlock:\<newline>'' @ ''    magic number is valid\<newline>'' @ rest)
         \<and> (\<forall>m. fst (fs_debug (d\<lparr>image := (image d)(0 := set_u32 (image d 0) 0 m)\<rparr>))
                = fst (fs_debug d))"
proof
  show "\<exists>rest. fst (fs_debug d) = ''SuperBlock:\<newline>'' @ ''    magic number is valid\<newline>'' @ rest"
    using assms(1)
    by (auto simp add: fs_debug_def disk_read_def disk_sanity_check_def split: prod.splits)
next
  show "\<forall>m. fst (fs_debug (d\<lparr>image := (image d)(0 := set_u32 (image d 0) 0 m)\<rparr>))
                = fst (fs_debug d)"
  proof
    fix m
    let ?d' = "d\<lparr>image := (image d)(0 := set_u32 (image d 0) 0 m)\<rparr>"
    let ?b = "image d 0" and ?b' = "set_u32 (image d 0) 0 m"
    have sup: "blocks (block_super ?b') = blocks (block_super ?b)"
      "inode_blocks (block_super ?b') = inode_blocks (block_super ?b)"
      "inodes (block_super ?b') = inodes (block_super ?b)"
      by (simp_all add: block_super_def)
    have r: "disk_read d 0 = Some (d\<lparr>reads := reads d + 1\<rparr>, ?b)"
      and r': "disk_read ?d' 0 = Some (?d'\<lparr>reads := reads d + 1\<rparr>, ?b')"
      using assms(1) by (simp_all add: disk_read_def disk_sanity_check_def)
    have "same_after_block0 (d\<lparr>reads := reads d + 1\<rparr>) (?d'\<lparr>reads := reads d + 1\<rparr>)"
      by (simp add: same_after_block0_def)
    from debug_blocks_same_after_block0[OF this, of 1 "unat (inode_blocks (block_super ?b))"]
    have "fst (debug_blocks (?d'\<lparr>reads := reads d + 1\<rparr>) (unat (inode_blocks (block_super ?b))) 1)
          = fst (debug_blocks (d\<lparr>reads := reads d + 1\<rparr>) (unat (inode_blocks (block_super ?b))) 1)"
      by (simp add: rel_prod_sel)
    then show "fst (fs_debug ?d') = fst (fs_debug d)"
      unfolding fs_debug_def r r' by (auto simp add: sup split: prod.splits)
  qed
qed

theorem fs_debug_magic_number_witness:
  "0 < disk_blocks (blank_disk 10) \<and> disk_blocks (blank_disk 10) < 2 ^ 32
   \<and> fst (fs_debug (blank_disk 10))
       = ''SuperBlock:\<newline>'' @ ''    magic number is valid\<newline>'' @ ''    0 blocks\<newline>''
   \<and> fst (fs_debug ((blank_disk 10)\<lparr>image := (image (blank_disk 10))
                        (0 := set_u32 (image (blank_disk 10) 0) 0 MAGIC_NUMBER)\<rparr>))
       = fst (fs_debug (blank_disk 10))"
proof -
  have h1: "0 < disk_blocks (blank_disk 10)" and h2: "disk_blocks (blank_disk 10) < 2 ^ 32"
    by (simp_all add: blank_disk_def)
  have e: "fst (fs_debug (blank_disk 10))
       = ''SuperBlock:\<newline>'' @ ''    magic number is valid\<newline>'' @ ''    0 blocks\<newline>''"
    by (simp add: fs_debug_def blank_disk_def disk_read_def disk_sanity_check_def
          block_super_def string_of_nat.simps char_of_def bit_Suc_0_iff)
  from fs_debug_magic_number[OF h1 h2] h1 h2 e show ?thesis by blast
qed

subsection \<open>Reading back after a write\<close>

text \<open>C1. The claim fails on the code when the range starts inside a block and ends in a
  later one. On the disk \<open>created10\<close>, whose inode 0 is empty, one byte is written at offset 0
  and then 4096 bytes at offset 1; the second write succeeds and returns 4096. Reading the
  same 4096 bytes back at offset 1 does not return 4096: the first iteration of the read
  loop takes \<^verbatim>\<open>read_size = 4096\<close> and copies from \<^verbatim>\<open>block_data + 1\<close>, beyond the end of
  \<^verbatim>\<open>block_data\<close>.\<close>

theorem fs_read_after_unaligned_write:
  "\<exists>fs1 fs2. fs_write created10 0 data 1 0 = Inr (fs1, 1)
      \<and> fs_write fs1 0 data 4096 1 = Inr (fs2, 4096)
      \<and> fs_read fs2 0 out 4096 1 = Inl OutOfBounds"
  unfolding created10_def
  by (simp add: fs_run_simps fs_write_def fs_write_direct.simps fs_write_indirect.simps
        fs_write_indirect_part_def fs_write_last_def fs_write_block_def
        fs_read_def fs_read_direct.simps fs_read_block_def)

subsection \<open>The first iteration of an unaligned read\<close>

text \<open>C5. The claim fails on the code. An iteration of the read loops copies
  \<^verbatim>\<open>min(length - sum, BLOCK_SIZE)\<close> bytes from \<^verbatim>\<open>block_data + offset % BLOCK_SIZE\<close> whatever the
  offset is. When the offset is not a multiple of the block size and more bytes remain than
  the rest of the block holds, the copy runs past the end of \<^verbatim>\<open>block_data\<close>: the iteration
  does not complete with an aligned offset, as a read that spans a block boundary would
  need.\<close>

theorem fs_read_block_unaligned:
  assumes "fs_disk_read fs b = Inr (fs', block_data)"
    and "offset mod BLOCK_SIZE \<noteq> 0"
    and "BLOCK_SIZE - offset mod BLOCK_SIZE < len - sm"
  shows "fs_read_block fs b data len sm offset = Inl OutOfBounds"
  using assms by (auto simp add: fs_read_block_def Let_def BLOCK_SIZE_def)

theorem fs_read_block_unaligned_witness:
  "fs_disk_read written10 2 = Inr (written10\<lparr>disk := Some (written10_disk\<lparr>reads := 7\<rparr>)\<rparr>, zero_block)
   \<and> 1 mod BLOCK_SIZE \<noteq> 0
   \<and> BLOCK_SIZE - 1 mod BLOCK_SIZE < 4096 - 0
   \<and> fs_read_block written10 2 zero_block 4096 0 1 = Inl OutOfBounds
   \<and> fs_read written10 0 zero_block 4096 1 = Inl OutOfBounds"
proof -
  have h1: "fs_disk_read written10 2
              = Inr (written10\<lparr>disk := Some (written10_disk\<lparr>reads := 7\<rparr>)\<rparr>, zero_block)"
    by (simp add: written10_def written10_disk_def fs_run_simps)
  have h2: "1 mod BLOCK_SIZE \<noteq> 0" by (simp add: BLOCK_SIZE_def)
  have h3: "BLOCK_SIZE - 1 mod BLOCK_SIZE < 4096 - 0" by (simp add: BLOCK_SIZE_def)
  note t = fs_read_block_unaligned[OF _ h2 h3]
  have r: "fs_read_block written10 2 zero_block 4096 0 1 = Inl OutOfBounds"
    by (rule t[OF h1])
  have "fs_read_block (written10\<lparr>disk := Some (written10_disk\<lparr>reads := 7\<rparr>)\<rparr>) 2 zero_block 4096 0 1
          = Inl OutOfBounds"
    by (rule t) (simp add: written10_def written10_disk_def fs_run_simps)
  then have "fs_read written10 0 zero_block 4096 1 = Inl OutOfBounds"
    by (simp add: fs_read_def fs_load_inode_written10 fs_read_direct.simps
          POINTERS_PER_INODE_def BLOCK_SIZE_def)
  with h1 h2 h3 r show ?thesis by blast
qed

subsection \<open>The bitmap after a remount: the empty indirect block\<close>

lemma set_u32_zero_block_0 [simp]: "set_u32 zero_block k 0 = zero_block"
  using set_u32_get_u32[of zero_block k] by simp

lemma fs_format_blank8:
  "fs_format blank_fs (blank_disk 8) =
     Inr (True,
       \<lparr>disk_blocks = 8,
        image = (\<lambda>b. if b = 0 then set_block_super zero_block
                         \<lparr>magic_number = MAGIC_NUMBER, blocks = 8, inode_blocks = 1, inodes = 128\<rparr>
                       else zero_block),
        reads = 0, writes = 8\<rparr>)"
  by (simp add: fs_format_def blank_fs_def blank_disk_def disk_write_def disk_sanity_check_def
        format_clear.simps INODES_PER_BLOCK_def fun_eq_iff)

lemma replicate8:
  "replicate 8 False = [False, False, False, False, False, False, False, False]"
  by (simp add: eval_nat_numeral)

lemma format_and_mount_blank8: "format_and_mount blank_fs (blank_disk 8) = Inr mounted8"
  unfolding format_and_mount_def fs_format_blank8
  by (simp add: fs_mount_def blank_fs_def disk_read_def disk_sanity_check_def
        MAGIC_NUMBER_def INODES_PER_BLOCK_def fs_initialize_free_block_bitmap_def set_free_block_def
        bitmap_inode_blocks.simps fs_disk_read_def bitmap_inodes.simps zero_inode_def mounted8_def
        replicate8)

lemma run_mounted8:
  "run mounted8 [Create, Write 0 zero_block 24576 0, Remove 0] = Inr removed8"
  unfolding mounted8_def removed8_def
  by (simp add: fs_run_simps fs_create_def fs_create_blocks.simps fs_create_slots.simps
        fs_write_def fs_write_direct.simps fs_write_indirect.simps
        fs_write_indirect_part_def fs_write_last_def fs_write_block_def
        fs_remove_def set_direct_blocks.simps set_pointer_blocks.simps fun_eq_iff)

lemma remount_removed8: "remount removed8 = Inr remounted8"
  unfolding removed8_def remounted8_def
  by (simp add: remount_def fs_unmount_def fs_mount_def disk_read_def disk_sanity_check_def
        MAGIC_NUMBER_def INODES_PER_BLOCK_def fs_initialize_free_block_bitmap_def set_free_block_def
        bitmap_inode_blocks.simps fs_disk_read_def bitmap_inodes.simps zero_inode_def
        block_inode_set_block_inode replicate8)

subsection \<open>Operations that only read\<close>

lemma same_contents_refl [simp]: "same_contents fs fs"
  by (simp add: same_contents_def split: option.splits)

lemma same_contents_trans:
  "same_contents fs fs' \<Longrightarrow> same_contents fs' fs'' \<Longrightarrow> same_contents fs fs''"
  by (auto simp add: same_contents_def split: option.splits)

lemma consistent_same_contents:
  "consistent fs \<Longrightarrow> same_contents fs fs' \<Longrightarrow> consistent fs'"
  by (auto simp add: consistent_def same_contents_def split: option.splits)

lemma fs_disk_read_same_contents:
  "fs_disk_read fs b = Inr (fs', blk) \<Longrightarrow> same_contents fs fs'"
  by (auto simp add: fs_disk_read_Inr same_contents_def)

lemma fs_load_inode_same_contents:
  "fs_load_inode fs n = Inr (fs', r) \<Longrightarrow> same_contents fs fs'"
  by (auto simp add: fs_load_inode_def fs_disk_read_same_contents split: if_splits sum.splits)

lemma fs_stat_same_contents:
  "fs_stat fs n = Inr (fs', r) \<Longrightarrow> same_contents fs fs'"
  by (auto simp add: fs_stat_def fs_load_inode_same_contents split: sum.splits option.splits)

lemma fs_read_block_same_contents:
  "fs_read_block fs b data len sm offset = Inr (fs', r) \<Longrightarrow> same_contents fs fs'"
  by (auto simp add: fs_read_block_def Let_def fs_disk_read_same_contents
      split: sum.splits if_splits)

lemma fs_read_direct_same_contents:
  "fs_read_direct fs node data len sm offset i = Inr (fs', r) \<Longrightarrow> same_contents fs fs'"
proof (induction fs node data len sm offset i rule: fs_read_direct.induct)
  case (1 fs node data len sm offset i)
  show ?case
  proof (cases "i < POINTERS_PER_INODE \<and> sm < len \<and> direct node ! i \<noteq> 0")
    case False
    with "1.prems" show ?thesis
      by (auto simp add: fs_read_direct.simps[of fs node data len sm offset i] split: if_splits)
  next
    case True
    with "1.prems" obtain fs1 data1 sm1 offset1 where
      b: "fs_read_block fs (unat (direct node ! i)) data len sm offset = Inr (fs1, data1, sm1, offset1)"
      and r: "fs_read_direct fs1 node data1 len sm1 offset1 (i + 1) = Inr (fs', r)"
      by (auto simp add: fs_read_direct.simps[of fs node data len sm offset i] split: sum.splits)
    from True have c1: "i < POINTERS_PER_INODE \<and> sm < len" and c2: "direct node ! i \<noteq> 0"
      by simp_all
    from "1.IH"[OF c1 c2 b refl refl refl r] have "same_contents fs1 fs'" .
    with fs_read_block_same_contents[OF b] show ?thesis by (rule same_contents_trans)
  qed
qed

lemma fs_read_indirect_same_contents:
  "fs_read_indirect fs block data len sm offset i = Inr (fs', r) \<Longrightarrow> same_contents fs fs'"
proof (induction fs block data len sm offset i rule: fs_read_indirect.induct)
  case (1 fs block data len sm offset i)
  show ?case
  proof (cases "i < POINTERS_PER_BLOCK \<and> sm < len \<and> get_u32 block i \<noteq> 0")
    case False
    with "1.prems" show ?thesis
      by (auto simp add: fs_read_indirect.simps[of fs block data len sm offset i] split: if_splits)
  next
    case True
    with "1.prems" obtain fs1 data1 sm1 offset1 where
      b: "fs_read_block fs (unat (get_u32 block i)) data len sm offset = Inr (fs1, data1, sm1, offset1)"
      and r: "fs_read_indirect fs1 block data1 len sm1 offset1 (i + 1) = Inr (fs', r)"
      by (auto simp add: fs_read_indirect.simps[of fs block data len sm offset i] split: sum.splits)
    from True have c1: "i < POINTERS_PER_BLOCK \<and> sm < len" and c2: "get_u32 block i \<noteq> 0"
      by simp_all
    from "1.IH"[OF c1 c2 b refl refl refl r] have "same_contents fs1 fs'" .
    with fs_read_block_same_contents[OF b] show ?thesis by (rule same_contents_trans)
  qed
qed

lemma fs_read_same_contents:
  assumes "fs_read fs n data len offset = Inr (fs', r)"
  shows "same_contents fs fs'"
proof -
  from assms obtain fs0 ld where l: "fs_load_inode fs n = Inr (fs0, ld)"
    by (auto simp add: fs_read_def split: sum.splits)
  note s0 = fs_load_inode_same_contents[OF l]
  show ?thesis
  proof (cases ld)
    case None
    with assms l s0 show ?thesis by (simp add: fs_read_def)
  next
    case (Some node)
    show ?thesis
    proof (cases "offset \<ge> unat (size node) \<or> len = 0")
      case True
      with assms l Some s0 show ?thesis by (auto simp add: fs_read_def split: if_splits)
    next
      case False
      define len1 where "len1 = (if (offset + len) mod 2 ^ 64 \<ge> unat (size node)
                            then unat (size node) - offset else len)"
      from assms l Some False obtain fs1 data1 sm1 offset1 i1 where
        d: "fs_read_direct fs0 node data len1 0 offset (offset div BLOCK_SIZE)
              = Inr (fs1, data1, sm1, offset1, i1)"
        by (auto simp add: fs_read_def Let_def len1_def split: sum.splits if_splits)
      note s1 = same_contents_trans[OF s0 fs_read_direct_same_contents[OF d]]
      show ?thesis
      proof (cases "indirect node \<noteq> 0 \<and> sm1 < len1")
        case F2: False
        with assms l Some False d s1 show ?thesis
          by (auto simp add: fs_read_def Let_def len1_def split: if_splits)
      next
        case True
        with assms l Some False d obtain fs2 block fs3 r3 where
          rd: "fs_disk_read fs1 (unat (indirect node)) = Inr (fs2, block)"
          and ri: "fs_read_indirect fs2 block data1 len1 sm1 offset1
                    (if i1 < POINTERS_PER_INODE then 2 ^ 32 + i1 - POINTERS_PER_INODE
                     else i1 - POINTERS_PER_INODE) = Inr (fs3, r3)"
          and e: "fs' = fs3"
          by (auto simp add: fs_read_def Let_def len1_def split: sum.splits if_splits)
        from s1 fs_disk_read_same_contents[OF rd] fs_read_indirect_same_contents[OF ri] e
        show ?thesis by (blast intro: same_contents_trans)
      qed
    qed
  qed
qed

subsection \<open>References and the bitmap\<close>

lemma wf_refs_cong:
  assumes wf: "wf_refs B IB r fb"
    and e: "\<And>k s. k < IB * INODES_PER_BLOCK \<Longrightarrow> slot_ok s \<Longrightarrow> r' k s = r k s"
  shows "wf_refs B IB r' fb"
proof -
  from wf have len: "length fb = B" and ib: "0 < IB" "IB < B" "B < 2 ^ 32"
    and res: "\<forall>b \<le> IB. fb ! b"
    and rng: "\<And>k s. k < IB * INODES_PER_BLOCK \<Longrightarrow> slot_ok s \<Longrightarrow> r k s \<noteq> 0
                 \<Longrightarrow> IB < r k s \<and> r k s < B \<and> fb ! r k s"
    and dis: "\<And>k s k' s'. k < IB * INODES_PER_BLOCK \<Longrightarrow> k' < IB * INODES_PER_BLOCK
                 \<Longrightarrow> slot_ok s \<Longrightarrow> slot_ok s' \<Longrightarrow> r k s \<noteq> 0 \<Longrightarrow> r k' s' = r k s
                 \<Longrightarrow> k' = k \<and> s' = s"
    unfolding wf_refs_def by blast+
  have 2: "\<forall>k s. k < IB * INODES_PER_BLOCK \<and> slot_ok s \<and> r' k s \<noteq> 0
            \<longrightarrow> IB < r' k s \<and> r' k s < B \<and> fb ! r' k s"
  proof (intro allI impI)
    fix k s assume a: "k < IB * INODES_PER_BLOCK \<and> slot_ok s \<and> r' k s \<noteq> 0"
    with e[of k s] have "r' k s = r k s" by simp
    with a rng[of k s] show "IB < r' k s \<and> r' k s < B \<and> fb ! r' k s" by simp
  qed
  have 3: "\<forall>k s k' s'. k < IB * INODES_PER_BLOCK \<and> k' < IB * INODES_PER_BLOCK
            \<and> slot_ok s \<and> slot_ok s' \<and> r' k s \<noteq> 0 \<and> r' k' s' = r' k s
            \<longrightarrow> k' = k \<and> s' = s"
  proof (intro allI impI)
    fix k s k' s'
    assume a: "k < IB * INODES_PER_BLOCK \<and> k' < IB * INODES_PER_BLOCK
            \<and> slot_ok s \<and> slot_ok s' \<and> r' k s \<noteq> 0 \<and> r' k' s' = r' k s"
    with e[of k s] e[of k' s'] have "r k s \<noteq> 0" "r k' s' = r k s" by simp_all
    with a dis[of k k' s s'] show "k' = k \<and> s' = s" by simp
  qed
  show ?thesis unfolding wf_refs_def
    by (intro conjI) (fact len ib res 2 3)+
qed

lemma wf_refs_alloc:
  assumes wf: "wf_refs B IB r fb"
    and k0: "k0 < IB * INODES_PER_BLOCK" "slot_ok s0" "r k0 s0 = 0"
    and b: "b < B" "\<not> fb ! b"
    and r': "\<And>k s. k < IB * INODES_PER_BLOCK \<Longrightarrow> slot_ok s \<Longrightarrow>
               r' k s = (if k = k0 \<and> s = s0 then b else r k s)"
  shows "wf_refs B IB r' (fb[b := True]) \<and> IB < b"
proof -
  from wf have len: "length fb = B" and ib: "0 < IB" "IB < B" "B < 2 ^ 32"
    and res: "\<forall>x \<le> IB. fb ! x"
    and rng: "\<And>k s. k < IB * INODES_PER_BLOCK \<Longrightarrow> slot_ok s \<Longrightarrow> r k s \<noteq> 0
                 \<Longrightarrow> IB < r k s \<and> r k s < B \<and> fb ! r k s"
    and dis: "\<And>k s k' s'. k < IB * INODES_PER_BLOCK \<Longrightarrow> k' < IB * INODES_PER_BLOCK
                 \<Longrightarrow> slot_ok s \<Longrightarrow> slot_ok s' \<Longrightarrow> r k s \<noteq> 0 \<Longrightarrow> r k' s' = r k s
                 \<Longrightarrow> k' = k \<and> s' = s"
    unfolding wf_refs_def by blast+
  from res b(2) have bIB: "IB < b" by (meson not_le)
  then have b0: "b \<noteq> 0" by simp
  have old: "\<And>k s. k < IB * INODES_PER_BLOCK \<Longrightarrow> slot_ok s \<Longrightarrow> r k s \<noteq> 0 \<Longrightarrow> r k s \<noteq> b"
    using rng b(2) by blast
  have upd: "\<And>x. x < B \<Longrightarrow> (fb[b := True]) ! x = (x = b \<or> fb ! x)"
    using len b(1) by (auto simp add: nth_list_update)
  have 1: "\<forall>x \<le> IB. (fb[b := True]) ! x"
    using res ib upd by auto
  have 2: "\<forall>k s. k < IB * INODES_PER_BLOCK \<and> slot_ok s \<and> r' k s \<noteq> 0
            \<longrightarrow> IB < r' k s \<and> r' k s < B \<and> (fb[b := True]) ! r' k s"
  proof (intro allI impI)
    fix k s assume a: "k < IB * INODES_PER_BLOCK \<and> slot_ok s \<and> r' k s \<noteq> 0"
    show "IB < r' k s \<and> r' k s < B \<and> (fb[b := True]) ! r' k s"
    proof (cases "k = k0 \<and> s = s0")
      case True
      with a r'[of k s] have "r' k s = b" by simp
      with bIB b(1) upd[of b] show ?thesis by simp
    next
      case False
      with a r'[of k s] have e: "r' k s = r k s" by auto
      with a rng[of k s] upd[of "r k s"] show ?thesis by simp
    qed
  qed
  have 3: "\<forall>k s k' s'. k < IB * INODES_PER_BLOCK \<and> k' < IB * INODES_PER_BLOCK
            \<and> slot_ok s \<and> slot_ok s' \<and> r' k s \<noteq> 0 \<and> r' k' s' = r' k s
            \<longrightarrow> k' = k \<and> s' = s"
  proof (intro allI impI)
    fix k s k' s'
    assume a: "k < IB * INODES_PER_BLOCK \<and> k' < IB * INODES_PER_BLOCK
            \<and> slot_ok s \<and> slot_ok s' \<and> r' k s \<noteq> 0 \<and> r' k' s' = r' k s"
    show "k' = k \<and> s' = s"
    proof (cases "k = k0 \<and> s = s0")
      case T1: True
      show ?thesis
      proof (cases "k' = k0 \<and> s' = s0")
        case True
        with T1 show ?thesis by simp
      next
        case False
        with a r'[of k' s'] have "r' k' s' = r k' s'" by auto
        moreover from T1 a r'[of k s] have "r' k s = b" by simp
        ultimately have "r k' s' = b" using a by simp
        with old[of k' s'] a b0 show ?thesis by auto
      qed
    next
      case F1: False
      with a r'[of k s] have e: "r' k s = r k s" by auto
      show ?thesis
      proof (cases "k' = k0 \<and> s' = s0")
        case True
        with a r'[of k' s'] have "r' k' s' = b" by simp
        with e a have "r k s = b" by simp
        with old[of k s] a e show ?thesis by auto
      next
        case False
        with a r'[of k' s'] have "r' k' s' = r k' s'" by auto
        with e a dis[of k k' s s'] show ?thesis by simp
      qed
    qed
  qed
  have len1: "length (fb[b := True]) = B" using len by simp
  have "wf_refs B IB r' (fb[b := True])" unfolding wf_refs_def
    by (intro conjI) (fact len1 ib 1 2 3)+
  with bIB show ?thesis by simp
qed

lemma wf_refs_free:
  assumes wf: "wf_refs B IB r fb"
    and k0: "k0 < IB * INODES_PER_BLOCK"
    and r': "\<And>k s. k < IB * INODES_PER_BLOCK \<Longrightarrow> slot_ok s \<Longrightarrow>
               r' k s = (if k = k0 then 0 else r k s)"
    and len': "length fb' = B"
    and fb': "\<And>x. x < B \<Longrightarrow> \<not> fb' ! x \<Longrightarrow> fb ! x
                \<Longrightarrow> (\<exists>s. slot_ok s \<and> r k0 s = x \<and> x \<noteq> 0)"
  shows "wf_refs B IB r' fb'"
proof -
  from wf have len: "length fb = B" and ib: "0 < IB" "IB < B" "B < 2 ^ 32"
    and res: "\<forall>x \<le> IB. fb ! x"
    and rng: "\<And>k s. k < IB * INODES_PER_BLOCK \<Longrightarrow> slot_ok s \<Longrightarrow> r k s \<noteq> 0
                 \<Longrightarrow> IB < r k s \<and> r k s < B \<and> fb ! r k s"
    and dis: "\<And>k s k' s'. k < IB * INODES_PER_BLOCK \<Longrightarrow> k' < IB * INODES_PER_BLOCK
                 \<Longrightarrow> slot_ok s \<Longrightarrow> slot_ok s' \<Longrightarrow> r k s \<noteq> 0 \<Longrightarrow> r k' s' = r k s
                 \<Longrightarrow> k' = k \<and> s' = s"
    unfolding wf_refs_def by blast+
  have 1: "\<forall>x \<le> IB. fb' ! x"
  proof (intro allI impI)
    fix x assume x: "x \<le> IB"
    show "fb' ! x"
    proof (rule ccontr)
      assume n: "\<not> fb' ! x"
      from x ib have "x < B" by simp
      from fb'[OF this n] res x obtain s where s: "slot_ok s" "r k0 s = x" "x \<noteq> 0" by blast
      with rng[OF k0 s(1)] x show False by simp
    qed
  qed
  have 2: "\<forall>k s. k < IB * INODES_PER_BLOCK \<and> slot_ok s \<and> r' k s \<noteq> 0
            \<longrightarrow> IB < r' k s \<and> r' k s < B \<and> fb' ! r' k s"
  proof (intro allI impI)
    fix k s assume a: "k < IB * INODES_PER_BLOCK \<and> slot_ok s \<and> r' k s \<noteq> 0"
    with r'[of k s] have kk: "k \<noteq> k0" and e: "r' k s = r k s" by (auto split: if_splits)
    from a e rng[of k s] have g: "IB < r k s" "r k s < B" "fb ! r k s" by simp_all
    have "fb' ! r k s"
    proof (rule ccontr)
      assume "\<not> fb' ! r k s"
      from fb'[OF g(2) this g(3)] obtain s0 where "slot_ok s0" "r k0 s0 = r k s" by blast
      with dis[of k k0 s s0] a e k0 kk show False by simp
    qed
    with g e show "IB < r' k s \<and> r' k s < B \<and> fb' ! r' k s" by simp
  qed
  have 3: "\<forall>k s k' s'. k < IB * INODES_PER_BLOCK \<and> k' < IB * INODES_PER_BLOCK
            \<and> slot_ok s \<and> slot_ok s' \<and> r' k s \<noteq> 0 \<and> r' k' s' = r' k s
            \<longrightarrow> k' = k \<and> s' = s"
  proof (intro allI impI)
    fix k s k' s'
    assume a: "k < IB * INODES_PER_BLOCK \<and> k' < IB * INODES_PER_BLOCK
            \<and> slot_ok s \<and> slot_ok s' \<and> r' k s \<noteq> 0 \<and> r' k' s' = r' k s"
    with r'[of k s] have e: "r' k s = r k s" "k \<noteq> k0" by (auto split: if_splits)
    from a e r'[of k' s'] have e': "r' k' s' = r k' s'" by (auto split: if_splits)
    from a e e' dis[of k k' s s'] show "k' = k \<and> s' = s" by simp
  qed
  show ?thesis unfolding wf_refs_def
    by (intro conjI) (fact len' ib 1 2 3)+
qed

subsection \<open>How references change with the disk image\<close>

lemma inode_at_put_inode:
  assumes "length (direct nd) = 5"
  shows "inode_at (put_inode img n nd) k = (if k = n then nd else inode_at img k)"
proof (cases "k div INODES_PER_BLOCK = n div INODES_PER_BLOCK")
  case True
  have "k mod INODES_PER_BLOCK = n mod INODES_PER_BLOCK \<longleftrightarrow> k = n"
    using True by (metis div_mult_mod_eq)
  with True assms show ?thesis
    by (simp add: inode_at_def put_inode_def block_inode_set_block_inode)
next
  case False
  then have "k \<noteq> n" by auto
  with False show ?thesis by (simp add: inode_at_def put_inode_def)
qed

lemma inode_block_le:
  "k < IB * INODES_PER_BLOCK \<Longrightarrow> k div INODES_PER_BLOCK + 1 \<le> IB"
  by (simp add: INODES_PER_BLOCK_def less_mult_imp_div_less Suc_leI)

lemma inode_at_fun_upd:
  assumes "k < IB * INODES_PER_BLOCK" and "IB < b"
  shows "inode_at (img(b := x)) k = inode_at img k"
  using inode_block_le[OF assms(1)] assms(2) by (simp add: inode_at_def)

lemma put_inode_other_block:
  assumes "n < IB * INODES_PER_BLOCK" and "IB < b"
  shows "put_inode img n nd b = img b"
  using inode_block_le[OF assms(1)] assms(2) by (simp add: put_inode_def)

lemma ref_Indirect:
  "ref img k Indirect = (if valid (inode_at img k) = 0 then 0 else unat (indirect (inode_at img k)))"
  by (simp add: ref_def)

text \<open>Writing a block that is neither an inode block nor the indirect block of inode \<open>k\<close>
  leaves the references of inode \<open>k\<close> as they are.\<close>

lemma ref_fun_upd:
  assumes "k < IB * INODES_PER_BLOCK" and "IB < b" and "ref img k Indirect \<noteq> b"
  shows "ref (img(b := x)) k s = ref img k s"
proof -
  note i = inode_at_fun_upd[OF assms(1,2), of img x]
  show ?thesis
  proof (cases "valid (inode_at img k) = 0")
    case True
    with i show ?thesis by (simp add: ref_def)
  next
    case False
    with assms(3) have "unat (indirect (inode_at img k)) \<noteq> b" by (simp add: ref_Indirect)
    with i False show ?thesis by (simp add: ref_def)
  qed
qed

text \<open>Saving inode \<open>n\<close> leaves the references of the other inodes as they are.\<close>

lemma ref_put_inode_other:
  assumes "k < IB * INODES_PER_BLOCK" and "n < IB * INODES_PER_BLOCK" and "k \<noteq> n"
    and "length (direct nd) = 5"
    and "ref img k Indirect = 0 \<or> IB < ref img k Indirect"
  shows "ref (put_inode img n nd) k s = ref img k s"
proof -
  from assms(3,4) have i: "inode_at (put_inode img n nd) k = inode_at img k"
    by (simp add: inode_at_put_inode)
  show ?thesis
  proof (cases "valid (inode_at img k) = 0")
    case True
    with i show ?thesis by (simp add: ref_def)
  next
    case v: False
    show ?thesis
    proof (cases "indirect (inode_at img k) = 0")
      case True
      with i v show ?thesis by (cases s) (simp_all add: ref_def)
    next
      case False
      with v assms(5) have "IB < unat (indirect (inode_at img k))"
        by (simp add: ref_Indirect unat_eq_0)
      from put_inode_other_block[OF assms(2) this, of img nd] i v show ?thesis
        by (simp add: ref_def)
    qed
  qed
qed

text \<open>After saving a valid record as inode \<open>n\<close>, the references of inode \<open>n\<close> are those of the
  record.\<close>

lemma ref_put_inode_same:
  assumes "n < IB * INODES_PER_BLOCK" and "length (direct nd) = 5" and "valid nd \<noteq> 0"
    and "indirect nd = 0 \<or> IB < unat (indirect nd)"
  shows "ref (put_inode img n nd) n s = node_ref nd (img (unat (indirect nd))) s"
proof -
  from assms(2) have i: "inode_at (put_inode img n nd) n = nd"
    by (simp add: inode_at_put_inode)
  show ?thesis
  proof (cases "indirect nd = 0")
    case True
    with i assms(3) show ?thesis by (cases s) (simp_all add: ref_def)
  next
    case False
    with assms(4) have "IB < unat (indirect nd)" by simp
    from put_inode_other_block[OF assms(1) this, of img nd] i assms(3) show ?thesis
      by (simp add: ref_def)
  qed
qed

lemma ref_put_inode_invalid:
  assumes "length (direct nd) = 5" and "valid nd = 0"
  shows "ref (put_inode img n nd) n s = 0"
  using assms by (simp add: ref_def inode_at_put_inode)

subsection \<open>Allocation\<close>

lemma allocate_scan_result:
  assumes "allocate_scan fs i = Inr (fs', b)"
    and "free_blocks fs = Some fb"
    and "0 < i"
  shows "(b = 0 \<and> fs' = fs)
         \<or> (b \<noteq> 0 \<and> unat b < unat (blocks (meta_data fs)) \<and> unat b < length fb \<and> \<not> fb ! unat b
             \<and> fs' = fs\<lparr>free_blocks := Some (fb[unat b := True])\<rparr>)"
  using assms
proof (induction fs i rule: allocate_scan.induct)
  case (1 fs i)
  show ?case
  proof (cases "i < unat (blocks (meta_data fs))")
    case False
    with "1.prems" show ?thesis by (simp add: allocate_scan.simps[of fs i])
  next
    case True
    have "unat (blocks (meta_data fs)) < 2 ^ 32"
      using unsigned_less[of "blocks (meta_data fs)", where 'a = nat] by simp
    with True have u: "unat (of_nat i :: u32) = i"
      by (simp add: unat_of_nat)
    from True "1.prems"(1,2) have il: "i < length fb"
      by (auto simp add: allocate_scan.simps[of fs i] get_free_block_def split: if_splits)
    show ?thesis
    proof (cases "fb ! i")
      case used: True
      with True il "1.prems" have rec: "allocate_scan fs (i + 1) = Inr (fs', b)"
        by (simp add: allocate_scan.simps[of fs i] get_free_block_def)
      have g: "get_free_block fs i = Inr True"
        using il used "1.prems"(2) by (simp add: get_free_block_def)
      from "1.IH"[OF True g _ rec "1.prems"(2)] show ?thesis by simp
    next
      case False
      with True il "1.prems"
      have "fs' = fs\<lparr>free_blocks := Some (fb[i := True])\<rparr>" "b = of_nat i"
        by (auto simp add: allocate_scan.simps[of fs i] get_free_block_def set_free_block_def)
      moreover from u "1.prems"(3) have "(of_nat i :: u32) \<noteq> 0" by (metis not_less0 unat_0)
      ultimately show ?thesis using u True il False by simp
    qed
  qed
qed

lemma fs_allocate_free_block_result:
  assumes "fs_allocate_free_block fs = Inr (fs', b)"
    and "free_blocks fs = Some fb"
  shows "(b = 0 \<and> fs' = fs)
         \<or> (b \<noteq> 0 \<and> unat b < unat (blocks (meta_data fs)) \<and> unat b < length fb \<and> \<not> fb ! unat b
             \<and> fs' = fs\<lparr>free_blocks := Some (fb[unat b := True])\<rparr>)"
  using allocate_scan_result[of fs 1 fs' b fb] assms by (simp add: fs_allocate_free_block_def)

subsection \<open>Saving an inode\<close>

lemma assert_save_inode_result:
  assumes "assert_save_inode fs n nd = Inr fs'"
  shows "\<exists>d. disk fs = Some d \<and> n < unat (inodes (meta_data fs))
           \<and> n div INODES_PER_BLOCK + 1 < disk_blocks d
           \<and> fs' = fs\<lparr>disk := Some (d\<lparr>image := put_inode (image d) n nd,
                                      reads := reads d + 1, writes := writes d + 1\<rparr>)\<rparr>"
  using assms
  by (auto simp add: assert_save_inode_def fs_save_inode_def fs_disk_read_Inr fs_disk_write_Inr
        put_inode_def
      split: sum.splits if_splits)

subsection \<open>Consistent handles\<close>

lemma consistentD:
  assumes "consistent fs"
  obtains d fb where "disk fs = Some d" "free_blocks fs = Some fb"
    "disk_blocks d = unat (blocks (meta_data fs))"
    "unat (inodes (meta_data fs)) = unat (inode_blocks (meta_data fs)) * INODES_PER_BLOCK"
    "magic_number (meta_data fs) = MAGIC_NUMBER"
    "block_super (image d 0) = meta_data fs"
    "wf_refs (unat (blocks (meta_data fs))) (unat (inode_blocks (meta_data fs))) (ref (image d)) fb"
  using assms unfolding consistent_def well_formed_def by blast

lemma consistentI:
  assumes "disk fs = Some d" "free_blocks fs = Some fb"
    "disk_blocks d = unat (blocks (meta_data fs))"
    "unat (inodes (meta_data fs)) = unat (inode_blocks (meta_data fs)) * INODES_PER_BLOCK"
    "magic_number (meta_data fs) = MAGIC_NUMBER"
    "block_super (image d 0) = meta_data fs"
    "wf_refs (unat (blocks (meta_data fs))) (unat (inode_blocks (meta_data fs))) (ref (image d)) fb"
  shows "consistent fs"
  using assms unfolding consistent_def well_formed_def by blast

lemma wf_refsD:
  assumes "wf_refs B IB r fb"
  shows "length fb = B" "0 < IB" "IB < B" "B < 2 ^ 32" "\<And>b. b \<le> IB \<Longrightarrow> fb ! b"
    "\<And>k s. k < IB * INODES_PER_BLOCK \<Longrightarrow> slot_ok s \<Longrightarrow> r k s \<noteq> 0
        \<Longrightarrow> IB < r k s \<and> r k s < B \<and> fb ! r k s"
    "\<And>k s k' s'. k < IB * INODES_PER_BLOCK \<Longrightarrow> k' < IB * INODES_PER_BLOCK
        \<Longrightarrow> slot_ok s \<Longrightarrow> slot_ok s' \<Longrightarrow> r k s \<noteq> 0 \<Longrightarrow> r k' s' = r k s
        \<Longrightarrow> k' = k \<and> s' = s"
  using assms unfolding wf_refs_def by blast+

lemma wf_refs_Indirect:
  assumes "wf_refs B IB r fb" and "k < IB * INODES_PER_BLOCK"
  shows "r k Indirect = 0 \<or> IB < r k Indirect"
  using wf_refsD(6)[OF assms(1) assms(2), of Indirect] by auto

lemma put_inode_block0 [simp]: "put_inode img n nd 0 = img 0"
  by (simp add: put_inode_def)

subsection \<open>fs\_create keeps the handle consistent\<close>

lemma fs_create_slots_result:
  assumes "fs_create_slots fs tbl i j = Inr (fs', r)"
  shows "(r = None \<and> fs' = fs)
         \<or> (\<exists>j'. j \<le> j' \<and> j' < INODES_PER_BLOCK \<and> valid (block_inode tbl j') = 0
               \<and> r = Some ((i - 1) * INODES_PER_BLOCK + j')
               \<and> assert_save_inode fs ((i - 1) * INODES_PER_BLOCK + j')
                    (zero_inode\<lparr>valid := 1, indirect := 0\<rparr>) = Inr fs')"
  using assms
proof (induction fs tbl i j rule: fs_create_slots.induct)
  case (1 fs tbl i j)
  show ?case
  proof (cases "j < INODES_PER_BLOCK")
    case False
    with "1.prems" show ?thesis by (simp add: fs_create_slots.simps[of fs tbl i j])
  next
    case True
    show ?thesis
    proof (cases "valid (block_inode tbl j) = 0")
      case v: True
      with True "1.prems" show ?thesis
        by (auto simp add: fs_create_slots.simps[of fs tbl i j] split: sum.splits)
    next
      case False
      with True "1.prems" have "fs_create_slots fs tbl i (j + 1) = Inr (fs', r)"
        by (simp add: fs_create_slots.simps[of fs tbl i j])
      from "1.IH"[OF True False this] show ?thesis by auto
    qed
  qed
qed

lemma fs_create_blocks_result:
  assumes "fs_create_blocks fs n i = Inr (fs', r)" and "0 < i"
  shows "same_contents fs fs'
         \<or> (\<exists>k d d'. disk fs = Some d \<and> disk fs' = Some d' \<and> k < n * INODES_PER_BLOCK
               \<and> valid (inode_at (image d) k) = 0
               \<and> image d' = put_inode (image d) k (zero_inode\<lparr>valid := 1, indirect := 0\<rparr>)
               \<and> disk_blocks d' = disk_blocks d \<and> free_blocks fs' = free_blocks fs
               \<and> meta_data fs' = meta_data fs)"
  using assms
proof (induction fs n i rule: fs_create_blocks.induct)
  case (1 fs n i)
  show ?case
  proof (cases "i \<le> n")
    case False
    with "1.prems" show ?thesis by (simp add: fs_create_blocks.simps[of fs n i])
  next
    case True
    with "1.prems" obtain fs1 tbl fs2 r2 where
      rd: "fs_disk_read fs i = Inr (fs1, tbl)"
      and sl: "fs_create_slots fs1 tbl i 0 = Inr (fs2, r2)"
      by (auto simp add: fs_create_blocks.simps[of fs n i] split: sum.splits)
    from rd obtain d where d: "disk fs = Some d" "i < disk_blocks d"
      "fs1 = fs\<lparr>disk := Some (d\<lparr>reads := reads d + 1\<rparr>)\<rparr>" "tbl = image d i"
      unfolding fs_disk_read_Inr by blast
    note s1 = fs_disk_read_same_contents[OF rd]
    from fs_create_slots_result[OF sl] show ?thesis
    proof
      assume a: "r2 = None \<and> fs2 = fs1"
      with True "1.prems" rd sl have ni: "i \<noteq> 2 ^ 32 - 1"
        and rec: "fs_create_blocks fs1 n (i + 1) = Inr (fs', r)"
        by (auto simp add: fs_create_blocks.simps[of fs n i] split: if_splits)
      have "0 < i + 1" by simp
      from "1.IH"[OF True rd refl sl _ _ ni] a rec this
      have "same_contents fs1 fs'
         \<or> (\<exists>k d1 d'. disk fs1 = Some d1 \<and> disk fs' = Some d' \<and> k < n * INODES_PER_BLOCK
               \<and> valid (inode_at (image d1) k) = 0
               \<and> image d' = put_inode (image d1) k (zero_inode\<lparr>valid := 1, indirect := 0\<rparr>)
               \<and> disk_blocks d' = disk_blocks d1 \<and> free_blocks fs' = free_blocks fs1
               \<and> meta_data fs' = meta_data fs1)"
        by auto
      then show ?thesis
      proof
        assume "same_contents fs1 fs'"
        with s1 show ?thesis by (blast intro: same_contents_trans)
      next
        assume "\<exists>k d1 d'. disk fs1 = Some d1 \<and> disk fs' = Some d' \<and> k < n * INODES_PER_BLOCK
               \<and> valid (inode_at (image d1) k) = 0
               \<and> image d' = put_inode (image d1) k (zero_inode\<lparr>valid := 1, indirect := 0\<rparr>)
               \<and> disk_blocks d' = disk_blocks d1 \<and> free_blocks fs' = free_blocks fs1
               \<and> meta_data fs' = meta_data fs1"
        with d show ?thesis by auto
      qed
    next
      assume "\<exists>j'. 0 \<le> j' \<and> j' < INODES_PER_BLOCK \<and> valid (block_inode tbl j') = 0
               \<and> r2 = Some ((i - 1) * INODES_PER_BLOCK + j')
               \<and> assert_save_inode fs1 ((i - 1) * INODES_PER_BLOCK + j')
                    (zero_inode\<lparr>valid := 1, indirect := 0\<rparr>) = Inr fs2"
      then obtain j' where j': "j' < INODES_PER_BLOCK" "valid (block_inode tbl j') = 0"
        "r2 = Some ((i - 1) * INODES_PER_BLOCK + j')"
        "assert_save_inode fs1 ((i - 1) * INODES_PER_BLOCK + j')
            (zero_inode\<lparr>valid := 1, indirect := 0\<rparr>) = Inr fs2"
        by blast
      let ?k = "(i - 1) * INODES_PER_BLOCK + j'"
      from True "1.prems" rd sl j'(3) have e: "fs' = fs2"
        by (simp add: fs_create_blocks.simps[of fs n i])
      from j'(1) "1.prems"(2) have dv: "?k div INODES_PER_BLOCK + 1 = i" "?k mod INODES_PER_BLOCK = j'"
        by (simp_all add: INODES_PER_BLOCK_def)
      from True "1.prems"(2) j'(1) have "?k < (i - 1) * INODES_PER_BLOCK + INODES_PER_BLOCK" by simp
      also have "\<dots> = i * INODES_PER_BLOCK" using "1.prems"(2)
        by (cases i) simp_all
      also have "\<dots> \<le> n * INODES_PER_BLOCK" using True by simp
      finally have kn: "?k < n * INODES_PER_BLOCK" .
      have inv: "valid (inode_at (image d) ?k) = 0"
        using j'(2) d(4) dv by (simp add: inode_at_def)
      from assert_save_inode_result[OF j'(4)] d(1,3) e
      have "disk fs' = Some (d\<lparr>image := put_inode (image d) ?k (zero_inode\<lparr>valid := 1, indirect := 0\<rparr>),
                                reads := reads d + 2, writes := writes d + 1\<rparr>)"
        "free_blocks fs' = free_blocks fs" "meta_data fs' = meta_data fs"
        by auto
      with d(1) kn inv show ?thesis by auto
    qed
  qed
qed

lemma node_ref_new_inode:
  "slot_ok s \<Longrightarrow> node_ref (zero_inode\<lparr>valid := 1, indirect := 0\<rparr>) ib s = 0"
  by (cases s) (auto simp add: zero_inode_def POINTERS_PER_INODE_def nth_Cons' )

lemma fs_create_consistent:
  assumes "consistent fs" and "fs_create fs = Inr (fs', r)"
  shows "consistent fs'"
proof -
  let ?B = "unat (blocks (meta_data fs))" and ?IB = "unat (inode_blocks (meta_data fs))"
  let ?nd = "zero_inode\<lparr>valid := 1, indirect := 0\<rparr>"
  have p: "0 < (1::nat)" by simp
  from assms(2) have "fs_create_blocks fs ?IB 1 = Inr (fs', r)" by (simp add: fs_create_def)
  from fs_create_blocks_result[OF this p] show ?thesis
  proof
    assume "same_contents fs fs'"
    with assms(1) show ?thesis by (rule consistent_same_contents)
  next
    assume "\<exists>k d d'. disk fs = Some d \<and> disk fs' = Some d' \<and> k < ?IB * INODES_PER_BLOCK
               \<and> valid (inode_at (image d) k) = 0
               \<and> image d' = put_inode (image d) k ?nd
               \<and> disk_blocks d' = disk_blocks d \<and> free_blocks fs' = free_blocks fs
               \<and> meta_data fs' = meta_data fs"
    then obtain k d d' where c: "disk fs = Some d" "disk fs' = Some d'" "k < ?IB * INODES_PER_BLOCK"
      "valid (inode_at (image d) k) = 0" "image d' = put_inode (image d) k ?nd"
      "disk_blocks d' = disk_blocks d" "free_blocks fs' = free_blocks fs"
      "meta_data fs' = meta_data fs"
      by blast
    from assms(1) c(1) obtain fb where f: "free_blocks fs = Some fb"
      "disk_blocks d = ?B"
      "unat (inodes (meta_data fs)) = ?IB * INODES_PER_BLOCK"
      "magic_number (meta_data fs) = MAGIC_NUMBER"
      "block_super (image d 0) = meta_data fs"
      "wf_refs ?B ?IB (ref (image d)) fb"
      by (auto elim: consistentD)
    have len: "length (direct ?nd) = 5" by (simp add: zero_inode_def)
    have "wf_refs ?B ?IB (ref (image d')) fb"
    proof (rule wf_refs_cong[OF f(6)])
      fix k' s assume k': "k' < ?IB * INODES_PER_BLOCK" and s: "slot_ok s"
      show "ref (image d') k' s = ref (image d) k' s"
      proof (cases "k' = k")
        case True
        have "ref (put_inode (image d) k ?nd) k s = node_ref ?nd (image d (unat (indirect ?nd))) s"
          by (rule ref_put_inode_same[OF c(3) len]) (simp_all add: zero_inode_def)
        with True c(4,5) s show ?thesis by (simp add: node_ref_new_inode ref_def)
      next
        case False
        from ref_put_inode_other[OF k' c(3) False len wf_refs_Indirect[OF f(6) k']] c(5)
        show ?thesis by simp
      qed
    qed
    with c f show ?thesis by (intro consistentI[of fs' d' fb]) simp_all
  qed
qed

subsection \<open>fs\_remove keeps the handle consistent\<close>

lemma fs_load_inode_inode_at:
  assumes "fs_load_inode fs n = Inr (fs1, Some inode)" and "disk fs = Some d"
  shows "n < INODES_PER_BLOCK" "n < unat (inodes (meta_data fs))"
    "inode = inode_at (image d) n" "valid inode \<noteq> 0" "length (direct inode) = 5"
    "fs1 = fs\<lparr>disk := Some (d\<lparr>reads := reads d + 1\<rparr>)\<rparr>"
  using assms unfolding fs_load_inode_Some
  by (auto simp add: inode_at_def INODES_PER_BLOCK_def)

lemma fs_remove_frees:
  assumes load: "fs_load_inode fs n = Inr (fs1, Some inode)"
    and d: "disk fs = Some d"
    and fb: "free_blocks fs = Some fb"
    and rm: "fs_remove fs n = Inr (fs', ok)"
  shows "\<exists>d' fb'. disk fs' = Some d' \<and> image d' = put_inode (image d) n zero_inode
           \<and> disk_blocks d' = disk_blocks d \<and> meta_data fs' = meta_data fs
           \<and> free_blocks fs' = Some fb' \<and> length fb' = length fb
           \<and> (\<forall>x < length fb. fb ! x \<longrightarrow> \<not> fb' ! x \<longrightarrow>
                  x \<noteq> 0 \<and> (\<exists>s. slot_ok s
                       \<and> node_ref inode (image d (unat (indirect inode))) s = x))"
proof -
  let ?blk = "image d (unat (indirect inode))"
  let ?R = "\<lambda>x. x \<noteq> 0 \<and> (\<exists>s. slot_ok s \<and> node_ref inode ?blk s = x)"
  note l = fs_load_inode_inode_at[OF load d]
  from l(6) fb have fb1: "free_blocks fs1 = Some fb" by simp
  from rm load obtain fs2 where sd: "set_direct_blocks fs1 inode False 0 = Inr fs2"
    by (cases "set_direct_blocks fs1 inode False 0") (auto simp add: fs_remove_def)
  define E where "E = (if indirect inode \<noteq> 0 then
                (case fs_disk_read fs2 (unat (indirect inode)) of
                   Inl e \<Rightarrow> Inl e
                 | Inr (fs3, block) \<Rightarrow>
                     (case set_pointer_blocks fs3 block False 0 of
                        Inl e \<Rightarrow> Inl e
                      | Inr (fs4, i) \<Rightarrow>
                          if i \<noteq> 0 then set_free_block fs4 (unat (indirect inode)) False
                          else Inr fs4))
              else Inr fs2)"
  from rm load sd have rm': "(case E of Inl e \<Rightarrow> Inl e
        | Inr fs5 \<Rightarrow> (case assert_save_inode fs5 n zero_inode of
                         Inl e \<Rightarrow> Inl e | Inr fs6 \<Rightarrow> Inr (fs6, True))) = Inr (fs', ok)"
    by (simp add: fs_remove_def E_def)
  then obtain fs5 where s5: "E = Inr fs5" by (cases E) auto
  with rm' have sv: "assert_save_inode fs5 n zero_inode = Inr fs'"
    by (cases "assert_save_inode fs5 n zero_inode") auto
  from set_direct_blocks_result[OF sd fb1] obtain fb2 iD where
    D: "fs2 = fs1\<lparr>free_blocks := Some fb2\<rparr>" "length fb2 = length fb" "iD \<le> POINTERS_PER_INODE"
       "\<forall>j. j < iD \<longrightarrow> direct inode ! j \<noteq> 0 \<and> unat (direct inode ! j) < length fb"
       "\<forall>b < length fb. fb2 ! b = (if \<exists>j. j < iD \<and> unat (direct inode ! j) = b then False else fb ! b)"
    by auto
  have RD: "\<And>j. j < iD \<Longrightarrow> ?R (unat (direct inode ! j))"
  proof -
    fix j assume j: "j < iD"
    with D(3) have "slot_ok (Direct j)" by simp
    moreover have "node_ref inode ?blk (Direct j) = unat (direct inode ! j)" by simp
    moreover from D(4) j have "unat (direct inode ! j) \<noteq> 0" by (simp add: unat_eq_0)
    ultimately show "?R (unat (direct inode ! j))" by blast
  qed
  have step2: "\<forall>x < length fb. fb ! x \<longrightarrow> \<not> fb2 ! x \<longrightarrow> ?R x"
    using D(5) RD by (auto split: if_splits)
  have "\<exists>fb5 r. fs5 = fs\<lparr>disk := Some (d\<lparr>reads := r\<rparr>), free_blocks := Some fb5\<rparr>
          \<and> length fb5 = length fb
          \<and> (\<forall>x < length fb. fb ! x \<longrightarrow> \<not> fb5 ! x \<longrightarrow> ?R x)"
  proof (cases "indirect inode = 0")
    case True
    with s5 have "fs5 = fs2" by (simp add: E_def)
    with D(1,2) l(6) step2 show ?thesis by auto
  next
    case False
    with s5 obtain fs3 blk3 where
      rd: "fs_disk_read fs2 (unat (indirect inode)) = Inr (fs3, blk3)"
      by (cases "fs_disk_read fs2 (unat (indirect inode))") (auto simp add: E_def)
    with s5 False obtain fs4 i where
      sp: "set_pointer_blocks fs3 blk3 False 0 = Inr (fs4, i)"
      by (cases "set_pointer_blocks fs3 blk3 False 0") (auto simp add: E_def)
    with s5 False rd
    have s5': "(if i \<noteq> 0 then set_free_block fs4 (unat (indirect inode)) False else Inr fs4) = Inr fs5"
      by (simp add: E_def)
    from rd D(1) l(6) have blk3: "blk3 = ?blk"
      and fs3: "fs3 = fs\<lparr>disk := Some (d\<lparr>reads := reads d + 2\<rparr>), free_blocks := Some fb2\<rparr>"
      unfolding fs_disk_read_Inr by auto
    from fs3 have fb3: "free_blocks fs3 = Some fb2" by simp
    from set_pointer_blocks_result[OF sp fb3] D(2) blk3 obtain fb4 where
      P: "fs4 = fs3\<lparr>free_blocks := Some fb4\<rparr>" "length fb4 = length fb" "i \<le> POINTERS_PER_BLOCK"
         "\<forall>j. j < i \<longrightarrow> get_u32 ?blk j \<noteq> 0 \<and> unat (get_u32 ?blk j) < length fb"
         "\<forall>b < length fb. fb4 ! b = (if \<exists>j. j < i \<and> unat (get_u32 ?blk j) = b then False else fb2 ! b)"
      by auto
    have RP: "\<And>j. j < i \<Longrightarrow> ?R (unat (get_u32 ?blk j))"
    proof -
      fix j assume j: "j < i"
      with P(3) have "slot_ok (Pointer j)" by simp
      moreover have "node_ref inode ?blk (Pointer j) = unat (get_u32 ?blk j)" using False by simp
      moreover from P(4) j have "unat (get_u32 ?blk j) \<noteq> 0" by (simp add: unat_eq_0)
      ultimately show "?R (unat (get_u32 ?blk j))" by blast
    qed
    have RI: "?R (unat (indirect inode))"
    proof -
      have "slot_ok Indirect" by simp
      moreover have "node_ref inode ?blk Indirect = unat (indirect inode)" by simp
      moreover from False have "unat (indirect inode) \<noteq> 0" by (simp add: unat_eq_0)
      ultimately show ?thesis by blast
    qed
    have step4: "\<forall>x < length fb. fb ! x \<longrightarrow> \<not> fb4 ! x \<longrightarrow> ?R x"
    proof (intro allI impI)
      fix x assume x: "x < length fb" "fb ! x" "\<not> fb4 ! x"
      show "?R x"
      proof (cases "\<exists>j. j < i \<and> unat (get_u32 ?blk j) = x")
        case True
        with RP show ?thesis by blast
      next
        case False
        with P(5) x have "\<not> fb2 ! x" by simp
        with step2 x show ?thesis by blast
      qed
    qed
    define fb5 where "fb5 = (if i \<noteq> 0 then fb4[unat (indirect inode) := False] else fb4)"
    from s5' P(1) fs3 have fs5: "fs5 = fs\<lparr>disk := Some (d\<lparr>reads := reads d + 2\<rparr>), free_blocks := Some fb5\<rparr>"
      by (auto simp add: fb5_def set_free_block_Inr split: if_splits)
    have len5: "length fb5 = length fb" using P(2) by (simp add: fb5_def)
    have "\<forall>x < length fb. fb ! x \<longrightarrow> \<not> fb5 ! x \<longrightarrow> ?R x"
    proof (intro allI impI)
      fix x assume x: "x < length fb" "fb ! x" "\<not> fb5 ! x"
      show "?R x"
      proof (cases "x = unat (indirect inode)")
        case True
        with RI show ?thesis by simp
      next
        case False
        with x(3) have "\<not> fb4 ! x" by (simp add: fb5_def split: if_splits)
        with step4 x show ?thesis by blast
      qed
    qed
    with fs5 len5 show ?thesis by blast
  qed
  then obtain fb5 r where f5: "fs5 = fs\<lparr>disk := Some (d\<lparr>reads := r\<rparr>), free_blocks := Some fb5\<rparr>"
    "length fb5 = length fb" "\<forall>x < length fb. fb ! x \<longrightarrow> \<not> fb5 ! x \<longrightarrow> ?R x"
    by blast
  from assert_save_inode_result[OF sv] f5(1)
  have "disk fs' = Some (d\<lparr>image := put_inode (image d) n zero_inode, reads := r + 1,
                            writes := writes d + 1\<rparr>)"
    "free_blocks fs' = Some fb5" "meta_data fs' = meta_data fs"
    by auto
  with f5(2,3) show ?thesis by auto
qed

lemma fs_remove_consistent:
  assumes c: "consistent fs" and rm: "fs_remove fs n = Inr (fs', ok)"
  shows "consistent fs'"
proof -
  let ?B = "unat (blocks (meta_data fs))" and ?IB = "unat (inode_blocks (meta_data fs))"
  from rm obtain fs1 ld where load: "fs_load_inode fs n = Inr (fs1, ld)"
    by (auto simp add: fs_remove_def split: sum.splits)
  show ?thesis
  proof (cases ld)
    case None
    with rm load have "fs' = fs1" by (simp add: fs_remove_def)
    with fs_load_inode_same_contents[OF load] c show ?thesis
      by (auto intro: consistent_same_contents)
  next
    case (Some inode)
    from c obtain d fb where f: "disk fs = Some d" "free_blocks fs = Some fb"
      "disk_blocks d = ?B"
      "unat (inodes (meta_data fs)) = ?IB * INODES_PER_BLOCK"
      "magic_number (meta_data fs) = MAGIC_NUMBER"
      "block_super (image d 0) = meta_data fs"
      "wf_refs ?B ?IB (ref (image d)) fb"
      by (rule consistentD)
    note load' = load[unfolded Some]
    note l = fs_load_inode_inode_at[OF load' f(1)]
    from l(2) f(4) have n: "n < ?IB * INODES_PER_BLOCK" by simp
    from fs_remove_frees[OF load' f(1,2) rm] obtain d' fb' where
      r: "disk fs' = Some d'" "image d' = put_inode (image d) n zero_inode"
         "disk_blocks d' = disk_blocks d" "meta_data fs' = meta_data fs"
         "free_blocks fs' = Some fb'" "length fb' = length fb"
         "\<forall>x < length fb. fb ! x \<longrightarrow> \<not> fb' ! x \<longrightarrow>
             x \<noteq> 0 \<and> (\<exists>s. slot_ok s \<and> node_ref inode (image d (unat (indirect inode))) s = x)"
      by blast
    have len: "length fb = ?B" using wf_refsD(1)[OF f(7)] .
    have rn: "\<And>s. ref (image d) n s = node_ref inode (image d (unat (indirect inode))) s"
      using l(3,4) by (simp add: ref_def)
    have z: "length (direct zero_inode) = 5" "valid zero_inode = 0" by (simp_all add: zero_inode_def)
    have "wf_refs ?B ?IB (ref (image d')) fb'"
    proof (rule wf_refs_free[OF f(7) n])
      fix k s assume k: "k < ?IB * INODES_PER_BLOCK" and s: "slot_ok s"
      show "ref (image d') k s = (if k = n then 0 else ref (image d) k s)"
      proof (cases "k = n")
        case True
        with r(2) ref_put_inode_invalid[OF z, of "image d" n s] show ?thesis by simp
      next
        case False
        from ref_put_inode_other[OF k n False z(1) wf_refs_Indirect[OF f(7) k]] r(2) False
        show ?thesis by simp
      qed
    next
      show "length fb' = ?B" using r(6) len by simp
    next
      fix x assume "x < ?B" "\<not> fb' ! x" "fb ! x"
      with r(7) len rn show "\<exists>s. slot_ok s \<and> ref (image d) n s = x \<and> x \<noteq> 0" by auto
    qed
    with r f show ?thesis by (intro consistentI[of fs' d' fb']) simp_all
  qed
qed

subsection \<open>The steps of fs\_write\<close>

lemma write_invD:
  assumes "write_inv fs n node ibo"
  obtains d fb where "disk fs = Some d" "free_blocks fs = Some fb"
    "disk_blocks d = unat (blocks (meta_data fs))"
    "unat (inodes (meta_data fs)) = unat (inode_blocks (meta_data fs)) * INODES_PER_BLOCK"
    "magic_number (meta_data fs) = MAGIC_NUMBER"
    "block_super (image d 0) = meta_data fs"
    "n < unat (inode_blocks (meta_data fs)) * INODES_PER_BLOCK"
    "valid node \<noteq> 0" "length (direct node) = 5"
    "wf_refs (unat (blocks (meta_data fs))) (unat (inode_blocks (meta_data fs)))
             (local_ref (image d) n node
                (case ibo of None \<Rightarrow> image d (unat (indirect node)) | Some ib \<Rightarrow> ib)) fb"
  using assms unfolding write_inv_def by blast

lemma write_invI:
  assumes "disk fs = Some d" "free_blocks fs = Some fb"
    "disk_blocks d = unat (blocks (meta_data fs))"
    "unat (inodes (meta_data fs)) = unat (inode_blocks (meta_data fs)) * INODES_PER_BLOCK"
    "magic_number (meta_data fs) = MAGIC_NUMBER"
    "block_super (image d 0) = meta_data fs"
    "n < unat (inode_blocks (meta_data fs)) * INODES_PER_BLOCK"
    "valid node \<noteq> 0" "length (direct node) = 5"
    "wf_refs (unat (blocks (meta_data fs))) (unat (inode_blocks (meta_data fs)))
             (local_ref (image d) n node
                (case ibo of None \<Rightarrow> image d (unat (indirect node)) | Some ib \<Rightarrow> ib)) fb"
  shows "write_inv fs n node ibo"
  using assms unfolding write_inv_def by blast

lemma write_inv_same_contents:
  assumes "write_inv fs n node ibo" and "same_contents fs fs'"
  shows "write_inv fs' n node ibo"
proof -
  from assms(1) obtain d fb where f: "disk fs = Some d" "free_blocks fs = Some fb"
    "disk_blocks d = unat (blocks (meta_data fs))"
    "unat (inodes (meta_data fs)) = unat (inode_blocks (meta_data fs)) * INODES_PER_BLOCK"
    "magic_number (meta_data fs) = MAGIC_NUMBER"
    "block_super (image d 0) = meta_data fs"
    "n < unat (inode_blocks (meta_data fs)) * INODES_PER_BLOCK"
    "valid node \<noteq> 0" "length (direct node) = 5"
    "wf_refs (unat (blocks (meta_data fs))) (unat (inode_blocks (meta_data fs)))
             (local_ref (image d) n node
                (case ibo of None \<Rightarrow> image d (unat (indirect node)) | Some ib \<Rightarrow> ib)) fb"
    by (rule write_invD)
  from assms(2) f(1) obtain d' where d': "disk fs' = Some d'" "disk_blocks d' = disk_blocks d"
    "image d' = image d" "meta_data fs' = meta_data fs" "free_blocks fs' = free_blocks fs"
    by (auto simp add: same_contents_def split: option.splits)
  with f show ?thesis
    by (intro write_invI[of fs' d' fb]) (simp_all cong: option.case_cong)
qed

text \<open>Where \<^verbatim>\<open>fs_write\<close> starts and where it ends.\<close>

lemma write_inv_start:
  assumes c: "consistent fs" and load: "fs_load_inode fs n = Inr (fs0, Some node)"
  shows "write_inv fs0 n node None"
proof -
  from c obtain d fb where f: "disk fs = Some d" "free_blocks fs = Some fb"
      "disk_blocks d = unat (blocks (meta_data fs))"
      "unat (inodes (meta_data fs)) = unat (inode_blocks (meta_data fs)) * INODES_PER_BLOCK"
      "magic_number (meta_data fs) = MAGIC_NUMBER"
      "block_super (image d 0) = meta_data fs"
      "wf_refs (unat (blocks (meta_data fs))) (unat (inode_blocks (meta_data fs))) (ref (image d)) fb"
    by (rule consistentD)
  note l = fs_load_inode_inode_at[OF load f(1)]
  have e: "local_ref (image d) n node (image d (unat (indirect node))) = ref (image d)"
    using l(3,4) by (auto simp add: local_ref_def ref_def fun_eq_iff)
  have "write_inv fs n node None"
    using f l(2,4,5) e by (intro write_invI[of fs d fb]) simp_all
  from this fs_load_inode_same_contents[OF load] show ?thesis by (rule write_inv_same_contents)
qed

lemma node_ref_size [simp]: "node_ref (node\<lparr>size := sz\<rparr>) ib s = node_ref node ib s"
  by (cases s) simp_all

lemma write_inv_end:
  assumes inv: "write_inv fs n node None"
    and sv: "assert_save_inode fs n (node\<lparr>size := sz\<rparr>) = Inr fs'"
  shows "consistent fs'"
proof -
  let ?B = "unat (blocks (meta_data fs))" and ?IB = "unat (inode_blocks (meta_data fs))"
  let ?nd = "node\<lparr>size := sz\<rparr>"
  from inv obtain d fb where f: "disk fs = Some d" "free_blocks fs = Some fb"
    "disk_blocks d = ?B"
    "unat (inodes (meta_data fs)) = ?IB * INODES_PER_BLOCK"
    "magic_number (meta_data fs) = MAGIC_NUMBER"
    "block_super (image d 0) = meta_data fs"
    "n < ?IB * INODES_PER_BLOCK"
    "valid node \<noteq> 0" "length (direct node) = 5"
    "wf_refs ?B ?IB (local_ref (image d) n node (image d (unat (indirect node)))) fb"
    by (rule write_invD[where ibo = None, simplified])
  let ?r = "local_ref (image d) n node (image d (unat (indirect node)))"
  from assert_save_inode_result[OF sv] f(1)
  have r: "fs' = fs\<lparr>disk := Some (d\<lparr>image := put_inode (image d) n ?nd,
                                      reads := reads d + 1, writes := writes d + 1\<rparr>)\<rparr>"
    by auto
  have nd: "length (direct ?nd) = 5" "valid ?nd \<noteq> 0" using f(8,9) by simp_all
  from wf_refs_Indirect[OF f(10) f(7)]
  have ind: "indirect ?nd = 0 \<or> ?IB < unat (indirect ?nd)"
    by (simp add: local_ref_def unat_eq_0)
  have "wf_refs ?B ?IB (ref (put_inode (image d) n ?nd)) fb"
  proof (rule wf_refs_cong[OF f(10)])
    fix k s assume k: "k < ?IB * INODES_PER_BLOCK" and s: "slot_ok s"
    show "ref (put_inode (image d) n ?nd) k s = ?r k s"
    proof (cases "k = n")
      case True
      from ref_put_inode_same[OF f(7) nd ind, of "image d" s] True show ?thesis
        by (simp add: local_ref_def)
    next
      case False
      from wf_refs_Indirect[OF f(10) k] False
      have "ref (image d) k Indirect = 0 \<or> ?IB < ref (image d) k Indirect"
        by (simp add: local_ref_def)
      from ref_put_inode_other[OF k f(7) False nd(1) this] False show ?thesis
        by (simp add: local_ref_def)
    qed
  qed
  with r f show ?thesis
    by (intro consistentI[of fs' "d\<lparr>image := put_inode (image d) n ?nd,
                                      reads := reads d + 1, writes := writes d + 1\<rparr>" fb]) simp_all
qed

lemma local_ref_same [simp]: "local_ref img n node ib n s = node_ref node ib s"
  by (simp add: local_ref_def)

lemma local_ref_other [simp]: "k \<noteq> n \<Longrightarrow> local_ref img n node ib k s = ref img k s"
  by (simp add: local_ref_def)


lemma write_inv_parts:
  assumes "write_inv fs n node ibo" and "disk fs = Some d" and "free_blocks fs = Some fb"
  shows "disk_blocks d = unat (blocks (meta_data fs))"
    "unat (inodes (meta_data fs)) = unat (inode_blocks (meta_data fs)) * INODES_PER_BLOCK"
    "magic_number (meta_data fs) = MAGIC_NUMBER"
    "block_super (image d 0) = meta_data fs"
    "n < unat (inode_blocks (meta_data fs)) * INODES_PER_BLOCK"
    "valid node \<noteq> 0" "length (direct node) = 5"
    "wf_refs (unat (blocks (meta_data fs))) (unat (inode_blocks (meta_data fs)))
             (local_ref (image d) n node
                (case ibo of None \<Rightarrow> image d (unat (indirect node)) | Some ib \<Rightarrow> ib)) fb"
  using assms unfolding write_inv_def by (elim exE conjE; simp)+

lemma write_inv_bitmap:
  assumes "write_inv fs n node ibo"
  obtains fb where "free_blocks fs = Some fb"
  using assms unfolding write_inv_def by blast

lemma write_inv_disk:
  assumes "write_inv fs n node ibo"
  obtains d where "disk fs = Some d"
  using assms unfolding write_inv_def by blast

text \<open>Writing the data block of a direct or indirect slot of the inode.\<close>

lemma write_inv_write_block:
  assumes inv: "write_inv fs n node ibo"
    and d: "disk fs = Some d"
    and s0: "slot_ok s0" "s0 \<noteq> Indirect"
    and b: "node_ref node (case ibo of None \<Rightarrow> image d (unat (indirect node)) | Some ib \<Rightarrow> ib) s0 = b"
      "b \<noteq> 0"
    and w: "fs_write_block fs b blk data len offset written = Inr (fs', res)"
  shows "write_inv fs' n node ibo"
proof -
  let ?B = "unat (blocks (meta_data fs))" and ?IB = "unat (inode_blocks (meta_data fs))"
  let ?ib = "case ibo of None \<Rightarrow> image d (unat (indirect node)) | Some ib \<Rightarrow> ib"
  let ?r = "local_ref (image d) n node ?ib"
  from inv obtain fb where fb: "free_blocks fs = Some fb" by (rule write_inv_bitmap)
  note p = write_inv_parts[OF inv d fb]
  note f = fb p
  have rb: "?r n s0 = b" using b(1) by simp
  from wf_refsD(6)[OF f(9) f(6) s0(1)] rb b(2) have rng: "?IB < b" "b < ?B" by simp_all
  have dis: "k = n \<and> s = s0"
    if k: "k < ?IB * INODES_PER_BLOCK" and s: "slot_ok s" and e: "?r k s = b" for k s
  proof -
    from rb b(2) have nz: "?r n s0 \<noteq> 0" by simp
    from e rb have "?r k s = ?r n s0" by simp
    from wf_refsD(7)[OF f(9) f(6) k s0(1) s nz this] show ?thesis .
  qed
  from w obtain x where dw: "fs_disk_write fs b x = Inr fs'"
    by (auto simp add: fs_write_block_def Let_def split: sum.splits)
  with d have fs': "fs' = fs\<lparr>disk := Some (d\<lparr>image := (image d)(b := x), writes := writes d + 1\<rparr>)\<rparr>"
    unfolding fs_disk_write_Inr by auto
  let ?img' = "(image d)(b := x)"
  let ?ib' = "case ibo of None \<Rightarrow> ?img' (unat (indirect node)) | Some ib \<Rightarrow> ib"
  have "unat (indirect node) \<noteq> b"
  proof
    assume "unat (indirect node) = b"
    then have "?r n Indirect = b" by simp
    from dis[OF f(6) _ this] s0(2) show False by simp
  qed
  then have ib: "?ib' = ?ib" by (cases ibo) simp_all
  have "wf_refs ?B ?IB (local_ref ?img' n node ?ib') fb"
  proof (rule wf_refs_cong[OF f(9)])
    fix k s assume k: "k < ?IB * INODES_PER_BLOCK" and s: "slot_ok s"
    show "local_ref ?img' n node ?ib' k s = ?r k s"
    proof (cases "k = n")
      case True
      then show ?thesis unfolding ib by simp
    next
      case False
      have "ref (image d) k Indirect \<noteq> b"
      proof
        assume "ref (image d) k Indirect = b"
        with False have "?r k Indirect = b" by simp
        from dis[OF k _ this] False show False by simp
      qed
      from ref_fun_upd[OF k rng(1) this] False show ?thesis by simp
    qed
  qed
  moreover from rng f(5) have "block_super (?img' 0) = meta_data fs" by simp
  ultimately show ?thesis using f fs'
    by (intro write_invI[of fs' "d\<lparr>image := ?img', writes := writes d + 1\<rparr>" fb])
       (simp_all cong: option.case_cong)
qed

lemma fs_allocate_free_block_write_inv:
  assumes inv: "write_inv fs n node ibo"
    and al: "fs_allocate_free_block fs = Inr (fs1, b)" and b: "b \<noteq> 0"
  obtains d fb where "disk fs = Some d" "free_blocks fs = Some fb"
    "fs1 = fs\<lparr>free_blocks := Some (fb[unat b := True])\<rparr>"
    "unat b < unat (blocks (meta_data fs))" "\<not> fb ! unat b"
proof -
  from inv obtain d where d: "disk fs = Some d" by (rule write_inv_disk)
  from inv obtain fb where fb: "free_blocks fs = Some fb" by (rule write_inv_bitmap)
  note f = d fb
  from fs_allocate_free_block_result[OF al f(2)] b
  have "unat b < unat (blocks (meta_data fs))" "\<not> fb ! unat b"
    "fs1 = fs\<lparr>free_blocks := Some (fb[unat b := True])\<rparr>"
    by auto
  with f that show thesis by blast
qed

text \<open>Allocating a block into a free direct slot.\<close>

lemma write_inv_alloc_direct:
  assumes inv: "write_inv fs n node None"
    and i: "i < POINTERS_PER_INODE" "direct node ! i = 0"
    and al: "fs_allocate_free_block fs = Inr (fs1, b)" and b: "b \<noteq> 0"
  shows "write_inv fs1 n (node\<lparr>direct := (direct node)[i := b]\<rparr>) None"
proof -
  let ?B = "unat (blocks (meta_data fs))" and ?IB = "unat (inode_blocks (meta_data fs))"
  let ?nd = "node\<lparr>direct := (direct node)[i := b]\<rparr>"
  from fs_allocate_free_block_write_inv[OF inv al b] obtain d fb where
    a: "disk fs = Some d" "free_blocks fs = Some fb"
    "fs1 = fs\<lparr>free_blocks := Some (fb[unat b := True])\<rparr>" "unat b < ?B" "\<not> fb ! unat b"
    by blast
  let ?r = "local_ref (image d) n node (image d (unat (indirect node)))"
  note f = write_inv_parts[OF inv a(1,2), simplified]
  have s0: "slot_ok (Direct i)" using i(1) by simp
  have z: "?r n (Direct i) = 0" using i(2) by simp
  have "wf_refs ?B ?IB (local_ref (image d) n ?nd (image d (unat (indirect ?nd)))) (fb[unat b := True])
        \<and> ?IB < unat b"
  proof (rule wf_refs_alloc[OF f(8) f(5) s0 z a(4,5)])
    fix k s assume k: "k < ?IB * INODES_PER_BLOCK" and s: "slot_ok s"
    show "local_ref (image d) n ?nd (image d (unat (indirect ?nd))) k s
            = (if k = n \<and> s = Direct i then unat b else ?r k s)"
    proof (cases "k = n")
      case False
      then show ?thesis by simp
    next
      case True
      then show ?thesis using f(7) i(1) s
        by (cases s) (auto simp add: nth_list_update POINTERS_PER_INODE_def)
    qed
  qed
  with a f show ?thesis
    by (intro write_invI[of fs1 d "fb[unat b := True]"]) simp_all
qed

text \<open>Allocating the indirect block; its buffer is all zero.\<close>

lemma write_inv_alloc_indirect:
  assumes inv: "write_inv fs n node None"
    and i: "indirect node = 0"
    and al: "fs_allocate_free_block fs = Inr (fs1, b)" and b: "b \<noteq> 0"
  shows "write_inv fs1 n (node\<lparr>indirect := b\<rparr>) (Some zero_block)"
proof -
  let ?B = "unat (blocks (meta_data fs))" and ?IB = "unat (inode_blocks (meta_data fs))"
  let ?nd = "node\<lparr>indirect := b\<rparr>"
  from fs_allocate_free_block_write_inv[OF inv al b] obtain d fb where
    a: "disk fs = Some d" "free_blocks fs = Some fb"
    "fs1 = fs\<lparr>free_blocks := Some (fb[unat b := True])\<rparr>" "unat b < ?B" "\<not> fb ! unat b"
    by blast
  let ?r = "local_ref (image d) n node (image d (unat (indirect node)))"
  note f = write_inv_parts[OF inv a(1,2), simplified]
  have s0: "slot_ok Indirect" by simp
  have z: "?r n Indirect = 0" using i by simp
  have "wf_refs ?B ?IB (local_ref (image d) n ?nd zero_block) (fb[unat b := True]) \<and> ?IB < unat b"
  proof (rule wf_refs_alloc[OF f(8) f(5) s0 z a(4,5)])
    fix k s assume k: "k < ?IB * INODES_PER_BLOCK" and s: "slot_ok s"
    show "local_ref (image d) n ?nd zero_block k s
            = (if k = n \<and> s = Indirect then unat b else ?r k s)"
    proof (cases "k = n")
      case False
      then show ?thesis by simp
    next
      case True
      then show ?thesis using i b by (cases s) simp_all
    qed
  qed
  with a f show ?thesis
    by (intro write_invI[of fs1 d "fb[unat b := True]"]) simp_all
qed

text \<open>Allocating a block into a free slot of the indirect block buffer.\<close>

lemma write_inv_alloc_pointer:
  assumes inv: "write_inv fs n node (Some blk)"
    and i: "indirect node \<noteq> 0" "p < POINTERS_PER_BLOCK" "get_u32 blk p = 0"
    and al: "fs_allocate_free_block fs = Inr (fs1, b)" and b: "b \<noteq> 0"
  shows "write_inv fs1 n node (Some (set_u32 blk p b))"
proof -
  let ?B = "unat (blocks (meta_data fs))" and ?IB = "unat (inode_blocks (meta_data fs))"
  from fs_allocate_free_block_write_inv[OF inv al b] obtain d fb where
    a: "disk fs = Some d" "free_blocks fs = Some fb"
    "fs1 = fs\<lparr>free_blocks := Some (fb[unat b := True])\<rparr>" "unat b < ?B" "\<not> fb ! unat b"
    by blast
  let ?r = "local_ref (image d) n node blk"
  note f = write_inv_parts[OF inv a(1,2), simplified]
  have s0: "slot_ok (Pointer p)" using i(2) by simp
  have z: "?r n (Pointer p) = 0" using i(3) by simp
  have "wf_refs ?B ?IB (local_ref (image d) n node (set_u32 blk p b)) (fb[unat b := True])
        \<and> ?IB < unat b"
  proof (rule wf_refs_alloc[OF f(8) f(5) s0 z a(4,5)])
    fix k s assume k: "k < ?IB * INODES_PER_BLOCK" and s: "slot_ok s"
    show "local_ref (image d) n node (set_u32 blk p b) k s
            = (if k = n \<and> s = Pointer p then unat b else ?r k s)"
    proof (cases "k = n")
      case False
      then show ?thesis by simp
    next
      case True
      then show ?thesis using i(1) by (cases s) simp_all
    qed
  qed
  with a f show ?thesis
    by (intro write_invI[of fs1 d "fb[unat b := True]"]) simp_all
qed

text \<open>Reading the indirect block into the buffer, and writing the buffer back.\<close>

lemma write_inv_read_indirect:
  assumes "write_inv fs n node None" and "disk fs = Some d"
  shows "write_inv fs n node (Some (image d (unat (indirect node))))"
  using assms unfolding write_inv_def by auto

lemma write_inv_write_indirect:
  assumes inv: "write_inv fs n node (Some blk)"
    and i: "indirect node \<noteq> 0"
    and w: "fs_disk_write fs (unat (indirect node)) blk = Inr fs'"
  shows "write_inv fs' n node None"
proof -
  let ?B = "unat (blocks (meta_data fs))" and ?IB = "unat (inode_blocks (meta_data fs))"
  let ?b = "unat (indirect node)"
  from inv obtain d where d: "disk fs = Some d" by (rule write_inv_disk)
  from inv obtain fb where fb: "free_blocks fs = Some fb" by (rule write_inv_bitmap)
  note f = d fb write_inv_parts[OF inv d fb, simplified]
  let ?r = "local_ref (image d) n node blk"
  have rb: "?r n Indirect = ?b" by simp
  from i have b0: "?b \<noteq> 0" by (simp add: unat_eq_0)
  from wf_refsD(6)[OF f(10) f(7), of Indirect] rb b0 have rng: "?IB < ?b" "?b < ?B" by simp_all
  have dis: "k = n \<and> s = Indirect"
    if k: "k < ?IB * INODES_PER_BLOCK" and s: "slot_ok s" and e: "?r k s = ?b" for k s
  proof -
    from rb b0 have nz: "?r n Indirect \<noteq> 0" by simp
    from e rb have "?r k s = ?r n Indirect" by simp
    from wf_refsD(7)[OF f(10) f(7) k _ s nz this] show ?thesis by simp
  qed
  from w f(1) have fs': "fs' = fs\<lparr>disk := Some (d\<lparr>image := (image d)(?b := blk), writes := writes d + 1\<rparr>)\<rparr>"
    unfolding fs_disk_write_Inr by auto
  let ?img' = "(image d)(?b := blk)"
  have "wf_refs ?B ?IB (local_ref ?img' n node (?img' ?b)) fb"
  proof (rule wf_refs_cong[OF f(10)])
    fix k s assume k: "k < ?IB * INODES_PER_BLOCK" and s: "slot_ok s"
    show "local_ref ?img' n node (?img' ?b) k s = ?r k s"
    proof (cases "k = n")
      case True
      then show ?thesis by simp
    next
      case False
      have "ref (image d) k Indirect \<noteq> ?b"
      proof
        assume "ref (image d) k Indirect = ?b"
        with False have "?r k Indirect = ?b" by simp
        from dis[OF k _ this] False show False by simp
      qed
      from ref_fun_upd[OF k rng(1) this] False show ?thesis by simp
    qed
  qed
  moreover from rng f(6) have "block_super (?img' 0) = meta_data fs" by simp
  ultimately show ?thesis using f fs'
    by (intro write_invI[of fs' "d\<lparr>image := ?img', writes := writes d + 1\<rparr>" fb])
       (simp_all cong: option.case_cong)
qed

subsection \<open>fs\_write keeps the handle consistent\<close>

lemma fs_allocate_free_block_none:
  assumes "write_inv fs n node ibo" and "fs_allocate_free_block fs = Inr (fs1, 0)"
  shows "fs1 = fs"
proof -
  from assms(1) obtain fb where "free_blocks fs = Some fb" by (rule write_inv_bitmap)
  from fs_allocate_free_block_result[OF assms(2) this] show ?thesis by simp
qed

lemma fs_write_direct_write_inv:
  assumes "write_inv fs n node None"
    and "fs_write_direct fs node data len offset written point
           = Inr (fs', node', len', offset', written', point', jumped)"
  shows "write_inv fs' n node' None"
  using assms
proof (induction fs node data len offset written point rule: fs_write_direct.induct)
  case (1 fs node data len offset written point)
  note inv = "1.prems"(1) and run = "1.prems"(2)
  note simps = fs_write_direct.simps[of fs node data len offset written point]
  show ?case
  proof (cases "point < POINTERS_PER_INODE \<and> 0 < len")
    case False
    with run have "fs' = fs" "node' = node" by (auto simp add: simps)
    with inv show ?thesis by simp
  next
    case c: True
    show ?thesis
    proof (cases "direct node ! point = 0")
      case z: True
      from run c z obtain fs1 b where al: "fs_allocate_free_block fs = Inr (fs1, b)"
        by (cases "fs_allocate_free_block fs") (auto simp add: simps)
      show ?thesis
      proof (cases "b = 0")
        case True
        with run c z al have e: "fs' = fs1" "node' = node\<lparr>direct := (direct node)[point := 0]\<rparr>"
          by (auto simp add: simps)
        from z have "(direct node)[point := 0] = direct node"
          by (metis list_update_id)
        with e have "node' = node" by simp
        moreover from al True fs_allocate_free_block_none[OF inv] have "fs1 = fs" by simp
        ultimately show ?thesis using e inv by simp
      next
        case nz: False
        let ?nd = "node\<lparr>direct := (direct node)[point := b]\<rparr>"
        from c have p: "point < POINTERS_PER_INODE" by simp
        note inv1 = write_inv_alloc_direct[OF inv p z al nz]
        from run c z al nz obtain fs2 len2 off2 w2 where
          wb: "fs_write_block fs1 (unat b) zero_block data len offset written
                 = Inr (fs2, len2, off2, w2)"
          by (cases "fs_write_block fs1 (unat b) zero_block data len offset written")
             (auto simp add: simps)
        with run c z al nz have
          rec: "fs_write_direct fs2 ?nd data len2 off2 w2 (point + 1)
                  = Inr (fs', node', len', offset', written', point', jumped)"
          by (simp add: simps)
        from inv1 obtain d1 where d1: "disk fs1 = Some d1" by (rule write_inv_disk)
        from inv1 have l5: "length (direct node) = 5" unfolding write_inv_def by auto
        have nr: "node_ref ?nd (case None of None \<Rightarrow> image d1 (unat (indirect ?nd)) | Some ib \<Rightarrow> ib)
                    (Direct point) = unat b"
          using p l5 by (simp add: POINTERS_PER_INODE_def)
        have b0: "unat b \<noteq> 0" using nz by (simp add: unat_eq_0)
        have so: "slot_ok (Direct point)" "Direct point \<noteq> Indirect" using p by simp_all
        note inv2 = write_inv_write_block[OF inv1 d1 so nr b0 wb]
        from "1.IH"(1)[OF c z al refl nz wb refl refl refl inv2 rec] show ?thesis .
      qed
    next
      case nz: False
      from c have p: "point < POINTERS_PER_INODE" by simp
      from run c nz obtain fs1 blk where rd: "fs_disk_read fs (unat (direct node ! point)) = Inr (fs1, blk)"
        by (cases "fs_disk_read fs (unat (direct node ! point))") (auto simp add: simps)
      note inv1 = write_inv_same_contents[OF inv fs_disk_read_same_contents[OF rd]]
      from run c nz rd obtain fs2 len2 off2 w2 where
        wb: "fs_write_block fs1 (unat (direct node ! point)) blk data len offset written
               = Inr (fs2, len2, off2, w2)"
        by (cases "fs_write_block fs1 (unat (direct node ! point)) blk data len offset written")
           (auto simp add: simps)
      with run c nz rd have
        rec: "fs_write_direct fs2 node data len2 off2 w2 (point + 1)
                = Inr (fs', node', len', offset', written', point', jumped)"
        by (simp add: simps)
      from inv1 obtain d1 where d1: "disk fs1 = Some d1" by (rule write_inv_disk)
      have nr: "node_ref node (case None of None \<Rightarrow> image d1 (unat (indirect node)) | Some ib \<Rightarrow> ib)
                  (Direct point) = unat (direct node ! point)"
        by simp
      have b0: "unat (direct node ! point) \<noteq> 0" using nz by (simp add: unat_eq_0)
      have so: "slot_ok (Direct point)" "Direct point \<noteq> Indirect" using p by simp_all
      note inv2 = write_inv_write_block[OF inv1 d1 so nr b0 wb]
      from "1.IH"(2)[OF c nz rd refl wb refl refl refl inv2 rec] show ?thesis .
    qed
  qed
qed

lemma fs_write_indirect_write_inv:
  assumes "write_inv fs n node (Some block)"
    and "indirect node \<noteq> 0"
    and "fs_write_indirect fs block data len offset written point
           = Inr (fs', block', len', offset', written')"
  shows "write_inv fs' n node (Some block')"
  using assms
proof (induction fs block data len offset written point rule: fs_write_indirect.induct)
  case (1 fs block data len offset written point)
  note inv = "1.prems"(1) and ind = "1.prems"(2) and run = "1.prems"(3)
  note simps = fs_write_indirect.simps[of fs block data len offset written point]
  show ?case
  proof (cases "0 < len")
    case False
    with run have "fs' = fs" "block' = block" by (auto simp add: simps)
    with inv show ?thesis by simp
  next
    case c: True
    from run c have p: "\<not> POINTERS_PER_BLOCK \<le> point"
      by (auto simp add: simps split: if_splits)
    then have p': "point < POINTERS_PER_BLOCK" by simp
    show ?thesis
    proof (cases "get_u32 block point = 0")
      case z: True
      from run c p z obtain fs1 b where al: "fs_allocate_free_block fs = Inr (fs1, b)"
        by (cases "fs_allocate_free_block fs") (auto simp add: simps)
      show ?thesis
      proof (cases "b = 0")
        case True
        with run c p z al have e: "fs' = fs1" "block' = set_u32 block point 0"
          by (auto simp add: simps)
        from z set_u32_get_u32[of block point] have "set_u32 block point 0 = block" by simp
        with e have "block' = block" by simp
        moreover from al True fs_allocate_free_block_none[OF inv] have "fs1 = fs" by simp
        ultimately show ?thesis using e inv by simp
      next
        case nz: False
        let ?blk = "set_u32 block point b"
        note inv1 = write_inv_alloc_pointer[OF inv ind p' z al nz]
        from run c p z al nz obtain fs2 len2 off2 w2 where
          wb: "fs_write_block fs1 (unat b) zero_block data len offset written
                 = Inr (fs2, len2, off2, w2)"
          by (cases "fs_write_block fs1 (unat b) zero_block data len offset written")
             (auto simp add: simps)
        with run c p z al nz have
          rec: "fs_write_indirect fs2 ?blk data len2 off2 w2 (point + 1)
                  = Inr (fs', block', len', offset', written')"
          by (simp add: simps)
        from inv1 obtain d1 where d1: "disk fs1 = Some d1" by (rule write_inv_disk)
        have nr: "node_ref node (case Some ?blk of None \<Rightarrow> image d1 (unat (indirect node)) | Some ib \<Rightarrow> ib)
                    (Pointer point) = unat b"
          using ind by simp
        have b0: "unat b \<noteq> 0" using nz by (simp add: unat_eq_0)
        have so: "slot_ok (Pointer point)" "Pointer point \<noteq> Indirect" using p' by simp_all
        note inv2 = write_inv_write_block[OF inv1 d1 so nr b0 wb]
        from "1.IH"(1)[OF c p z al refl nz wb refl refl refl inv2 ind rec] show ?thesis .
      qed
    next
      case nz: False
      from run c p nz obtain fs1 blk where
        rd: "fs_disk_read fs (unat (get_u32 block point)) = Inr (fs1, blk)"
        by (cases "fs_disk_read fs (unat (get_u32 block point))") (auto simp add: simps)
      note inv1 = write_inv_same_contents[OF inv fs_disk_read_same_contents[OF rd]]
      from run c p nz rd obtain fs2 len2 off2 w2 where
        wb: "fs_write_block fs1 (unat (get_u32 block point)) blk data len offset written
               = Inr (fs2, len2, off2, w2)"
        by (cases "fs_write_block fs1 (unat (get_u32 block point)) blk data len offset written")
           (auto simp add: simps)
      with run c p nz rd have
        rec: "fs_write_indirect fs2 block data len2 off2 w2 (point + 1)
                = Inr (fs', block', len', offset', written')"
        by (simp add: simps)
      from inv1 obtain d1 where d1: "disk fs1 = Some d1" by (rule write_inv_disk)
      have nr: "node_ref node (case Some block of None \<Rightarrow> image d1 (unat (indirect node)) | Some ib \<Rightarrow> ib)
                  (Pointer point) = unat (get_u32 block point)"
        using ind by simp
      have b0: "unat (get_u32 block point) \<noteq> 0" using nz by (simp add: unat_eq_0)
      have so: "slot_ok (Pointer point)" "Pointer point \<noteq> Indirect" using p' by simp_all
      note inv2 = write_inv_write_block[OF inv1 d1 so nr b0 wb]
      from "1.IH"(2)[OF c p nz rd refl wb refl refl refl inv2 ind rec] show ?thesis .
    qed
  qed
qed

lemma fs_write_indirect_part_write_inv:
  assumes inv: "write_inv fs n node None"
    and run: "fs_write_indirect_part fs node data len offset written point
           = Inr (fs', node', offset', written')"
  shows "write_inv fs' n node' None"
proof -
  note def = fs_write_indirect_part_def[of fs node data len offset written point]
  from run have p: "\<not> point < POINTERS_PER_INODE" by (auto simp add: def split: if_splits)
  show ?thesis
  proof (cases "indirect node = 0")
    case z: True
    with run p have al0: "offset mod BLOCK_SIZE = 0" by (auto simp add: def split: if_splits)
    from run p z al0 obtain fs1 b where al: "fs_allocate_free_block fs = Inr (fs1, b)"
      by (cases "fs_allocate_free_block fs") (auto simp add: def)
    show ?thesis
    proof (cases "b = 0")
      case True
      with run p z al0 al have e: "fs' = fs1" "node' = node\<lparr>indirect := 0\<rparr>"
        by (auto simp add: def)
      from z have "node\<lparr>indirect := 0\<rparr> = node" by simp
      with e have "node' = node" by simp
      moreover from al True fs_allocate_free_block_none[OF inv] have "fs1 = fs" by simp
      ultimately show ?thesis using e inv by simp
    next
      case nz: False
      let ?nd = "node\<lparr>indirect := b\<rparr>"
      note inv1 = write_inv_alloc_indirect[OF inv z al nz]
      have ind: "indirect ?nd \<noteq> 0" using nz by simp
      from run p z al0 al nz obtain fs2 blk2 len2 off2 w2 where
        lp: "fs_write_indirect fs1 zero_block data len offset written (point - POINTERS_PER_INODE)
               = Inr (fs2, blk2, len2, off2, w2)"
        by (cases "fs_write_indirect fs1 zero_block data len offset written
                     (point - POINTERS_PER_INODE)") (auto simp add: def)
      note inv2 = fs_write_indirect_write_inv[OF inv1 ind lp]
      from run p z al0 al nz lp obtain fs3 where
        dw: "fs_disk_write fs2 (unat b) blk2 = Inr fs3"
        by (cases "fs_disk_write fs2 (unat b) blk2") (auto simp add: def)
      with run p z al0 al nz lp have e: "fs' = fs3" "node' = ?nd" by (auto simp add: def)
      from dw have "fs_disk_write fs2 (unat (indirect ?nd)) blk2 = Inr fs3" by simp
      from write_inv_write_indirect[OF inv2 ind this] e show ?thesis by simp
    qed
  next
    case nz: False
    from run p nz obtain fs1 blk where rd: "fs_disk_read fs (unat (indirect node)) = Inr (fs1, blk)"
      by (cases "fs_disk_read fs (unat (indirect node))") (auto simp add: def)
    from inv obtain d where d: "disk fs = Some d" by (rule write_inv_disk)
    from rd d have blk: "blk = image d (unat (indirect node))" unfolding fs_disk_read_Inr by auto
    from write_inv_read_indirect[OF inv d] blk have "write_inv fs n node (Some blk)" by simp
    from write_inv_same_contents[OF this fs_disk_read_same_contents[OF rd]]
    have inv1: "write_inv fs1 n node (Some blk)" .
    from run p nz rd obtain fs2 blk2 len2 off2 w2 where
      lp: "fs_write_indirect fs1 blk data len offset written (point - POINTERS_PER_INODE)
             = Inr (fs2, blk2, len2, off2, w2)"
      by (cases "fs_write_indirect fs1 blk data len offset written (point - POINTERS_PER_INODE)")
         (auto simp add: def)
    note inv2 = fs_write_indirect_write_inv[OF inv1 nz lp]
    from run p nz rd lp obtain fs3 where
      dw: "fs_disk_write fs2 (unat (indirect node)) blk2 = Inr fs3"
      by (cases "fs_disk_write fs2 (unat (indirect node)) blk2") (auto simp add: def)
    with run p nz rd lp have e: "fs' = fs3" "node' = node" by (auto simp add: def)
    from write_inv_write_indirect[OF inv2 nz dw] e show ?thesis by simp
  qed
qed

lemma fs_write_last_consistent:
  assumes "write_inv fs n node None"
    and "fs_write_last fs n node offset written = Inr (fs', r)"
  shows "consistent fs'"
proof -
  from assms(2) have "assert_save_inode fs n
      (node\<lparr>size := (if offset > unat (size node) then of_nat offset else size node)\<rparr>) = Inr fs'"
    by (auto simp add: fs_write_last_def split: sum.splits)
  from write_inv_end[OF assms(1) this] show ?thesis .
qed

lemma fs_write_consistent:
  assumes c: "consistent fs" and w: "fs_write fs n data len offset = Inr (fs', r)"
  shows "consistent fs'"
proof -
  from w obtain fs0 ld where load: "fs_load_inode fs n = Inr (fs0, ld)"
    by (cases "fs_load_inode fs n") (auto simp add: fs_write_def)
  note s0 = fs_load_inode_same_contents[OF load]
  show ?thesis
  proof (cases ld)
    case None
    with w load have "fs' = fs0" by (simp add: fs_write_def)
    with s0 c show ?thesis by (auto intro: consistent_same_contents)
  next
    case (Some node)
    note load' = load[unfolded Some]
    show ?thesis
    proof (cases "offset > unat (size node)")
      case True
      with w load' have "fs' = fs0" by (simp add: fs_write_def)
      with s0 c show ?thesis by (auto intro: consistent_same_contents)
    next
      case False
      note inv0 = write_inv_start[OF c load']
      from w load' False obtain fs1 node1 len1 off1 w1 p1 j1 where
        dl: "fs_write_direct fs0 node data len offset 0 (offset div BLOCK_SIZE)
               = Inr (fs1, node1, len1, off1, w1, p1, j1)"
        by (cases "fs_write_direct fs0 node data len offset 0 (offset div BLOCK_SIZE)")
           (auto simp add: fs_write_def)
      note inv1 = fs_write_direct_write_inv[OF inv0 dl]
      show ?thesis
      proof (cases "\<not> j1 \<and> len1 > 0")
        case F2: False
        with w load' False dl have "fs_write_last fs1 n node1 off1 w1 = Inr (fs', r)"
          by (auto simp add: fs_write_def)
        from fs_write_last_consistent[OF inv1 this] show ?thesis .
      next
        case True
        with w load' False dl obtain fs2 node2 off2 w2 where
          ip: "fs_write_indirect_part fs1 node1 data len1 off1 w1 p1 = Inr (fs2, node2, off2, w2)"
          by (cases "fs_write_indirect_part fs1 node1 data len1 off1 w1 p1")
             (auto simp add: fs_write_def)
        with w load' False dl True have "fs_write_last fs2 n node2 off2 w2 = Inr (fs', r)"
          by (auto simp add: fs_write_def)
        from fs_write_last_consistent[OF fs_write_indirect_part_write_inv[OF inv1 ip] this]
        show ?thesis .
      qed
    qed
  qed
qed

subsection \<open>Sequences of operations keep the handle consistent\<close>

lemma apply_operation_consistent:
  assumes c: "consistent fs" and a: "apply_operation fs x = Inr fs'"
  shows "consistent fs'"
proof (cases x)
  case Create
  with a obtain r where "fs_create fs = Inr (fs', r)"
    by (cases "fs_create fs") auto
  from fs_create_consistent[OF c this] show ?thesis .
next
  case (Remove n)
  with a obtain r where "fs_remove fs n = Inr (fs', r)"
    by (cases "fs_remove fs n") auto
  from fs_remove_consistent[OF c this] show ?thesis .
next
  case (Stat n)
  with a obtain r where "fs_stat fs n = Inr (fs', r)"
    by (cases "fs_stat fs n") auto
  from consistent_same_contents[OF c fs_stat_same_contents[OF this]] show ?thesis .
next
  case (Read n buf len offset)
  with a obtain r where "fs_read fs n buf len offset = Inr (fs', r)"
    by (cases "fs_read fs n buf len offset") auto
  from consistent_same_contents[OF c fs_read_same_contents[OF this]] show ?thesis .
next
  case (Write n buf len offset)
  with a obtain r where "fs_write fs n buf len offset = Inr (fs', r)"
    by (cases "fs_write fs n buf len offset") auto
  from fs_write_consistent[OF c this] show ?thesis .
qed

lemma run_consistent:
  assumes "consistent fs" and "run fs ops = Inr fs'"
  shows "consistent fs'"
  using assms
proof (induction ops arbitrary: fs)
  case Nil
  then show ?case by simp
next
  case (Cons x xs)
  from Cons.prems(2) obtain fs1 where a: "apply_operation fs x = Inr fs1"
    and r: "run fs1 xs = Inr fs'"
    by (cases "apply_operation fs x") auto
  from Cons.IH[OF apply_operation_consistent[OF Cons.prems(1) a] r] show ?case .
qed

subsection \<open>Building the bitmap at mount\<close>

lemma marked_within_set:
  assumes m: "marked_within sb img B fb lo fs" and x: "x < B" "fb ! x"
  shows "\<exists>fs'. set_free_block fs x True = Inr fs' \<and> marked_within sb img B fb lo fs'
           \<and> (x = lo \<longrightarrow> marked_within sb img B fb (Suc lo) fs')"
proof -
  from m obtain d fbR where f: "disk fs = Some d" "image d = img" "disk_blocks d = B"
    "meta_data fs = sb" "free_blocks fs = Some fbR" "length fbR = B"
    and up: "\<forall>b < B. fbR ! b \<longrightarrow> fb ! b" and low: "\<forall>b < lo. fbR ! b"
    unfolding marked_within_def by blast
  let ?fs = "fs\<lparr>free_blocks := Some (fbR[x := True])\<rparr>"
  have s: "set_free_block fs x True = Inr ?fs"
    using f x by (simp add: set_free_block_def)
  have up': "\<forall>b < B. (fbR[x := True]) ! b \<longrightarrow> fb ! b"
    using up x f(6) by (simp add: nth_list_update)
  have low': "\<forall>b < lo. (fbR[x := True]) ! b"
  proof (intro allI impI)
    fix b assume b: "b < lo"
    show "(fbR[x := True]) ! b"
    proof (cases "b < B")
      case True
      with low b f(6) x show ?thesis by (auto simp add: nth_list_update)
    next
      case False
      with x have "b \<noteq> x" by auto
      with low b show ?thesis by simp
    qed
  qed
  have low'': "x = lo \<longrightarrow> (\<forall>b < Suc lo. (fbR[x := True]) ! b)"
  proof (intro allI impI)
    fix b assume e: "x = lo" and b: "b < Suc lo"
    show "(fbR[x := True]) ! b"
    proof (cases "b = lo")
      case True
      with e x f(6) show ?thesis by simp
    next
      case False
      with b have "b < lo" by simp
      with low' show ?thesis by simp
    qed
  qed
  have m1: "marked_within sb img B fb lo ?fs"
    unfolding marked_within_def using f up' low' by simp
  have m2: "x = lo \<longrightarrow> marked_within sb img B fb (Suc lo) ?fs"
    unfolding marked_within_def using f up' low'' by simp
  from s m1 m2 show ?thesis by blast
qed

lemma marked_within_read:
  assumes m: "marked_within sb img B fb lo fs" and x: "x < B"
  shows "\<exists>fs'. fs_disk_read fs x = Inr (fs', img x) \<and> marked_within sb img B fb lo fs'"
proof -
  from m obtain d fbR where f: "disk fs = Some d" "image d = img" "disk_blocks d = B"
    "meta_data fs = sb" "free_blocks fs = Some fbR" "length fbR = B"
    and up: "\<forall>b < B. fbR ! b \<longrightarrow> fb ! b" and low: "\<forall>b < lo. fbR ! b"
    unfolding marked_within_def by blast
  let ?fs = "fs\<lparr>disk := Some (d\<lparr>reads := reads d + 1\<rparr>)\<rparr>"
  have "fs_disk_read fs x = Inr (?fs, img x)"
    unfolding fs_disk_read_Inr using f x by simp
  moreover have "marked_within sb img B fb lo ?fs"
    unfolding marked_within_def using f up low by simp
  ultimately show ?thesis by blast
qed

lemma set_direct_blocks_marked:
  assumes "marked_within sb img B fb lo fs" and "v"
    and "\<forall>j < POINTERS_PER_INODE. direct inode ! j \<noteq> 0
           \<longrightarrow> unat (direct inode ! j) < B \<and> fb ! unat (direct inode ! j)"
  shows "\<exists>fs'. set_direct_blocks fs inode v j = Inr fs' \<and> marked_within sb img B fb lo fs'"
  using assms
proof (induction fs inode v j rule: set_direct_blocks.induct)
  case (1 fs inode v j)
  note m = "1.prems"(1) and v = "1.prems"(2) and ok = "1.prems"(3)
  show ?case
  proof (cases "j < POINTERS_PER_INODE \<and> direct inode ! j \<noteq> 0")
    case False
    then have "set_direct_blocks fs inode v j = Inr fs"
      by (auto simp add: set_direct_blocks.simps[of fs inode v j])
    with m show ?thesis by simp
  next
    case True
    with ok have x: "unat (direct inode ! j) < B" "fb ! unat (direct inode ! j)" by auto
    from marked_within_set[OF m x] v obtain fs1 where
      s: "set_free_block fs (unat (direct inode ! j)) v = Inr fs1"
      and m1: "marked_within sb img B fb lo fs1" by auto
    from True have c: "j < POINTERS_PER_INODE" "direct inode ! j \<noteq> 0" by simp_all
    from "1.IH"[OF c s m1 v ok] obtain fs' where
      "set_direct_blocks fs1 inode v (j + 1) = Inr fs'" "marked_within sb img B fb lo fs'"
      by blast
    with True s show ?thesis by (simp add: set_direct_blocks.simps[of fs inode v j])
  qed
qed

lemma set_pointer_blocks_marked:
  assumes "marked_within sb img B fb lo fs" and "v"
    and "\<forall>j < POINTERS_PER_BLOCK. get_u32 block j \<noteq> 0
           \<longrightarrow> unat (get_u32 block j) < B \<and> fb ! unat (get_u32 block j)"
  shows "\<exists>fs' i. set_pointer_blocks fs block v j = Inr (fs', i)
           \<and> marked_within sb img B fb lo fs'"
  using assms
proof (induction fs block v j rule: set_pointer_blocks.induct)
  case (1 fs block v j)
  note m = "1.prems"(1) and v = "1.prems"(2) and ok = "1.prems"(3)
  show ?case
  proof (cases "j < POINTERS_PER_BLOCK \<and> get_u32 block j \<noteq> 0")
    case False
    then have "set_pointer_blocks fs block v j = Inr (fs, j)"
      by (auto simp add: set_pointer_blocks.simps[of fs block v j])
    with m show ?thesis by simp
  next
    case True
    with ok have x: "unat (get_u32 block j) < B" "fb ! unat (get_u32 block j)" by auto
    from marked_within_set[OF m x] v obtain fs1 where
      s: "set_free_block fs (unat (get_u32 block j)) v = Inr fs1"
      and m1: "marked_within sb img B fb lo fs1" by auto
    from True have c: "j < POINTERS_PER_BLOCK" "get_u32 block j \<noteq> 0" by simp_all
    from "1.IH"[OF c s m1 v ok] obtain fs' i where
      "set_pointer_blocks fs1 block v (j + 1) = Inr (fs', i)" "marked_within sb img B fb lo fs'"
      by blast
    with True s show ?thesis by (simp add: set_pointer_blocks.simps[of fs block v j])
  qed
qed

lemma bitmap_inodes_marked:
  assumes "marked_within sb img B fb lo fs"
    and "\<forall>p < INODES_PER_BLOCK. \<forall>s. valid (block_inode b p) \<noteq> 0 \<and> slot_ok s
            \<and> node_ref (block_inode b p) (img (unat (indirect (block_inode b p)))) s \<noteq> 0
          \<longrightarrow> node_ref (block_inode b p) (img (unat (indirect (block_inode b p)))) s < B
              \<and> fb ! node_ref (block_inode b p) (img (unat (indirect (block_inode b p)))) s"
  shows "\<exists>fs'. bitmap_inodes fs b p = Inr fs' \<and> marked_within sb img B fb lo fs'"
  using assms
proof (induction fs b p rule: bitmap_inodes.induct)
  case (1 fs b p)
  note m = "1.prems"(1) and ok = "1.prems"(2)
  note simps = bitmap_inodes.simps[of fs b p]
  show ?case
  proof (cases "p < INODES_PER_BLOCK")
    case False
    then have "bitmap_inodes fs b p = Inr fs" by (simp add: simps)
    with m show ?thesis by simp
  next
    case p: True
    let ?nd = "block_inode b p"
    let ?ib = "img (unat (indirect ?nd))"
    show ?thesis
    proof (cases "valid ?nd = 0")
      case z: True
      from "1.IH"(1)[OF p z m ok] p z show ?thesis by (simp add: simps)
    next
      case nz: False
      have r: "slot_ok s \<Longrightarrow> node_ref ?nd ?ib s \<noteq> 0
                 \<Longrightarrow> node_ref ?nd ?ib s < B \<and> fb ! node_ref ?nd ?ib s" for s
        using ok p nz by blast
      have dok: "\<forall>j < POINTERS_PER_INODE. direct ?nd ! j \<noteq> 0
                   \<longrightarrow> unat (direct ?nd ! j) < B \<and> fb ! unat (direct ?nd ! j)"
      proof (intro allI impI)
        fix j assume j: "j < POINTERS_PER_INODE" and n: "direct ?nd ! j \<noteq> 0"
        from r[of "Direct j"] j n
        show "unat (direct ?nd ! j) < B \<and> fb ! unat (direct ?nd ! j)"
          by (simp add: unat_eq_0)
      qed
      from set_direct_blocks_marked[OF m TrueI dok, of 0] obtain fs1 where
        sd: "set_direct_blocks fs ?nd True 0 = Inr fs1"
        and m1: "marked_within sb img B fb lo fs1" by blast
      show ?thesis
      proof (cases "indirect ?nd = 0")
        case iz: True
        from "1.IH"(2)[OF p nz sd iz m1 ok] p nz sd iz show ?thesis by (simp add: simps)
      next
        case inz: False
        from r[of Indirect] inz
        have x: "unat (indirect ?nd) < B" "fb ! unat (indirect ?nd)"
          by (simp_all add: unat_eq_0)
        from marked_within_set[OF m1 x] obtain fs2 where
          sf: "set_free_block fs1 (unat (indirect ?nd)) True = Inr fs2"
          and m2: "marked_within sb img B fb lo fs2" by blast
        from marked_within_read[OF m2 x(1)] obtain fs3 where
          rd: "fs_disk_read fs2 (unat (indirect ?nd)) = Inr (fs3, ?ib)"
          and m3: "marked_within sb img B fb lo fs3" by blast
        have pok: "\<forall>j < POINTERS_PER_BLOCK. get_u32 ?ib j \<noteq> 0
                     \<longrightarrow> unat (get_u32 ?ib j) < B \<and> fb ! unat (get_u32 ?ib j)"
        proof (intro allI impI)
          fix j assume j: "j < POINTERS_PER_BLOCK" and n: "get_u32 ?ib j \<noteq> 0"
          from r[of "Pointer j"] j n inz
          show "unat (get_u32 ?ib j) < B \<and> fb ! unat (get_u32 ?ib j)"
            by (simp add: unat_eq_0)
        qed
        from set_pointer_blocks_marked[OF m3 TrueI pok, of 0] obtain fs4 i where
          sp: "set_pointer_blocks fs3 ?ib True 0 = Inr (fs4, i)"
          and m4: "marked_within sb img B fb lo fs4" by blast
        from "1.IH"(3)[OF p nz sd inz sf rd refl sp refl m4 ok] p nz sd inz sf rd sp
        show ?thesis by (simp add: simps)
      qed
    qed
  qed
qed

lemma inode_at_block:
  assumes "0 < i" and "p < INODES_PER_BLOCK"
  shows "inode_at img ((i - 1) * INODES_PER_BLOCK + p) = block_inode (img i) p"
  using assms by (simp add: inode_at_def)

lemma bitmap_inode_blocks_marked:
  assumes "marked_within sb img B fb i fs" and "wf_refs B n (ref img) fb"
    and "0 < i" and "i \<le> n + 1"
  shows "\<exists>fs'. bitmap_inode_blocks fs n i = Inr fs' \<and> marked_within sb img B fb (n + 1) fs'"
  using assms
proof (induction fs n i rule: bitmap_inode_blocks.induct)
  case (1 fs n i)
  note m = "1.prems"(1) and wf = "1.prems"(2) and i0 = "1.prems"(3) and il = "1.prems"(4)
  note simps = bitmap_inode_blocks.simps[of fs n i]
  note w = wf_refsD[OF wf]
  show ?case
  proof (cases "i \<le> n")
    case False
    with il have "i = n + 1" by simp
    moreover from False have "bitmap_inode_blocks fs n i = Inr fs" by (simp add: simps)
    ultimately show ?thesis using m by simp
  next
    case c: True
    with w(3) have iB: "i < B" by simp
    from w(5)[OF c] have fi: "fb ! i" .
    from marked_within_set[OF m iB fi] obtain fs1 where
      sf: "set_free_block fs i True = Inr fs1"
      and m1: "marked_within sb img B fb (Suc i) fs1" by blast
    from marked_within_read[OF m1 iB] obtain fs2 where
      rd: "fs_disk_read fs1 i = Inr (fs2, img i)"
      and m2: "marked_within sb img B fb (Suc i) fs2" by blast
    have ok: "\<forall>p < INODES_PER_BLOCK. \<forall>s. valid (block_inode (img i) p) \<noteq> 0 \<and> slot_ok s
            \<and> node_ref (block_inode (img i) p)
                 (img (unat (indirect (block_inode (img i) p)))) s \<noteq> 0
          \<longrightarrow> node_ref (block_inode (img i) p)
                 (img (unat (indirect (block_inode (img i) p)))) s < B
              \<and> fb ! node_ref (block_inode (img i) p)
                       (img (unat (indirect (block_inode (img i) p)))) s"
    proof (intro allI impI)
      fix p s
      let ?k = "(i - 1) * INODES_PER_BLOCK + p"
      let ?nd = "block_inode (img i) p"
      assume p: "p < INODES_PER_BLOCK"
        and a: "valid ?nd \<noteq> 0 \<and> slot_ok s \<and> node_ref ?nd (img (unat (indirect ?nd))) s \<noteq> 0"
      have e: "inode_at img ?k = ?nd" using i0 p by (rule inode_at_block)
      from a e have rf: "ref img ?k s = node_ref ?nd (img (unat (indirect ?nd))) s"
        by (simp add: ref_def)
      have "?k < (i - 1) * INODES_PER_BLOCK + INODES_PER_BLOCK" using p by simp
      also have "\<dots> = i * INODES_PER_BLOCK" using i0
        by (cases i) simp_all
      also have "\<dots> \<le> n * INODES_PER_BLOCK" using c by simp
      finally have k: "?k < n * INODES_PER_BLOCK" .
      from a rf have "slot_ok s" "ref img ?k s \<noteq> 0" by simp_all
      from w(6)[OF k this] rf
      show "node_ref ?nd (img (unat (indirect ?nd))) s < B
              \<and> fb ! node_ref ?nd (img (unat (indirect ?nd))) s" by simp
    qed
    from bitmap_inodes_marked[OF m2 ok, of 0] obtain fs3 where
      bi: "bitmap_inodes fs2 (img i) 0 = Inr fs3"
      and m3: "marked_within sb img B fb (Suc i) fs3" by blast
    from iB w(4) have ne: "i \<noteq> 2 ^ 32 - 1" by simp
    from m3 have m3': "marked_within sb img B fb (i + 1) fs3" by simp
    from c have "i + 1 \<le> n + 1" by simp
    from "1.IH"[OF c sf rd refl bi ne m3' wf _ this] obtain fs' where
      "bitmap_inode_blocks fs3 n (i + 1) = Inr fs'" "marked_within sb img B fb (n + 1) fs'"
      by auto
    with c sf rd bi ne show ?thesis by (simp add: simps)
  qed
qed

lemma fs_initialize_free_block_bitmap_marked:
  assumes d: "disk fs = Some d"
    and wf: "wf_refs (disk_blocks d) IB (ref (image d)) fb"
    and B: "unat (blocks (meta_data fs)) = disk_blocks d"
    and IB: "unat (inode_blocks (meta_data fs)) = IB"
  shows "\<exists>fs'. fs_initialize_free_block_bitmap fs = Inr (fs', True)
           \<and> marked_within (meta_data fs) (image d) (disk_blocks d) fb (IB + 1) fs'"
proof -
  note w = wf_refsD[OF wf]
  let ?fs = "fs\<lparr>free_blocks := Some (replicate (unat (blocks (meta_data fs))) False)\<rparr>"
  have m0: "marked_within (meta_data fs) (image d) (disk_blocks d) fb 0 ?fs"
    unfolding marked_within_def using d B by simp
  from w(2,3) have b0: "0 < disk_blocks d" by simp
  from w(5)[of 0] have f0: "fb ! 0" by simp
  from marked_within_set[OF m0 b0 f0] obtain fs1 where
    s: "set_free_block ?fs 0 True = Inr fs1"
    and m1: "marked_within (meta_data fs) (image d) (disk_blocks d) fb (Suc 0) fs1" by blast
  from bitmap_inode_blocks_marked[OF m1 wf] obtain fs2 where
    "bitmap_inode_blocks fs1 IB (Suc 0) = Inr fs2"
    "marked_within (meta_data fs) (image d) (disk_blocks d) fb (IB + 1) fs2" by auto
  with s IB show ?thesis by (simp add: fs_initialize_free_block_bitmap_def)
qed

lemma fs_mount_marked:
  assumes n: "disk fs = None"
    and mg: "magic_number (block_super (image d 0)) = MAGIC_NUMBER"
    and B: "unat (blocks (block_super (image d 0))) = disk_blocks d"
    and I: "unat (inodes (block_super (image d 0)))
              = unat (inode_blocks (block_super (image d 0))) * INODES_PER_BLOCK"
    and wf: "wf_refs (disk_blocks d) (unat (inode_blocks (block_super (image d 0))))
               (ref (image d)) fb"
  shows "\<exists>fs' d'. fs_mount fs d = Inr (True, fs', d')
           \<and> marked_within (block_super (image d 0)) (image d) (disk_blocks d) fb
                (unat (inode_blocks (block_super (image d 0))) + 1) fs'"
proof -
  note w = wf_refsD[OF wf]
  let ?d = "d\<lparr>reads := reads d + 1\<rparr>"
  let ?fs = "fs\<lparr>disk := Some ?d, meta_data := block_super (image d 0)\<rparr>"
  from w(2,3) have rd: "disk_read d 0 = Some (?d, image d 0)"
    by (simp add: disk_read_def disk_sanity_check_def)
  have "\<exists>fs'. fs_initialize_free_block_bitmap ?fs = Inr (fs', True)
           \<and> marked_within (meta_data ?fs) (image ?d) (disk_blocks ?d) fb
                (unat (inode_blocks (block_super (image d 0))) + 1) fs'"
    by (rule fs_initialize_free_block_bitmap_marked) (use wf B in simp_all)
  then obtain fs' where
    i: "fs_initialize_free_block_bitmap ?fs = Inr (fs', True)"
    and m: "marked_within (block_super (image d 0)) (image d) (disk_blocks d) fb
             (unat (inode_blocks (block_super (image d 0))) + 1) fs'" by auto
  from n rd mg B I i have "fs_mount fs d = Inr (True, fs', (case disk fs' of None \<Rightarrow> ?d | Some d' \<Rightarrow> d'))"
    by (simp add: fs_mount_def cong: option.case_cong)
  with m show ?thesis by blast
qed

lemma remount_marked:
  assumes c: "consistent fs" and fb: "free_blocks fs = Some fb"
  shows "\<exists>fs' fbR. remount fs = Inr fs' \<and> meta_data fs' = meta_data fs
           \<and> free_blocks fs' = Some fbR \<and> length fbR = length fb
           \<and> (\<forall>b < length fb. fbR ! b \<longrightarrow> fb ! b)
           \<and> (\<forall>b \<le> unat (inode_blocks (meta_data fs)). fbR ! b)"
proof -
  from c obtain d fb' where f: "disk fs = Some d" "free_blocks fs = Some fb'"
    "disk_blocks d = unat (blocks (meta_data fs))"
    "unat (inodes (meta_data fs)) = unat (inode_blocks (meta_data fs)) * INODES_PER_BLOCK"
    "magic_number (meta_data fs) = MAGIC_NUMBER"
    "block_super (image d 0) = meta_data fs"
    "wf_refs (unat (blocks (meta_data fs))) (unat (inode_blocks (meta_data fs))) (ref (image d)) fb'"
    by (rule consistentD)
  from f(2) fb have e: "fb' = fb" by simp
  note w = wf_refsD[OF f(7)]
  have "\<exists>fs' d'. fs_mount (fs_unmount fs) d = Inr (True, fs', d')
           \<and> marked_within (block_super (image d 0)) (image d) (disk_blocks d) fb
                (unat (inode_blocks (block_super (image d 0))) + 1) fs'"
    by (rule fs_mount_marked) (use f e in \<open>simp_all add: fs_unmount_def\<close>)
  then obtain fs' d' where mt: "fs_mount (fs_unmount fs) d = Inr (True, fs', d')"
    and m: "marked_within (meta_data fs) (image d) (disk_blocks d) fb
              (unat (inode_blocks (meta_data fs)) + 1) fs'"
    using f(6) by auto
  from m obtain fbR where r: "meta_data fs' = meta_data fs" "free_blocks fs' = Some fbR"
    "length fbR = disk_blocks d" "\<forall>b < disk_blocks d. fbR ! b \<longrightarrow> fb ! b"
    "\<forall>b < unat (inode_blocks (meta_data fs)) + 1. fbR ! b"
    unfolding marked_within_def by blast
  from mt f(1) have "remount fs = Inr fs'" by (simp add: remount_def)
  moreover from r(3) w(1) f(3) e have "length fbR = length fb" by simp
  moreover from r(4) w(1) f(3) e have "\<forall>b < length fb. fbR ! b \<longrightarrow> fb ! b" by simp
  moreover from r(5) have "\<forall>b \<le> unat (inode_blocks (meta_data fs)). fbR ! b" by simp
  ultimately show ?thesis using r(1,2) by blast
qed

subsection \<open>A freshly formatted and mounted disk\<close>

lemma format_clear_result:
  assumes "format_clear d i = Inr d'"
  shows "disk_blocks d' = disk_blocks d
           \<and> (\<forall>b. image d' b = (if i \<le> b \<and> b < disk_blocks d then zero_block else image d b))"
  using assms
proof (induction d i rule: format_clear.induct)
  case (1 d i)
  note simps = format_clear.simps[of d i]
  show ?case
  proof (cases "i < disk_blocks d")
    case False
    with "1.prems" have "d' = d" by (simp add: simps)
    with False show ?thesis by auto
  next
    case c: True
    let ?d = "d\<lparr>image := (image d)(i := zero_block), writes := writes d + 1\<rparr>"
    from c have w: "disk_write d i zero_block = Some ?d"
      by (simp add: disk_write_def disk_sanity_check_def)
    from "1.prems" c w have ne: "i \<noteq> 2 ^ 31 - 1" and rec: "format_clear ?d (i + 1) = Inr d'"
      by (auto simp add: simps split: if_splits)
    from "1.IH"[OF c w ne rec] have
      IH: "disk_blocks d' = disk_blocks d"
      "\<And>b. image d' b = (if i + 1 \<le> b \<and> b < disk_blocks d then zero_block
                           else ((image d)(i := zero_block)) b)"
      by simp_all
    have "image d' b = (if i \<le> b \<and> b < disk_blocks d then zero_block else image d b)" for b
      unfolding IH(2) using c by auto
    with IH(1) show ?thesis by simp
  qed
qed

lemma fs_format_result:
  assumes "fs_format fs d = Inr (True, d')"
  shows "disk fs = None \<and> 2 \<le> disk_blocks d \<and> disk_blocks d' = disk_blocks d
           \<and> block_super (image d' 0) =
               \<lparr>magic_number = MAGIC_NUMBER,
                blocks = of_nat (disk_blocks d),
                inode_blocks = of_nat (if disk_blocks d div 10 = 0 then 1 else disk_blocks d div 10),
                inodes = of_nat ((if disk_blocks d div 10 = 0 then 1 else disk_blocks d div 10)
                                  * INODES_PER_BLOCK)\<rparr>
           \<and> (\<forall>b. 0 < b \<and> b < disk_blocks d \<longrightarrow> image d' b = zero_block)"
proof -
  define sb where "sb = \<lparr>magic_number = MAGIC_NUMBER,
                blocks = of_nat (disk_blocks d),
                inode_blocks = of_nat (if disk_blocks d div 10 = 0 then 1 else disk_blocks d div 10),
                inodes = of_nat ((if disk_blocks d div 10 = 0 then 1 else disk_blocks d div 10)
                                  * INODES_PER_BLOCK)\<rparr>"
  define dA where
    "dA = d\<lparr>image := (image d)(0 := set_block_super zero_block sb), writes := writes d + 1\<rparr>"
  from assms have a: "disk fs = None" "2 \<le> disk_blocks d"
    by (auto simp add: fs_format_def split: if_splits)
  then have w: "disk_write d 0 (set_block_super zero_block sb) = Some dA"
    by (simp add: disk_write_def disk_sanity_check_def dA_def)
  from assms have fc: "format_clear dA 1 = Inr d'"
    unfolding fs_format_def sb_def[symmetric] using a w
    by (auto split: sum.splits if_splits)
  from format_clear_result[OF fc] have
    r: "disk_blocks d' = disk_blocks d"
    "\<And>b. image d' b = (if 1 \<le> b \<and> b < disk_blocks d then zero_block
                        else ((image d)(0 := set_block_super zero_block sb)) b)"
    by (simp_all add: dA_def)
  from r(2)[of 0] have "image d' 0 = set_block_super zero_block sb" by simp
  then have "block_super (image d' 0) = sb" by (simp only: block_super_set_block_super)
  moreover from r(2) have "\<forall>b. 0 < b \<and> b < disk_blocks d \<longrightarrow> image d' b = zero_block"
    by simp
  ultimately show ?thesis unfolding sb_def[symmetric] using a r(1) by blast
qed

lemma wf_refs_no_refs:
  assumes "length fb = B" "0 < IB" "IB < B" "B < 2 ^ 32" "\<forall>b \<le> IB. fb ! b"
    and "\<forall>k s. k < IB * INODES_PER_BLOCK \<longrightarrow> r k s = 0"
  shows "wf_refs B IB r fb"
  unfolding wf_refs_def using assms by fastforce

lemma format_and_mount_consistent:
  assumes "format_and_mount fs0 d0 = Inr fs"
  shows "consistent fs"
proof -
  from assms obtain d1 where fm: "fs_format fs0 d0 = Inr (True, d1)"
    by (cases "fs_format fs0 d0") (auto simp add: format_and_mount_def split: if_splits)
  with assms obtain d2 where mt: "fs_mount fs0 d1 = Inr (True, fs, d2)"
    by (cases "fs_mount fs0 d1") (auto simp add: format_and_mount_def split: if_splits)
  define B where "B = disk_blocks d0"
  define IB where "IB = (if B div 10 = 0 then 1 else B div 10)"
  define sb where "sb = block_super (image d1 0)"
  from fs_format_result[OF fm] have f: "disk fs0 = None" "2 \<le> B" "disk_blocks d1 = B"
    "sb = \<lparr>magic_number = MAGIC_NUMBER, blocks = of_nat B, inode_blocks = of_nat IB,
           inodes = of_nat (IB * INODES_PER_BLOCK)\<rparr>"
    "\<And>b. 0 < b \<Longrightarrow> b < B \<Longrightarrow> image d1 b = zero_block"
    unfolding B_def IB_def sb_def by simp_all
  from f(2,3) have rd: "disk_read d1 0 = Some (d1\<lparr>reads := reads d1 + 1\<rparr>, image d1 0)"
    by (simp add: disk_read_def disk_sanity_check_def)
  from mt f(1) rd have chk: "magic_number sb = MAGIC_NUMBER"
    "unat (blocks sb) = B"
    "unat (inodes sb) = unat (inode_blocks sb) * INODES_PER_BLOCK"
    unfolding sb_def fs_mount_def using f(3)
    by (auto split: if_splits)
  from chk(2) f(4) have "unat (of_nat B :: u32) = B" by simp
  moreover have "unat (of_nat B :: u32) < 2 ^ 32"
    using unsigned_less[of "of_nat B :: u32"] by simp
  ultimately have B32: "B < 2 ^ 32" by simp
  from f(2) have IBb: "0 < IB" "IB < B" unfolding IB_def by (auto split: if_splits)
  with B32 have "IB < 2 ^ 32" by simp
  then have uIB: "unat (of_nat IB :: u32) = IB" by (simp add: unat_of_nat)
  with f(4) have sIB: "unat (inode_blocks sb) = IB" by simp
  have noref: "\<forall>k s. k < IB * INODES_PER_BLOCK \<longrightarrow> ref (image d1) k s = 0"
  proof (intro allI impI)
    fix k s assume "k < IB * INODES_PER_BLOCK"
    from inode_block_le[OF this] IBb have "0 < k div INODES_PER_BLOCK + 1"
      "k div INODES_PER_BLOCK + 1 < B" by simp_all
    from f(5)[OF this] have "inode_at (image d1) k = zero_inode"
      by (simp add: inode_at_def)
    then show "ref (image d1) k s = 0" by (simp add: ref_def zero_inode_def)
  qed
  have wf1: "wf_refs (disk_blocks d1) (unat (inode_blocks (block_super (image d1 0))))
               (ref (image d1)) (replicate B True)"
    unfolding f(3) sb_def[symmetric] sIB
    by (rule wf_refs_no_refs) (use IBb B32 noref in simp_all)
  have "\<exists>fs' d'. fs_mount fs0 d1 = Inr (True, fs', d')
           \<and> marked_within (block_super (image d1 0)) (image d1) (disk_blocks d1)
                (replicate B True)
                (unat (inode_blocks (block_super (image d1 0))) + 1) fs'"
    by (rule fs_mount_marked[OF f(1) _ _ _ wf1])
       (use chk f(3) in \<open>simp_all add: sb_def\<close>)
  with mt have m: "marked_within sb (image d1) B (replicate B True) (IB + 1) fs"
    unfolding sb_def[symmetric] sIB f(3) by auto
  then obtain d fbR where r: "disk fs = Some d" "image d = image d1" "disk_blocks d = B"
    "meta_data fs = sb" "free_blocks fs = Some fbR" "length fbR = B" "\<forall>b < IB + 1. fbR ! b"
    unfolding marked_within_def by blast
  have wf: "wf_refs B IB (ref (image d1)) fbR"
    by (rule wf_refs_no_refs) (use IBb B32 noref r(6,7) in simp_all)
  show ?thesis
  proof (rule consistentI[OF r(1) r(5)])
    show "disk_blocks d = unat (blocks (meta_data fs))" using r(3,4) chk(2) by simp
    show "unat (inodes (meta_data fs)) = unat (inode_blocks (meta_data fs)) * INODES_PER_BLOCK"
      using r(4) chk(3) by simp
    show "magic_number (meta_data fs) = MAGIC_NUMBER" using r(4) chk(1) by simp
    show "block_super (image d 0) = meta_data fs" using r(2,4) by (simp add: sb_def)
    show "wf_refs (unat (blocks (meta_data fs))) (unat (inode_blocks (meta_data fs)))
            (ref (image d)) fbR"
      using wf r(2,4) chk(2) sIB by simp
  qed
qed

subsection \<open>Writing past the last pointer of the indirect block\<close>

lemma first_free_bound:
  assumes "first_free B a fs"
  shows "B < 2 ^ 32"
proof -
  from assms have "unat (blocks (meta_data fs)) = B" unfolding first_free_def by blast
  moreover have "unat (blocks (meta_data fs)) < 2 ^ 32"
    using unsigned_less[of "blocks (meta_data fs)"] by simp
  ultimately show ?thesis by simp
qed

lemma mark_first_free:
  assumes "a < B"
  shows "(replicate a True @ replicate (B - a) False)[a := True]
           = replicate (a + 1) True @ replicate (B - (a + 1)) False"
proof -
  from assms obtain m where m: "B - a = Suc m" by (cases "B - a") auto
  then have m': "B - (a + 1) = m" by simp
  have "(replicate a True @ replicate (Suc m) False)[a := True]
          = replicate a True @ True # replicate m False"
    using list_update_length[of "replicate a True" False "replicate m False" True] by simp
  also have "\<dots> = replicate (a + 1) True @ replicate m False"
    by (simp add: replicate_app_Cons_same)
  finally show ?thesis unfolding m m' .
qed

lemma allocate_scan_first_free:
  assumes ff: "first_free B a fs" and a: "a < B" and i: "i \<le> a"
  shows "allocate_scan fs i
           = Inr (fs\<lparr>free_blocks := Some (replicate (a + 1) True @ replicate (B - (a + 1)) False)\<rparr>,
                  of_nat a)"
  using i
proof (induction "a - i" arbitrary: i)
  case 0
  then have e: "i = a" by simp
  from ff obtain d where f: "unat (blocks (meta_data fs)) = B"
    "free_blocks fs = Some (replicate a True @ replicate (B - a) False)"
    unfolding first_free_def by blast
  from a f have g: "get_free_block fs a = Inr False"
    by (simp add: get_free_block_def nth_append)
  from a f have s: "set_free_block fs a True
      = Inr (fs\<lparr>free_blocks := Some ((replicate a True @ replicate (B - a) False)[a := True])\<rparr>)"
    by (simp add: set_free_block_def)
  show ?case
    unfolding e allocate_scan.simps[of fs a] g s mark_first_free[OF a] using a f(1) by simp
next
  case (Suc k)
  then have l: "i < a" by simp
  from ff obtain d where f: "unat (blocks (meta_data fs)) = B"
    "free_blocks fs = Some (replicate a True @ replicate (B - a) False)"
    unfolding first_free_def by blast
  from a l f have g: "get_free_block fs i = Inr True"
    by (simp add: get_free_block_def nth_append)
  from Suc.hyps(2) l have "k = a - (i + 1)" "i + 1 \<le> a" by simp_all
  from Suc.hyps(1)[OF this] have r: "allocate_scan fs (i + 1)
           = Inr (fs\<lparr>free_blocks := Some (replicate (a + 1) True @ replicate (B - (a + 1)) False)\<rparr>,
                  of_nat a)" .
  show ?case
    unfolding allocate_scan.simps[of fs i] g r using a l f(1) by simp
qed

lemma fs_allocate_free_block_first_free:
  assumes ff: "first_free B a fs" and a: "a < B"
  shows "\<exists>fs'. fs_allocate_free_block fs = Inr (fs', of_nat a) \<and> first_free B (a + 1) fs'
           \<and> (of_nat a :: u32) \<noteq> 0 \<and> unat (of_nat a :: u32) = a"
proof -
  from ff have a0: "0 < a" unfolding first_free_def by blast
  then have "Suc 0 \<le> a" by simp
  from allocate_scan_first_free[OF ff a this]
  have al: "fs_allocate_free_block fs
       = Inr (fs\<lparr>free_blocks := Some (replicate (a + 1) True @ replicate (B - (a + 1)) False)\<rparr>,
              of_nat a)"
    by (simp add: fs_allocate_free_block_def)
  from ff a have ff': "first_free B (a + 1)
      (fs\<lparr>free_blocks := Some (replicate (a + 1) True @ replicate (B - (a + 1)) False)\<rparr>)"
    unfolding first_free_def by auto
  from first_free_bound[OF ff] a have "a < 2 ^ 32" by simp
  then have u: "unat (of_nat a :: u32) = a" by (simp add: unat_of_nat)
  with a0 have "(of_nat a :: u32) \<noteq> 0" by (metis less_numeral_extra(3) unat_0)
  with al ff' u show ?thesis by blast
qed

lemma fs_write_block_first_free:
  assumes ff: "first_free B a fs" and b: "b < B"
    and al: "offset mod BLOCK_SIZE = 0" and len: "BLOCK_SIZE \<le> len"
    and sz: "offset + len < 2 ^ 64"
  shows "\<exists>fs'. fs_write_block fs b blk data len offset written
                 = Inr (fs', len - BLOCK_SIZE, offset + BLOCK_SIZE, written + BLOCK_SIZE)
           \<and> first_free B a fs'"
proof -
  from ff obtain d where f: "disk fs = Some d" "disk_blocks d = B"
    "unat (blocks (meta_data fs)) = B" "0 < a" "a \<le> B"
    "free_blocks fs = Some (replicate a True @ replicate (B - a) False)"
    unfolding first_free_def by blast
  let ?blk = "memcpy blk 0 data written BLOCK_SIZE"
  let ?fs = "fs\<lparr>disk := Some (d\<lparr>image := (image d)(b := ?blk), writes := writes d + 1\<rparr>)\<rparr>"
  have w: "fs_disk_write fs b ?blk = Inr ?fs"
    unfolding fs_disk_write_Inr using f b by simp
  from sz len have m: "(offset + BLOCK_SIZE) mod 2 ^ 64 = offset + BLOCK_SIZE" by simp
  have cs: "(if BLOCK_SIZE - offset mod BLOCK_SIZE < len then BLOCK_SIZE - offset mod BLOCK_SIZE
             else len) = BLOCK_SIZE" using al len by simp
  have "fs_write_block fs b blk data len offset written
          = Inr (?fs, len - BLOCK_SIZE, offset + BLOCK_SIZE, written + BLOCK_SIZE)"
    unfolding fs_write_block_def Let_def cs using w m al by simp
  moreover have "first_free B a ?fs" unfolding first_free_def using f by simp
  ultimately show ?thesis by blast
qed

lemma fs_write_direct_first_free:
  assumes "first_free B a fs" and "a + k \<le> B" and "point + k = POINTERS_PER_INODE"
    and "\<forall>j. point \<le> j \<and> j < POINTERS_PER_INODE \<longrightarrow> direct node ! j = 0"
    and "offset mod BLOCK_SIZE = 0" and "k * BLOCK_SIZE < len" and "offset + len < 2 ^ 64"
  shows "\<exists>fs' node'. fs_write_direct fs node data len offset written point
              = Inr (fs', node', len - k * BLOCK_SIZE, offset + k * BLOCK_SIZE,
                     written + k * BLOCK_SIZE, POINTERS_PER_INODE, False)
           \<and> first_free B (a + k) fs' \<and> indirect node' = indirect node"
  using assms
proof (induction k arbitrary: fs node len offset written point a)
  case 0
  then have "point = POINTERS_PER_INODE" by simp
  then have "fs_write_direct fs node data len offset written point
               = Inr (fs, node, len, offset, written, POINTERS_PER_INODE, False)"
    unfolding fs_write_direct.simps[of fs node data len offset written point] by simp
  with "0.prems"(1) show ?case by simp
next
  case (Suc k)
  note ff = Suc.prems(1)
  from Suc.prems(3) have p: "point < POINTERS_PER_INODE" by simp
  from Suc.prems(6) have len: "0 < len" "BLOCK_SIZE \<le> len" by simp_all
  from Suc.prems(4) p have z: "direct node ! point = 0" by simp
  from Suc.prems(2) have aB: "a < B" by simp
  from fs_allocate_free_block_first_free[OF ff aB] obtain fs1 where
    al: "fs_allocate_free_block fs = Inr (fs1, of_nat a)" and ff1: "first_free B (a + 1) fs1"
    and nz: "(of_nat a :: u32) \<noteq> 0" and u: "unat (of_nat a :: u32) = a" by blast
  from fs_write_block_first_free[OF ff1 aB Suc.prems(5) len(2) Suc.prems(7)] obtain fs2 where
    wb: "fs_write_block fs1 a zero_block data len offset written
           = Inr (fs2, len - BLOCK_SIZE, offset + BLOCK_SIZE, written + BLOCK_SIZE)"
    and ff2: "first_free B (a + 1) fs2" by blast
  let ?nd = "node\<lparr>direct := (direct node)[point := of_nat a]\<rparr>"
  have c2: "a + 1 + k \<le> B" using Suc.prems(2) by simp
  have c3: "point + 1 + k = POINTERS_PER_INODE" using Suc.prems(3) by simp
  have c4: "\<forall>j. point + 1 \<le> j \<and> j < POINTERS_PER_INODE \<longrightarrow> direct ?nd ! j = 0"
    using Suc.prems(4) by simp
  have c5: "(offset + BLOCK_SIZE) mod BLOCK_SIZE = 0" using Suc.prems(5) by simp
  have c6: "k * BLOCK_SIZE < len - BLOCK_SIZE" using Suc.prems(6) by simp
  have c7: "offset + BLOCK_SIZE + (len - BLOCK_SIZE) < 2 ^ 64" using Suc.prems(7) len by simp
  from Suc.IH[OF ff2 c2 c3 c4 c5 c6 c7, of "written + BLOCK_SIZE"] obtain fs' node' where
    r: "fs_write_direct fs2 ?nd data (len - BLOCK_SIZE) (offset + BLOCK_SIZE)
          (written + BLOCK_SIZE) (point + 1)
        = Inr (fs', node', len - BLOCK_SIZE - k * BLOCK_SIZE, offset + BLOCK_SIZE + k * BLOCK_SIZE,
               written + BLOCK_SIZE + k * BLOCK_SIZE, POINTERS_PER_INODE, False)"
    and ff': "first_free B (a + 1 + k) fs'" and ind: "indirect node' = indirect ?nd" by blast
  have "fs_write_direct fs node data len offset written point
          = Inr (fs', node', len - BLOCK_SIZE - k * BLOCK_SIZE, offset + BLOCK_SIZE + k * BLOCK_SIZE,
               written + BLOCK_SIZE + k * BLOCK_SIZE, POINTERS_PER_INODE, False)"
    unfolding fs_write_direct.simps[of fs node data len offset written point]
    using p len(1) z al nz u wb r by simp
  moreover have "len - BLOCK_SIZE - k * BLOCK_SIZE = len - Suc k * BLOCK_SIZE" by simp
  moreover have "offset + BLOCK_SIZE + k * BLOCK_SIZE = offset + Suc k * BLOCK_SIZE" by simp
  moreover have "written + BLOCK_SIZE + k * BLOCK_SIZE = written + Suc k * BLOCK_SIZE" by simp
  moreover have "a + 1 + k = a + Suc k" by simp
  ultimately show ?case using ff' ind by auto
qed

lemma fs_write_indirect_first_free:
  assumes "first_free B a fs" and "a + k \<le> B" and "point + k = POINTERS_PER_BLOCK"
    and "\<forall>j. point \<le> j \<longrightarrow> get_u32 block j = 0"
    and "offset mod BLOCK_SIZE = 0" and "k * BLOCK_SIZE < len" and "offset + len < 2 ^ 64"
  shows "fs_write_indirect fs block data len offset written point = Inl OutOfBounds"
  using assms
proof (induction k arbitrary: fs block len offset written point a)
  case 0
  then have "point = POINTERS_PER_BLOCK" "0 < len" by simp_all
  then show ?case
    unfolding fs_write_indirect.simps[of fs block data len offset written point] by simp
next
  case (Suc k)
  note ff = Suc.prems(1)
  from Suc.prems(3) have p: "\<not> POINTERS_PER_BLOCK \<le> point" by simp
  from Suc.prems(6) have len: "0 < len" "BLOCK_SIZE \<le> len" by simp_all
  from Suc.prems(4) have z: "get_u32 block point = 0" by simp
  from Suc.prems(2) have aB: "a < B" by simp
  from fs_allocate_free_block_first_free[OF ff aB] obtain fs1 where
    al: "fs_allocate_free_block fs = Inr (fs1, of_nat a)" and ff1: "first_free B (a + 1) fs1"
    and nz: "(of_nat a :: u32) \<noteq> 0" and u: "unat (of_nat a :: u32) = a" by blast
  from fs_write_block_first_free[OF ff1 aB Suc.prems(5) len(2) Suc.prems(7)] obtain fs2 where
    wb: "fs_write_block fs1 a zero_block data len offset written
           = Inr (fs2, len - BLOCK_SIZE, offset + BLOCK_SIZE, written + BLOCK_SIZE)"
    and ff2: "first_free B (a + 1) fs2" by blast
  let ?blk = "set_u32 block point (of_nat a)"
  have c2: "a + 1 + k \<le> B" using Suc.prems(2) by simp
  have c3: "point + 1 + k = POINTERS_PER_BLOCK" using Suc.prems(3) by simp
  have c4: "\<forall>j. point + 1 \<le> j \<longrightarrow> get_u32 ?blk j = 0"
    using Suc.prems(4) by simp
  have c5: "(offset + BLOCK_SIZE) mod BLOCK_SIZE = 0" using Suc.prems(5) by simp
  have c6: "k * BLOCK_SIZE < len - BLOCK_SIZE" using Suc.prems(6) by simp
  have c7: "offset + BLOCK_SIZE + (len - BLOCK_SIZE) < 2 ^ 64" using Suc.prems(7) len by simp
  from Suc.IH[OF ff2 c2 c3 c4 c5 c6 c7, of "written + BLOCK_SIZE"]
  have r: "fs_write_indirect fs2 ?blk data (len - BLOCK_SIZE) (offset + BLOCK_SIZE)
             (written + BLOCK_SIZE) (point + 1) = Inl OutOfBounds" .
  show ?case
    unfolding fs_write_indirect.simps[of fs block data len offset written point]
    using p len(1) z al nz u wb r by simp
qed

lemma fs_write_indirect_part_first_free:
  assumes ff: "first_free B a fs" and aB: "a + 1 + POINTERS_PER_BLOCK \<le> B"
    and ind: "indirect node = 0"
    and al: "offset mod BLOCK_SIZE = 0" and len: "POINTERS_PER_BLOCK * BLOCK_SIZE < len"
    and sz: "offset + len < 2 ^ 64"
  shows "fs_write_indirect_part fs node data len offset written POINTERS_PER_INODE
           = Inl OutOfBounds"
proof -
  from aB have "a < B" by simp
  from fs_allocate_free_block_first_free[OF ff this] obtain fs1 where
    a1: "fs_allocate_free_block fs = Inr (fs1, of_nat a)" and ff1: "first_free B (a + 1) fs1"
    and nz: "(of_nat a :: u32) \<noteq> 0" by blast
  have z: "\<forall>j. 0 \<le> j \<longrightarrow> get_u32 zero_block j = 0" by simp
  have "fs_write_indirect fs1 zero_block data len offset written 0 = Inl OutOfBounds"
    by (rule fs_write_indirect_first_free[OF ff1 aB _ z al len sz]) simp
  with a1 nz ind al show ?thesis by (simp add: fs_write_indirect_part_def)
qed

lemma fs_write_first_free:
  assumes load: "fs_load_inode fs n = Inr (fs0, Some node)"
    and ff: "first_free B a fs0"
    and aB: "a + POINTERS_PER_INODE + 1 + POINTERS_PER_BLOCK \<le> B"
    and node: "size node = 0" "indirect node = 0" "\<forall>j < POINTERS_PER_INODE. direct node ! j = 0"
    and len: "(POINTERS_PER_INODE + POINTERS_PER_BLOCK) * BLOCK_SIZE < len" "len < 2 ^ 64"
  shows "fs_write fs n data len 0 = Inl OutOfBounds"
proof -
  have c2: "a + POINTERS_PER_INODE \<le> B" using aB by simp
  have c4: "\<forall>j. 0 \<le> j \<and> j < POINTERS_PER_INODE \<longrightarrow> direct node ! j = 0" using node(3) by simp
  have c6: "POINTERS_PER_INODE * BLOCK_SIZE < len" using len(1) by (simp add: add_mult_distrib)
  have c7: "0 + len < 2 ^ 64" using len(2) by simp
  have c3: "0 + POINTERS_PER_INODE = POINTERS_PER_INODE" by simp
  have c5: "0 mod BLOCK_SIZE = 0" by simp
  from fs_write_direct_first_free[OF ff c2 c3 c4 c5 c6 c7, of data 0] obtain fs1 node1 where
    d: "fs_write_direct fs0 node data len 0 0 0
          = Inr (fs1, node1, len - POINTERS_PER_INODE * BLOCK_SIZE,
                 0 + POINTERS_PER_INODE * BLOCK_SIZE, 0 + POINTERS_PER_INODE * BLOCK_SIZE,
                 POINTERS_PER_INODE, False)"
    and ff1: "first_free B (a + POINTERS_PER_INODE) fs1" and i1: "indirect node1 = indirect node"
    by auto
  have e2: "a + POINTERS_PER_INODE + 1 + POINTERS_PER_BLOCK \<le> B" using aB .
  have e3: "indirect node1 = 0" using i1 node(2) by simp
  have e4: "(0 + POINTERS_PER_INODE * BLOCK_SIZE) mod BLOCK_SIZE = 0" by simp
  have e5: "POINTERS_PER_BLOCK * BLOCK_SIZE < len - POINTERS_PER_INODE * BLOCK_SIZE"
    using len(1) by (simp add: add_mult_distrib)
  have e6: "0 + POINTERS_PER_INODE * BLOCK_SIZE + (len - POINTERS_PER_INODE * BLOCK_SIZE) < 2 ^ 64"
    using len(2) c6 by simp
  note ip = fs_write_indirect_part_first_free[OF ff1 e2 e3 e4 e5 e6,
      of data "0 + POINTERS_PER_INODE * BLOCK_SIZE"]
  have l1: "0 < len - POINTERS_PER_INODE * BLOCK_SIZE" using c6 by simp
  show ?thesis
    unfolding fs_write_def load using node(1) d ip l1 by simp
qed

subsection \<open>The handle after format and mount\<close>

lemma format_clear_succeeds:
  assumes "disk_blocks d < 2 ^ 31"
  shows "\<exists>d'. format_clear d i = Inr d'"
  using assms
proof (induction d i rule: format_clear.induct)
  case (1 d i)
  note simps = format_clear.simps[of d i]
  show ?case
  proof (cases "i < disk_blocks d")
    case False
    then show ?thesis by (simp add: simps)
  next
    case c: True
    let ?d = "d\<lparr>image := (image d)(i := zero_block), writes := writes d + 1\<rparr>"
    from c have w: "disk_write d i zero_block = Some ?d"
      by (simp add: disk_write_def disk_sanity_check_def)
    from c "1.prems" have ne: "i \<noteq> 2 ^ 31 - 1" by simp
    from "1.prems" have "disk_blocks ?d < 2 ^ 31" by simp
    from "1.IH"[OF c w ne this] obtain d' where "format_clear ?d (i + 1) = Inr d'" by blast
    with c w ne show ?thesis by (simp add: simps)
  qed
qed

lemma fs_format_succeeds:
  assumes "disk fs = None" and "2 \<le> disk_blocks d" and "disk_blocks d < 2 ^ 31"
  shows "\<exists>d'. fs_format fs d = Inr (True, d')"
proof -
  define sb where "sb = \<lparr>magic_number = MAGIC_NUMBER,
                blocks = of_nat (disk_blocks d),
                inode_blocks = of_nat (if disk_blocks d div 10 = 0 then 1 else disk_blocks d div 10),
                inodes = of_nat ((if disk_blocks d div 10 = 0 then 1 else disk_blocks d div 10)
                                  * INODES_PER_BLOCK)\<rparr>"
  define dA where
    "dA = d\<lparr>image := (image d)(0 := set_block_super zero_block sb), writes := writes d + 1\<rparr>"
  from assms(2) have w: "disk_write d 0 (set_block_super zero_block sb) = Some dA"
    by (simp add: disk_write_def disk_sanity_check_def dA_def)
  from assms(3) have "disk_blocks dA < 2 ^ 31" by (simp add: dA_def)
  from format_clear_succeeds[OF this, of 1] obtain d' where "format_clear dA 1 = Inr d'" by blast
  with assms(1,2) w have "fs_format fs d = Inr (True, d')"
    unfolding fs_format_def sb_def[symmetric] by simp
  then show ?thesis by blast
qed

lemma replicate_prefix_unique:
  assumes "length xs = B" and "a \<le> B" and "\<forall>b < a. xs ! b"
    and "\<forall>b < B. xs ! b \<longrightarrow> (replicate a True @ replicate (B - a) False) ! b"
  shows "xs = replicate a True @ replicate (B - a) False"
proof (rule nth_equalityI)
  show "length xs = length (replicate a True @ replicate (B - a) False)" using assms(1,2) by simp
next
  fix i assume "i < length xs"
  with assms(1) have i: "i < B" by simp
  show "xs ! i = (replicate a True @ replicate (B - a) False) ! i"
  proof (cases "i < a")
    case True
    with assms(3) show ?thesis by (simp add: nth_append)
  next
    case False
    with i have "\<not> (replicate a True @ replicate (B - a) False) ! i" by (simp add: nth_append)
    with assms(4) i show ?thesis by blast
  qed
qed

lemma fs_mount_formatted:
  assumes fm: "fs_format fs0 d0 = Inr (True, d1)"
    and B: "B = disk_blocks d0" and IB: "IB = (if B div 10 = 0 then 1 else B div 10)"
    and B32: "B < 2 ^ 32" and I32: "IB * INODES_PER_BLOCK < 2 ^ 32"
  shows "\<exists>fs d d2. fs_mount fs0 d1 = Inr (True, fs, d2) \<and> disk fs = Some d \<and> disk_blocks d = B
           \<and> unat (blocks (meta_data fs)) = B \<and> unat (inode_blocks (meta_data fs)) = IB
           \<and> unat (inodes (meta_data fs)) = IB * INODES_PER_BLOCK
           \<and> (\<forall>b. 0 < b \<and> b < B \<longrightarrow> image d b = zero_block)
           \<and> free_blocks fs = Some (replicate (IB + 1) True @ replicate (B - (IB + 1)) False)"
proof -
  define sb where "sb = block_super (image d1 0)"
  from fs_format_result[OF fm] have f: "disk fs0 = None" "2 \<le> B" "disk_blocks d1 = B"
    "sb = \<lparr>magic_number = MAGIC_NUMBER, blocks = of_nat B, inode_blocks = of_nat IB,
           inodes = of_nat (IB * INODES_PER_BLOCK)\<rparr>"
    "\<And>b. 0 < b \<Longrightarrow> b < B \<Longrightarrow> image d1 b = zero_block"
    unfolding B IB sb_def by simp_all
  from f(2) have IBb: "0 < IB" "IB < B" unfolding IB by (auto split: if_splits)
  with B32 have "IB < 2 ^ 32" by simp
  then have uIB: "unat (of_nat IB :: u32) = IB" by (simp add: unat_of_nat)
  from B32 have uB: "unat (of_nat B :: u32) = B" by (simp add: unat_of_nat)
  from I32 have uI: "unat (of_nat (IB * INODES_PER_BLOCK) :: u32) = IB * INODES_PER_BLOCK"
    by (simp only: unat_of_nat) simp
  have chk: "magic_number sb = MAGIC_NUMBER" "unat (blocks sb) = B"
    "unat (inode_blocks sb) = IB" "unat (inodes sb) = IB * INODES_PER_BLOCK"
    unfolding f(4) using uIB uB uI by simp_all
  have noref: "\<forall>k s. k < IB * INODES_PER_BLOCK \<longrightarrow> ref (image d1) k s = 0"
  proof (intro allI impI)
    fix k s assume "k < IB * INODES_PER_BLOCK"
    from inode_block_le[OF this] IBb have "0 < k div INODES_PER_BLOCK + 1"
      "k div INODES_PER_BLOCK + 1 < B" by simp_all
    from f(5)[OF this] have "inode_at (image d1) k = zero_inode"
      by (simp add: inode_at_def)
    then show "ref (image d1) k s = 0" by (simp add: ref_def zero_inode_def)
  qed
  let ?fb = "replicate (IB + 1) True @ replicate (B - (IB + 1)) False"
  have mk: "\<forall>b \<le> IB. ?fb ! b"
  proof (intro allI impI)
    fix b assume "b \<le> IB"
    then have l: "b < IB + 1" by simp
    then show "?fb ! b" by (metis length_replicate nth_append nth_replicate)
  qed
  have lfb: "length ?fb = B" using IBb by simp
  have wf1: "wf_refs (disk_blocks d1) (unat (inode_blocks (block_super (image d1 0))))
               (ref (image d1)) ?fb"
    unfolding f(3) sb_def[symmetric] chk(3)
    using lfb IBb B32 mk noref by (rule wf_refs_no_refs)
  have "\<exists>fs' d'. fs_mount fs0 d1 = Inr (True, fs', d')
           \<and> marked_within (block_super (image d1 0)) (image d1) (disk_blocks d1) ?fb
                (unat (inode_blocks (block_super (image d1 0))) + 1) fs'"
    by (rule fs_mount_marked[OF f(1) _ _ _ wf1])
       (use chk f(3) in \<open>simp_all add: sb_def\<close>)
  then obtain fs d2 where mt: "fs_mount fs0 d1 = Inr (True, fs, d2)"
    and m: "marked_within sb (image d1) B ?fb (IB + 1) fs"
    unfolding sb_def[symmetric] chk(3) f(3) by auto
  from m obtain d fbR where r: "disk fs = Some d" "image d = image d1" "disk_blocks d = B"
    "meta_data fs = sb" "free_blocks fs = Some fbR" "length fbR = B"
    "\<forall>b < B. fbR ! b \<longrightarrow> ?fb ! b" "\<forall>b < IB + 1. fbR ! b"
    unfolding marked_within_def by blast
  from IBb have "IB + 1 \<le> B" by simp
  from replicate_prefix_unique[OF r(6) this r(8) r(7)] have e: "fbR = ?fb" .
  from r(2) f(5) have z: "\<forall>b. 0 < b \<and> b < B \<longrightarrow> image d b = zero_block" by simp
  from mt r(1,3) chk(2,3,4) r(4) z r(5) e show ?thesis by auto
qed

lemma format_and_mount_succeeds:
  assumes "disk fs0 = None" and "2 \<le> disk_blocks d0" and "disk_blocks d0 < 2 ^ 31"
    and "(if disk_blocks d0 div 10 = 0 then 1 else disk_blocks d0 div 10) * INODES_PER_BLOCK
           < 2 ^ 32"
  shows "\<exists>fs. format_and_mount fs0 d0 = Inr fs"
proof -
  from fs_format_succeeds[OF assms(1-3)] obtain d1 where
    fm: "fs_format fs0 d0 = Inr (True, d1)" by blast
  from assms(3) have "disk_blocks d0 < 2 ^ 32" by simp
  from fs_mount_formatted[OF fm refl refl this assms(4)] obtain fs d2 where
    "fs_mount fs0 d1 = Inr (True, fs, d2)" by blast
  with fm have "format_and_mount fs0 d0 = Inr fs" by (simp add: format_and_mount_def)
  then show ?thesis by blast
qed

lemma format_and_mount_fresh:
  assumes fam: "format_and_mount fs0 d0 = Inr fs"
    and B: "B = disk_blocks d0" and IB: "IB = (if B div 10 = 0 then 1 else B div 10)"
  shows "\<exists>d. disk fs = Some d \<and> disk_blocks d = B \<and> 0 < IB \<and> IB < B
           \<and> unat (blocks (meta_data fs)) = B \<and> unat (inode_blocks (meta_data fs)) = IB
           \<and> unat (inodes (meta_data fs)) = IB * INODES_PER_BLOCK
           \<and> (\<forall>b. 0 < b \<and> b < B \<longrightarrow> image d b = zero_block)
           \<and> free_blocks fs = Some (replicate (IB + 1) True @ replicate (B - (IB + 1)) False)"
proof -
  from fam have "consistent fs" by (rule format_and_mount_consistent)
  then obtain d fb where c: "disk fs = Some d" "free_blocks fs = Some fb"
    "disk_blocks d = unat (blocks (meta_data fs))"
    "unat (inodes (meta_data fs)) = unat (inode_blocks (meta_data fs)) * INODES_PER_BLOCK"
    "magic_number (meta_data fs) = MAGIC_NUMBER"
    "block_super (image d 0) = meta_data fs"
    "wf_refs (unat (blocks (meta_data fs))) (unat (inode_blocks (meta_data fs))) (ref (image d)) fb"
    by (rule consistentD)
  from fam obtain d1 where fm: "fs_format fs0 d0 = Inr (True, d1)"
    by (cases "fs_format fs0 d0") (auto simp add: format_and_mount_def split: if_splits)
  with fam obtain d2 where mt: "fs_mount fs0 d1 = Inr (True, fs, d2)"
    by (cases "fs_mount fs0 d1") (auto simp add: format_and_mount_def split: if_splits)
  from fs_format_result[OF fm] have f: "disk fs0 = None" "2 \<le> B" "disk_blocks d1 = B"
    "block_super (image d1 0)
       = \<lparr>magic_number = MAGIC_NUMBER, blocks = of_nat B, inode_blocks = of_nat IB,
           inodes = of_nat (IB * INODES_PER_BLOCK)\<rparr>"
    unfolding B IB by simp_all
  from f(2,3) have rd: "disk_read d1 0 = Some (d1\<lparr>reads := reads d1 + 1\<rparr>, image d1 0)"
    by (simp add: disk_read_def disk_sanity_check_def)
  from mt f(1) rd have chk: "unat (blocks (block_super (image d1 0))) = B"
    "unat (inodes (block_super (image d1 0)))
       = unat (inode_blocks (block_super (image d1 0))) * INODES_PER_BLOCK"
    unfolding fs_mount_def using f(3)
    by (auto split: if_splits)
  from chk(1) have "unat (of_nat B :: u32) = B" unfolding f(4) by simp
  moreover have "unat (of_nat B :: u32) < 2 ^ 32"
    using unsigned_less[of "of_nat B :: u32"] by simp
  ultimately have B32: "B < 2 ^ 32" by simp
  from f(2) have IBb: "0 < IB" "IB < B" unfolding IB by (auto split: if_splits)
  with B32 have "IB < 2 ^ 32" by simp
  then have uIB: "unat (of_nat IB :: u32) = IB" by (simp add: unat_of_nat)
  from chk(2) have "unat (of_nat (IB * INODES_PER_BLOCK) :: u32) = IB * INODES_PER_BLOCK"
    unfolding f(4) using uIB by simp
  moreover have "unat (of_nat (IB * INODES_PER_BLOCK) :: u32) < 2 ^ 32"
    using unsigned_less[of "of_nat (IB * INODES_PER_BLOCK) :: u32"] by simp
  ultimately have I32: "IB * INODES_PER_BLOCK < 2 ^ 32" by simp
  from fs_mount_formatted[OF fm B IB B32 I32] mt IBb show ?thesis by auto
qed

subsection \<open>The first inode of a fresh disk\<close>

lemma fs_create_fresh:
  assumes "disk fs = Some d" and "1 < disk_blocks d" and "image d 1 = zero_block"
    and "0 < unat (inode_blocks (meta_data fs))" and "0 < unat (inodes (meta_data fs))"
  shows "fs_create fs
           = Inr (fs\<lparr>disk := Some (d\<lparr>image := (image d)(1 := set_block_inode zero_block 0
                                                   (zero_inode\<lparr>valid := 1, indirect := 0\<rparr>)),
                                     reads := reads d + 2, writes := writes d + 1\<rparr>)\<rparr>, 0)"
  using assms
  by (simp add: fs_create_def fs_create_blocks.simps[of fs] fs_create_slots.simps[of _ _ _ 0]
        fs_disk_read_def disk_read_def disk_sanity_check_def fs_disk_write_def disk_write_def
        assert_save_inode_def fs_save_inode_def INODES_PER_BLOCK_def zero_inode_def)

lemma fs_load_inode_fresh:
  assumes "disk fs = Some d" and "1 < disk_blocks d"
    and "image d 1 = set_block_inode zero_block 0 (zero_inode\<lparr>valid := 1, indirect := 0\<rparr>)"
    and "0 < unat (inodes (meta_data fs))"
  shows "fs_load_inode fs 0
           = Inr (fs\<lparr>disk := Some (d\<lparr>reads := reads d + 1\<rparr>)\<rparr>,
                  Some (zero_inode\<lparr>valid := 1, indirect := 0\<rparr>))"
proof -
  have "length (direct (zero_inode\<lparr>valid := 1, indirect := 0\<rparr>)) = 5"
    by (simp add: zero_inode_def)
  from block_inode_set_block_inode[OF this, of zero_block 0 0]
  have "block_inode (image d 1) 0 = zero_inode\<lparr>valid := 1, indirect := 0\<rparr>"
    unfolding assms(3) by simp
  with assms(1,2,4) show ?thesis
    by (simp add: fs_load_inode_def fs_disk_read_def disk_read_def disk_sanity_check_def
          INODES_PER_BLOCK_def zero_inode_def)
qed

subsection \<open>A write longer than the capacity of an inode\<close>

text \<open>Claim C3 does not hold of the code. The loop \<^verbatim>\<open>while(length > 0)\<close> over the indirect
  block of \<^verbatim>\<open>fs_write\<close> has no test on the pointer index. On a freshly formatted and mounted
  disk with room for the 5 direct blocks, the indirect block and its 1024 data blocks, a
  write at offset 0 to the first inode created, of more than
  \<open>(POINTERS_PER_INODE + POINTERS_PER_BLOCK) * BLOCK_SIZE\<close> bytes, fills all 1029 blocks and
  then reads \<^verbatim>\<open>block.pointers[1024]\<close>, outside the 1024 pointers of the block: the call does
  not return with a bounded size, it leaves the array.\<close>

theorem fs_write_beyond_capacity:
  assumes fam: "format_and_mount fs0 d0 = Inr fs"
    and big: "disk_blocks d0 div 10 + 1 + POINTERS_PER_INODE + 1 + POINTERS_PER_BLOCK
                \<le> disk_blocks d0"
    and len: "(POINTERS_PER_INODE + POINTERS_PER_BLOCK) * BLOCK_SIZE < len" "len < 2 ^ 64"
  shows "run fs [Create, Write 0 data len 0] = Inl OutOfBounds"
proof -
  define B where "B = disk_blocks d0"
  define IB where "IB = (if B div 10 = 0 then 1 else B div 10)"
  from big have "1030 \<le> B" unfolding B_def
    by (simp add: POINTERS_PER_INODE_def POINTERS_PER_BLOCK_def)
  then have "B div 10 \<noteq> 0" by simp
  then have IBe: "IB = B div 10" unfolding IB_def by simp
  from format_and_mount_fresh[OF fam B_def IB_def] obtain d where
    f: "disk fs = Some d" "disk_blocks d = B" "0 < IB" "IB < B"
    "unat (blocks (meta_data fs)) = B" "unat (inode_blocks (meta_data fs)) = IB"
    "unat (inodes (meta_data fs)) = IB * INODES_PER_BLOCK"
    "\<forall>b. 0 < b \<and> b < B \<longrightarrow> image d b = zero_block"
    "free_blocks fs = Some (replicate (IB + 1) True @ replicate (B - (IB + 1)) False)"
    by blast
  from f(3,4) have B1: "1 < B" by simp
  with f(8) have z1: "image d 1 = zero_block" by simp
  from f(3,7) have i0: "0 < unat (inodes (meta_data fs))" by (simp add: INODES_PER_BLOCK_def)
  from f(3,6) have ib0: "0 < unat (inode_blocks (meta_data fs))" by simp
  let ?nd = "zero_inode\<lparr>valid := 1, indirect := 0\<rparr>"
  let ?d1 = "d\<lparr>image := (image d)(1 := set_block_inode zero_block 0 ?nd),
               reads := reads d + 2, writes := writes d + 1\<rparr>"
  let ?fs1 = "fs\<lparr>disk := Some ?d1\<rparr>"
  let ?fs2 = "?fs1\<lparr>disk := Some (?d1\<lparr>reads := reads ?d1 + 1\<rparr>)\<rparr>"
  from f(2) B1 have B1': "1 < disk_blocks d" by simp
  have cr: "fs_create fs = Inr (?fs1, 0)"
    using f(1) B1' z1 ib0 i0 by (rule fs_create_fresh)
  have ld: "fs_load_inode ?fs1 0 = Inr (?fs2, Some ?nd)"
    by (rule fs_load_inode_fresh) (use B1' i0 in simp_all)
  have ff: "first_free B (IB + 1) ?fs2"
    unfolding first_free_def using f(2,4,5,9) by simp
  have aB: "IB + 1 + POINTERS_PER_INODE + 1 + POINTERS_PER_BLOCK \<le> B"
    using big unfolding IBe B_def .
  have nd: "size ?nd = 0" "indirect ?nd = 0" "\<forall>j < POINTERS_PER_INODE. direct ?nd ! j = 0"
    by (simp_all add: zero_inode_def POINTERS_PER_INODE_def nth_Cons' )
  from fs_write_first_free[OF ld ff aB nd len]
  have w: "fs_write ?fs1 0 data len 0 = Inl OutOfBounds" .
  show ?thesis using cr w by simp
qed

text \<open>An instance: a blank disk of 1200 blocks (120 inode blocks, 1079 data blocks) can be
  formatted and mounted, and \<^verbatim>\<open>fs_create\<close> followed by a write of \<open>1029 * 4096 + 1\<close> bytes
  leaves the pointer array.\<close>

theorem fs_write_beyond_capacity_witness:
  "\<exists>fs. format_and_mount blank_fs (blank_disk 1200) = Inr fs
        \<and> run fs [Create, Write 0 zero_block 4214785 0] = Inl OutOfBounds"
proof -
  have "\<exists>fs. format_and_mount blank_fs (blank_disk 1200) = Inr fs"
    by (rule format_and_mount_succeeds)
       (simp_all add: blank_fs_def blank_disk_def INODES_PER_BLOCK_def)
  then obtain fs where fam: "format_and_mount blank_fs (blank_disk 1200) = Inr fs" by blast
  have "run fs [Create, Write 0 zero_block 4214785 0] = Inl OutOfBounds"
    by (rule fs_write_beyond_capacity[OF fam])
       (simp_all add: blank_disk_def POINTERS_PER_INODE_def POINTERS_PER_BLOCK_def BLOCK_SIZE_def)
  with fam show ?thesis by blast
qed

subsection \<open>Inodes of the second and later inode blocks\<close>

lemma fs_load_inode_later_block:
  assumes "disk fs = Some d" and "INODES_PER_BLOCK \<le> n" and "n < unat (inodes (meta_data fs))"
    and "n div INODES_PER_BLOCK + 1 < disk_blocks d"
  shows "fs_load_inode fs n = Inl OutOfBounds"
  using assms
  by (simp add: fs_load_inode_def fs_disk_read_def disk_read_def disk_sanity_check_def)

lemma block_inode_inode_table:
  "block_inode (inode_table a) j
     = (if j < a then zero_inode\<lparr>valid := 1, indirect := 0\<rparr> else zero_inode)"
proof (induction a)
  case 0
  show ?case by simp
next
  case (Suc a)
  have "length (direct (zero_inode\<lparr>valid := 1, indirect := 0\<rparr>)) = 5"
    by (simp add: zero_inode_def)
  from block_inode_set_block_inode[OF this, of "inode_table a" a j] Suc show ?case
    by (auto simp add: less_Suc_eq)
qed

lemma fs_create_slots_inode_table:
  assumes "j \<le> a" and "a < INODES_PER_BLOCK"
  shows "fs_create_slots fs (inode_table a) i j
           = (case assert_save_inode fs ((i - 1) * INODES_PER_BLOCK + a)
                     (zero_inode\<lparr>valid := 1, indirect := 0\<rparr>) of
                Inl e \<Rightarrow> Inl e
              | Inr fs' \<Rightarrow> Inr (fs', Some ((i - 1) * INODES_PER_BLOCK + a)))"
  using assms(1)
proof (induction "a - j" arbitrary: j)
  case 0
  then have e: "j = a" by simp
  show ?case
    unfolding e fs_create_slots.simps[of fs "inode_table a" i a] block_inode_inode_table
    using assms(2) by (simp add: zero_inode_def)
next
  case (Suc k)
  then have l: "j < a" by simp
  with Suc.hyps(2) have "k = a - (j + 1)" "j + 1 \<le> a" by simp_all
  note IH = Suc.hyps(1)[OF this]
  from l assms(2) have "j < INODES_PER_BLOCK" by simp
  with l show ?case
    unfolding fs_create_slots.simps[of fs "inode_table a" i j] block_inode_inode_table IH
    by (simp add: zero_inode_def)
qed

lemma fs_create_slots_full:
  assumes "j \<le> INODES_PER_BLOCK"
  shows "fs_create_slots fs (inode_table INODES_PER_BLOCK) i j = Inr (fs, None)"
  using assms
proof (induction "INODES_PER_BLOCK - j" arbitrary: j)
  case 0
  then have "\<not> j < INODES_PER_BLOCK" by simp
  then show ?case
    unfolding fs_create_slots.simps[of fs "inode_table INODES_PER_BLOCK" i j] by simp
next
  case (Suc k)
  then have l: "j < INODES_PER_BLOCK" by simp
  with Suc.hyps(2) have "k = INODES_PER_BLOCK - (j + 1)" "j + 1 \<le> INODES_PER_BLOCK" by simp_all
  note IH = Suc.hyps(1)[OF this]
  from l show ?case
    unfolding fs_create_slots.simps[of fs "inode_table INODES_PER_BLOCK" i j]
      block_inode_inode_table IH
    by (simp add: zero_inode_def)
qed

lemma fs_create_inodes20:
  assumes "a < INODES_PER_BLOCK"
  shows "fs_create (inodes20 a 0 r w) = Inr (inodes20 (Suc a) 0 (r + 2) (w + 1), int a)"
proof -
  let ?fs1 = "inodes20 a 0 (r + 1) w"
  have rd: "fs_disk_read (inodes20 a 0 r w) 1 = Inr (?fs1, inode_table a)"
    by (simp add: inodes20_def fs_disk_read_def disk_read_def disk_sanity_check_def)
  from assms have dm: "a div INODES_PER_BLOCK = 0" "a mod INODES_PER_BLOCK = a" by simp_all
  have sv: "assert_save_inode ?fs1 a (zero_inode\<lparr>valid := 1, indirect := 0\<rparr>)
              = Inr (inodes20 (Suc a) 0 (r + 2) (w + 1))"
    using assms unfolding assert_save_inode_def fs_save_inode_def dm
    by (simp add: inodes20_def fs_disk_read_def disk_read_def disk_sanity_check_def
          fs_disk_write_def disk_write_def INODES_PER_BLOCK_def fun_eq_iff)
  have sl: "fs_create_slots ?fs1 (inode_table a) 1 0
              = Inr (inodes20 (Suc a) 0 (r + 2) (w + 1), Some a)"
    unfolding fs_create_slots_inode_table[OF le0 assms] using sv by simp
  have ib: "unat (inode_blocks (meta_data (inodes20 a 0 r w))) = 2" by (simp add: inodes20_def)
  show ?thesis
    unfolding fs_create_def ib fs_create_blocks.simps[of _ 2 1] rd using sl by simp
qed

lemma fs_create_inodes20_full:
  "fs_create (inodes20 INODES_PER_BLOCK 0 r w)
     = Inr (inodes20 INODES_PER_BLOCK 1 (r + 3) (w + 1), int INODES_PER_BLOCK)"
proof -
  let ?fs1 = "inodes20 INODES_PER_BLOCK 0 (r + 1) w"
  let ?fs2 = "inodes20 INODES_PER_BLOCK 0 (r + 2) w"
  have rd1: "fs_disk_read (inodes20 INODES_PER_BLOCK 0 r w) 1
               = Inr (?fs1, inode_table INODES_PER_BLOCK)"
    by (simp add: inodes20_def fs_disk_read_def disk_read_def disk_sanity_check_def)
  have rd2: "fs_disk_read ?fs1 2 = Inr (?fs2, inode_table 0)"
    by (simp add: inodes20_def fs_disk_read_def disk_read_def disk_sanity_check_def)
  have sv: "assert_save_inode ?fs2 INODES_PER_BLOCK (zero_inode\<lparr>valid := 1, indirect := 0\<rparr>)
              = Inr (inodes20 INODES_PER_BLOCK 1 (r + 3) (w + 1))"
    unfolding assert_save_inode_def fs_save_inode_def
    by (simp add: inodes20_def fs_disk_read_def disk_read_def disk_sanity_check_def
          fs_disk_write_def disk_write_def INODES_PER_BLOCK_def fun_eq_iff)
  have z: "(0::nat) < INODES_PER_BLOCK" by (simp add: INODES_PER_BLOCK_def)
  have sl: "fs_create_slots ?fs2 (inode_table 0) 2 0
              = Inr (inodes20 INODES_PER_BLOCK 1 (r + 3) (w + 1), Some INODES_PER_BLOCK)"
    unfolding fs_create_slots_inode_table[OF le0 z] using sv by simp
  have ib: "unat (inode_blocks (meta_data (inodes20 INODES_PER_BLOCK 0 r w))) = 2"
    by (simp add: inodes20_def)
  have sl1: "fs_create_slots ?fs1 (inode_table INODES_PER_BLOCK) 1 0 = Inr (?fs1, None)"
    by (rule fs_create_slots_full) simp
  have b2: "fs_create_blocks ?fs1 2 2
              = Inr (inodes20 INODES_PER_BLOCK 1 (r + 3) (w + 1), int INODES_PER_BLOCK)"
    unfolding fs_create_blocks.simps[of _ 2 2] rd2 using sl by simp
  have b2': "fs_create_blocks ?fs1 2 (Suc (Suc 0))
              = Inr (inodes20 INODES_PER_BLOCK 1 (r + 3) (w + 1), int INODES_PER_BLOCK)"
    using b2 by (simp only: numeral_2_eq_2)
  show ?thesis
    unfolding fs_create_def ib fs_create_blocks.simps[of _ 2 1] rd1 using sl1 b2' by simp
qed

lemma run_append:
  "run fs (xs @ ys) = (case run fs xs of Inl e \<Rightarrow> Inl e | Inr fs' \<Rightarrow> run fs' ys)"
  by (induction xs arbitrary: fs) (auto split: sum.splits)

lemma run_creates_inodes20:
  assumes "a + j \<le> INODES_PER_BLOCK"
  shows "run (inodes20 a 0 r w) (replicate j Create)
           = Inr (inodes20 (a + j) 0 (r + 2 * j) (w + j))"
  using assms
proof (induction j arbitrary: a r w)
  case 0
  show ?case by simp
next
  case (Suc j)
  then have a: "a < INODES_PER_BLOCK" and s: "Suc a + j \<le> INODES_PER_BLOCK" by simp_all
  from Suc.IH[OF s, of "r + 2" "w + 1"] fs_create_inodes20[OF a, of r w]
  show ?case by simp
qed

lemma run_mounted20_creates: "run mounted20 (replicate 129 Create) = Inr created20"
proof -
  have m: "mounted20 = inodes20 0 0 3 20"
    by (simp add: mounted20_def inodes20_def fun_eq_iff)
  have n: "replicate 129 Create = replicate INODES_PER_BLOCK Create @ [Create]"
    by (simp add: INODES_PER_BLOCK_def replicate_append_same eval_nat_numeral)
  from run_creates_inodes20[of 0 INODES_PER_BLOCK 3 20]
  have r1: "run (inodes20 0 0 3 20) (replicate INODES_PER_BLOCK Create)
              = Inr (inodes20 INODES_PER_BLOCK 0 (3 + 2 * INODES_PER_BLOCK) (20 + INODES_PER_BLOCK))"
    by simp
  have c: "fs_create (inodes20 128 0 259 148) = Inr (inodes20 128 1 262 149, 128)"
    using fs_create_inodes20_full[of 259 148] by (simp add: INODES_PER_BLOCK_def)
  show ?thesis
    unfolding m n run_append r1
    by (simp add: c created20_def INODES_PER_BLOCK_def)
qed

lemma created20_inode:
  "\<exists>d. disk created20 = Some d \<and> disk_blocks d = 20
      \<and> inode_at (image d) 128 = zero_inode\<lparr>valid := 1, indirect := 0\<rparr>"
proof -
  have "block_inode (inode_table 1) 0 = zero_inode\<lparr>valid := 1, indirect := 0\<rparr>"
    unfolding block_inode_inode_table by simp
  then show ?thesis
    by (simp add: created20_def inodes20_def inode_at_def INODES_PER_BLOCK_def)
qed

subsection \<open>Writes that change nothing, and removals, on every inode block\<close>

text \<open>C7. The claim holds for the inodes of the first inode block and fails for every other
  inode. \<^verbatim>\<open>fs_load_inode\<close> returns an inode only for inode numbers below \<open>INODES_PER_BLOCK\<close>;
  for such an inode a write whose offset lies strictly beyond the size returns 0, and the
  handle it leaves is the one that loading the inode leaves: the free-block bitmap, the cached
  superblock and every block of the disk image are unchanged (one block read is counted),
  and the inode loads again with the same record. For an inode number of the second or a
  later inode block, valid or not and whatever the offset, \<^verbatim>\<open>fs_load_inode\<close> tests
  \<^verbatim>\<open>block.inodes[inode_number].valid\<close> outside the 128 inodes of the block it has read, before
  \<^verbatim>\<open>fs_write\<close> compares the offset with the size: the write does not return 0.\<close>

theorem fs_write_offset_beyond_size:
  "(fs_load_inode fs n = Inr (fs1, Some node) \<and> unat (size node) < offset
      \<longrightarrow> n < INODES_PER_BLOCK
          \<and> fs_write fs n data len offset = Inr (fs1, 0)
          \<and> free_blocks fs1 = free_blocks fs
          \<and> meta_data fs1 = meta_data fs
          \<and> (\<exists>d d1. disk fs = Some d \<and> disk fs1 = Some d1 \<and> image d1 = image d
                 \<and> disk_blocks d1 = disk_blocks d \<and> writes d1 = writes d)
          \<and> (\<exists>fs2. fs_load_inode fs1 n = Inr (fs2, Some node)))
   \<and> (disk fs = Some d \<and> INODES_PER_BLOCK \<le> n \<and> n < unat (inodes (meta_data fs))
        \<and> n div INODES_PER_BLOCK + 1 < disk_blocks d
      \<longrightarrow> fs_write fs n data len offset = Inl OutOfBounds)"
  (is "(?P1 \<longrightarrow> ?N \<and> ?Q1) \<and> (?P2 \<longrightarrow> ?Q2)")
proof (rule conjI; rule impI)
  assume p: ?P1
  then have n: ?N by (auto simp add: fs_load_inode_Some)
  from p have "fs_load_inode fs n = Inr (fs1, Some node)" "unat (size node) < offset"
    by simp_all
  then have ?Q1 by (rule fs_write_first_block_offset_beyond_size)
  with n show "?N \<and> ?Q1" by (rule conjI)
next
  assume ?P2
  then have "fs_load_inode fs n = Inl OutOfBounds"
    by (intro fs_load_inode_later_block[of fs d]) simp_all
  then show ?Q2 by (simp add: fs_write_def)
qed

text \<open>Instances: inode 0 of the disk of 10 blocks, and inode 128 of the disk of 20 blocks
  after 129 calls of \<^verbatim>\<open>fs_create\<close>, which is valid and has size 0.\<close>

theorem fs_write_offset_beyond_size_witness:
  "fs_load_inode created10 0 = Inr (loaded10, Some (zero_inode\<lparr>valid := 1\<rparr>))
   \<and> unat (size (zero_inode\<lparr>valid := 1\<rparr>)) < 1
   \<and> fs_write created10 0 zero_block 7 1 = Inr (loaded10, 0)
   \<and> free_blocks loaded10 = free_blocks created10
   \<and> format_and_mount blank_fs (blank_disk 20) = Inr mounted20
   \<and> run mounted20 (replicate 129 Create) = Inr created20
   \<and> 128 < unat (inodes (meta_data created20))
   \<and> (\<exists>d. disk created20 = Some d \<and> valid (inode_at (image d) 128) = 1
          \<and> unat (size (inode_at (image d) 128)) < 1)
   \<and> fs_write created20 128 zero_block 7 1 = Inl OutOfBounds"
proof -
  have h: "unat (size (zero_inode\<lparr>valid := 1\<rparr>)) < 1"
    by (simp add: zero_inode_def)
  note t = fs_write_offset_beyond_size[where fs = created10 and n = 0 and ?fs1.0 = loaded10
      and node = "zero_inode\<lparr>valid := 1\<rparr>" and offset = 1 and data = zero_block and len = 7]
  from t fs_load_inode_created10 h
  have a: "fs_write created10 0 zero_block 7 1 = Inr (loaded10, 0)"
    "free_blocks loaded10 = free_blocks created10" by simp_all
  from created20_inode obtain d where d: "disk created20 = Some d" "disk_blocks d = 20"
    "inode_at (image d) 128 = zero_inode\<lparr>valid := 1, indirect := 0\<rparr>" by blast
  have m: "128 < unat (inodes (meta_data created20))"
    by (simp add: created20_def inodes20_def)
  note u = fs_write_offset_beyond_size[where fs = created20 and n = 128 and d = d
      and offset = 1 and data = zero_block and len = 7]
  from u d(1,2) m have b: "fs_write created20 128 zero_block 7 1 = Inl OutOfBounds"
    by (simp add: INODES_PER_BLOCK_def)
  from d have v: "\<exists>d. disk created20 = Some d \<and> valid (inode_at (image d) 128) = 1
          \<and> unat (size (inode_at (image d) 128)) < 1"
    by (simp add: zero_inode_def)
  from fs_load_inode_created10 h a format_and_mount_blank20 run_mounted20_creates m v b
  show ?thesis by (intro conjI)
qed

text \<open>C9. The claim holds for the inodes of the first inode block and fails for every other
  inode. For an inode that \<^verbatim>\<open>fs_load_inode\<close> loads (its number is below \<open>INODES_PER_BLOCK\<close>), a
  write of length 0 at an offset not beyond the size returns 0; it allocates nothing: the
  free-block bitmap is unchanged, every block of the disk image is unchanged, and the inode
  loads again with the same record (size, direct pointers and indirect pointer). For an
  inode number of the second or a later inode block, valid or not, the write of length 0
  does not return: \<^verbatim>\<open>fs_load_inode\<close> tests \<^verbatim>\<open>block.inodes[inode_number].valid\<close> outside the block
  it has read.\<close>

theorem fs_write_length_zero:
  "(fs_load_inode fs n = Inr (fs1, Some node) \<and> offset \<le> unat (size node)
      \<longrightarrow> n < INODES_PER_BLOCK
          \<and> (\<exists>fs'. fs_write fs n data 0 offset = Inr (fs', 0)
                \<and> free_blocks fs' = free_blocks fs
                \<and> (\<exists>d d'. disk fs = Some d \<and> disk fs' = Some d' \<and> image d' = image d)
                \<and> (\<exists>fs2. fs_load_inode fs' n = Inr (fs2, Some node))))
   \<and> (disk fs = Some d \<and> INODES_PER_BLOCK \<le> n \<and> n < unat (inodes (meta_data fs))
        \<and> n div INODES_PER_BLOCK + 1 < disk_blocks d
      \<longrightarrow> fs_write fs n data 0 offset = Inl OutOfBounds)"
  (is "(?P1 \<longrightarrow> ?N \<and> ?Q1) \<and> (?P2 \<longrightarrow> ?Q2)")
proof (rule conjI; rule impI)
  assume p: ?P1
  then have n: ?N by (auto simp add: fs_load_inode_Some)
  from p have "fs_load_inode fs n = Inr (fs1, Some node)" "offset \<le> unat (size node)"
    by simp_all
  then have ?Q1 by (rule fs_write_first_block_length_zero)
  with n show "?N \<and> ?Q1" by (rule conjI)
next
  assume ?P2
  then have "fs_load_inode fs n = Inl OutOfBounds"
    by (intro fs_load_inode_later_block[of fs d]) simp_all
  then show ?Q2 by (simp add: fs_write_def)
qed

theorem fs_write_length_zero_witness:
  "fs_load_inode created10 0 = Inr (loaded10, Some (zero_inode\<lparr>valid := 1\<rparr>))
   \<and> 0 \<le> unat (size (zero_inode\<lparr>valid := 1\<rparr>))
   \<and> (\<exists>fs'. fs_write created10 0 zero_block 0 0 = Inr (fs', 0)
         \<and> free_blocks fs' = free_blocks created10
         \<and> (\<exists>fs2. fs_load_inode fs' 0 = Inr (fs2, Some (zero_inode\<lparr>valid := 1\<rparr>))))
   \<and> format_and_mount blank_fs (blank_disk 20) = Inr mounted20
   \<and> run mounted20 (replicate 129 Create) = Inr created20
   \<and> 128 < unat (inodes (meta_data created20))
   \<and> (\<exists>d. disk created20 = Some d \<and> valid (inode_at (image d) 128) = 1
          \<and> 0 \<le> unat (size (inode_at (image d) 128)))
   \<and> fs_write created20 128 zero_block 0 0 = Inl OutOfBounds"
proof -
  have h: "0 \<le> unat (size (zero_inode\<lparr>valid := 1\<rparr>))" by simp
  note t = fs_write_length_zero[where fs = created10 and n = 0 and ?fs1.0 = loaded10
      and node = "zero_inode\<lparr>valid := 1\<rparr>" and offset = 0 and data = zero_block]
  from t fs_load_inode_created10
  have a: "\<exists>fs'. fs_write created10 0 zero_block 0 0 = Inr (fs', 0)
         \<and> free_blocks fs' = free_blocks created10
         \<and> (\<exists>fs2. fs_load_inode fs' 0 = Inr (fs2, Some (zero_inode\<lparr>valid := 1\<rparr>)))"
    by auto
  from created20_inode obtain d where d: "disk created20 = Some d" "disk_blocks d = 20"
    "inode_at (image d) 128 = zero_inode\<lparr>valid := 1, indirect := 0\<rparr>" by blast
  have m: "128 < unat (inodes (meta_data created20))"
    by (simp add: created20_def inodes20_def)
  note u = fs_write_length_zero[where fs = created20 and n = 128 and d = d
      and offset = 0 and data = zero_block]
  from u d(1,2) m have b: "fs_write created20 128 zero_block 0 0 = Inl OutOfBounds"
    by (simp add: INODES_PER_BLOCK_def)
  from d have v: "\<exists>d. disk created20 = Some d \<and> valid (inode_at (image d) 128) = 1
          \<and> 0 \<le> unat (size (inode_at (image d) 128))"
    by (simp add: zero_inode_def)
  from fs_load_inode_created10 h a format_and_mount_blank20 run_mounted20_creates m v b
  show ?thesis by (intro conjI)
qed

text \<open>C6. The claim holds for the inodes of the first inode block and fails for every other
  inode. When \<^verbatim>\<open>fs_load_inode\<close> reports an invalid inode (the number is out of range or below
  \<open>INODES_PER_BLOCK\<close>), \<^verbatim>\<open>fs_remove\<close> returns false. When it loads a valid inode (the number
  is below \<open>INODES_PER_BLOCK\<close>) whose indirect pointer is not 0 and the call returns,
  \<^verbatim>\<open>fs_remove\<close> returns true and clears in the bitmap every pointer of the indirect block
  before its first zero entry; it clears the entry of the indirect block itself when the
  first pointer of the block is not 0, and does not touch that entry when the first pointer
  is 0 (unless a direct pointer of the inode names the same block); the last conjunct of that
  part gives the whole bitmap after the call. For an inode number of the second or a later
  inode block, valid or invalid, \<^verbatim>\<open>fs_remove\<close> does not return false or free anything:
  \<^verbatim>\<open>fs_load_inode\<close> tests \<^verbatim>\<open>block.inodes[inode_number].valid\<close> outside the block it has read.\<close>

theorem fs_remove_indirect_blocks:
  "(fs_load_inode fs n = Inr (fs1, None)
      \<longrightarrow> (unat (inodes (meta_data fs)) \<le> n \<or> n < INODES_PER_BLOCK)
          \<and> fs_remove fs n = Inr (fs1, False))
   \<and> (fs_load_inode fs n = Inr (fs1, Some inode) \<and> indirect inode \<noteq> 0
        \<and> disk fs = Some d \<and> free_blocks fs = Some fb \<and> fs_remove fs n = Inr (fs', ok)
      \<longrightarrow> n < INODES_PER_BLOCK \<and> ok \<and> (\<exists>fb'. free_blocks fs' = Some fb' \<and> length fb' = length fb
           \<and> (\<forall>i < POINTERS_PER_BLOCK.
                 (\<forall>j \<le> i. get_u32 (image d (unat (indirect inode))) j \<noteq> 0)
                 \<longrightarrow> unat (get_u32 (image d (unat (indirect inode))) i) < length fb
                     \<and> \<not> fb' ! unat (get_u32 (image d (unat (indirect inode))) i))
           \<and> (get_u32 (image d (unat (indirect inode))) 0 \<noteq> 0
                 \<longrightarrow> unat (indirect inode) < length fb \<and> \<not> fb' ! unat (indirect inode))
           \<and> (get_u32 (image d (unat (indirect inode))) 0 = 0
                 \<and> unat (indirect inode) < length fb
                 \<and> (\<forall>i < POINTERS_PER_INODE. (\<forall>j \<le> i. direct inode ! j \<noteq> 0)
                       \<longrightarrow> direct inode ! i \<noteq> indirect inode)
                 \<longrightarrow> fb' ! unat (indirect inode) = fb ! unat (indirect inode))
           \<and> (\<forall>b < length fb. fb' ! b \<longleftrightarrow> fb ! b
                 \<and> \<not> ((\<exists>i < POINTERS_PER_INODE. (\<forall>j \<le> i. direct inode ! j \<noteq> 0)
                            \<and> unat (direct inode ! i) = b)
                      \<or> (\<exists>i < POINTERS_PER_BLOCK.
                            (\<forall>j \<le> i. get_u32 (image d (unat (indirect inode))) j \<noteq> 0)
                            \<and> unat (get_u32 (image d (unat (indirect inode))) i) = b)
                      \<or> (get_u32 (image d (unat (indirect inode))) 0 \<noteq> 0
                            \<and> unat (indirect inode) = b)))))
   \<and> (disk fs = Some d \<and> INODES_PER_BLOCK \<le> n \<and> n < unat (inodes (meta_data fs))
        \<and> n div INODES_PER_BLOCK + 1 < disk_blocks d
      \<longrightarrow> fs_remove fs n = Inl OutOfBounds)"
  (is "(?P1 \<longrightarrow> ?N1 \<and> ?Q1) \<and> (?P2 \<longrightarrow> ?N2 \<and> ?Q2) \<and> (?P3 \<longrightarrow> ?Q3)")
proof (intro conjI)
  note old = fs_remove_first_block_indirect_blocks[where fs = fs and n = n and ?fs1.0 = fs1
      and inode = inode and d = d and fb = fb and fs' = fs' and ok = ok]
  show "?P1 \<longrightarrow> ?N1 \<and> ?Q1"
  proof
    assume p: ?P1
    then have ?N1 by (auto simp add: fs_load_inode_None)
    moreover from old p have ?Q1 by (simp only: simp_thms)
    ultimately show "?N1 \<and> ?Q1" by (rule conjI)
  qed
  show "?P2 \<longrightarrow> ?N2 \<and> ?Q2"
  proof
    assume p: ?P2
    then have ?N2 by (auto simp add: fs_load_inode_Some)
    moreover from mp[OF conjunct2[OF old] p] have ?Q2 .
    ultimately show "?N2 \<and> ?Q2" by (rule conjI)
  qed
  show "?P3 \<longrightarrow> ?Q3"
  proof
    assume ?P3
    then have "fs_load_inode fs n = Inl OutOfBounds"
      by (intro fs_load_inode_later_block[of fs d]) simp_all
    then show ?Q3 by (simp add: fs_remove_def)
  qed
qed

text \<open>Instances: the invalid inode 1 and the valid inode 0 (indirect block 7 with the one
  pointer 8) of the disk of 10 blocks; on the disk of 20 blocks, the invalid inode 128 right
  after format and mount, and the valid inode 128 after 129 calls of \<^verbatim>\<open>fs_create\<close>.\<close>

theorem fs_remove_indirect_blocks_witness:
  "fs_load_inode created10 1 = Inr (loaded10, None)
   \<and> fs_remove created10 1 = Inr (loaded10, False)
   \<and> fs_load_inode written10 0
       = Inr (written10\<lparr>disk := Some (written10_disk\<lparr>reads := 7\<rparr>)\<rparr>,
              Some \<lparr>valid = 1, size = 24576, direct = [2, 3, 4, 5, 6], indirect = 7\<rparr>)
   \<and> disk written10 = Some written10_disk
   \<and> free_blocks written10 = Some [True, True, True, True, True, True, True, True, True, False]
   \<and> fs_remove written10 0 = Inr (removed10, True)
   \<and> get_u32 (image written10_disk 7) 0 = 8
   \<and> (\<exists>fb'. free_blocks removed10 = Some fb' \<and> \<not> fb' ! 8 \<and> \<not> fb' ! 7)
   \<and> format_and_mount blank_fs (blank_disk 20) = Inr mounted20
   \<and> 128 < unat (inodes (meta_data mounted20))
   \<and> (\<exists>d. disk mounted20 = Some d \<and> valid (inode_at (image d) 128) = 0)
   \<and> fs_remove mounted20 128 = Inl OutOfBounds
   \<and> run mounted20 (replicate 129 Create) = Inr created20
   \<and> (\<exists>d. disk created20 = Some d \<and> valid (inode_at (image d) 128) = 1)
   \<and> fs_remove created20 128 = Inl OutOfBounds"
proof -
  let ?inode = "\<lparr>valid = 1, size = 24576, direct = [2, 3, 4, 5, 6], indirect = 7\<rparr>"
  let ?fb = "[True, True, True, True, True, True, True, True, True, False]"
  have l1: "fs_load_inode created10 1 = Inr (loaded10, None)"
    by (simp add: created10_def loaded10_def fs_run_simps)
  have l: "fs_load_inode written10 0
       = Inr (written10\<lparr>disk := Some (written10_disk\<lparr>reads := 7\<rparr>)\<rparr>, Some ?inode)"
    by (rule fs_load_inode_written10)
  have d: "disk written10 = Some written10_disk" by (simp add: written10_def)
  have fb: "free_blocks written10 = Some ?fb" by (simp add: written10_def)
  have p: "get_u32 (image written10_disk 7) 0 = 8" by (simp add: written10_disk_def)
  note t = fs_remove_indirect_blocks[where fs = created10 and n = 1 and ?fs1.0 = loaded10]
  note u = fs_remove_indirect_blocks[where fs = written10 and n = 0 and inode = ?inode
      and d = written10_disk and fb = ?fb and fs' = removed10 and ok = True
      and ?fs1.0 = "written10\<lparr>disk := Some (written10_disk\<lparr>reads := 7\<rparr>)\<rparr>"]
  from t l1 have r1: "fs_remove created10 1 = Inr (loaded10, False)" by blast
  from u l d fb fs_remove_written10
  obtain fb' where c: "free_blocks removed10 = Some fb'"
    "\<forall>i < POINTERS_PER_BLOCK. (\<forall>j \<le> i. get_u32 (image written10_disk (unat (7::u32))) j \<noteq> 0)
        \<longrightarrow> unat (get_u32 (image written10_disk (unat (7::u32))) i) < length ?fb
            \<and> \<not> fb' ! unat (get_u32 (image written10_disk (unat (7::u32))) i)"
    "get_u32 (image written10_disk (unat (7::u32))) 0 \<noteq> 0
        \<longrightarrow> unat (7::u32) < length ?fb \<and> \<not> fb' ! unat (7::u32)"
    by auto
  from c(2)[rule_format, of 0] p have "\<not> fb' ! 8" by (simp add: POINTERS_PER_BLOCK_def)
  moreover from c(3) p have "\<not> fb' ! 7" by simp
  ultimately have e: "\<exists>fb'. free_blocks removed10 = Some fb' \<and> \<not> fb' ! 8 \<and> \<not> fb' ! 7"
    using c(1) by blast
  have m20: "128 < unat (inodes (meta_data mounted20))" by (simp add: mounted20_def)
  have d20: "\<exists>d. disk mounted20 = Some d \<and> valid (inode_at (image d) 128) = 0"
    by (simp add: mounted20_def inode_at_def INODES_PER_BLOCK_def zero_inode_def)
  note v = fs_remove_indirect_blocks[where fs = mounted20 and n = 128
      and d = "\<lparr>disk_blocks = 20,
         image = (\<lambda>b. if b = 0 then set_block_super zero_block
                          \<lparr>magic_number = MAGIC_NUMBER, blocks = 20, inode_blocks = 2, inodes = 256\<rparr>
                        else zero_block),
         reads = 3, writes = 20\<rparr>"]
  from v have r20: "fs_remove mounted20 128 = Inl OutOfBounds"
    by (simp add: mounted20_def INODES_PER_BLOCK_def)
  from created20_inode obtain dc where dc: "disk created20 = Some dc" "disk_blocks dc = 20"
    "inode_at (image dc) 128 = zero_inode\<lparr>valid := 1, indirect := 0\<rparr>" by blast
  have mc: "128 < unat (inodes (meta_data created20))"
    by (simp add: created20_def inodes20_def)
  note w = fs_remove_indirect_blocks[where fs = created20 and n = 128 and d = dc]
  from w dc(1,2) mc have rc: "fs_remove created20 128 = Inl OutOfBounds"
    by (simp add: INODES_PER_BLOCK_def)
  from dc have vc: "\<exists>d. disk created20 = Some d \<and> valid (inode_at (image d) 128) = 1"
    by (simp add: zero_inode_def)
  from l1 r1 l d fb fs_remove_written10 p e format_and_mount_blank20 m20 d20 r20
    run_mounted20_creates vc rc
  show ?thesis by (intro conjI)
qed

subsection \<open>Slots filled in order\<close>

lemma slot_of_inject [simp]: "slot_of q = slot_of p \<longleftrightarrow> q = p"
  by (auto simp add: slot_of_def split: if_splits)

lemma slot_of_ok [simp]:
  "slot_ok (slot_of q) \<longleftrightarrow> q < POINTERS_PER_INODE + POINTERS_PER_BLOCK"
  by (auto simp add: slot_of_def)

lemma slot_of_not_Indirect [simp]: "slot_of q \<noteq> Indirect"
  by (simp add: slot_of_def)

lemma slot_of_Direct: "i < POINTERS_PER_INODE \<Longrightarrow> slot_of i = Direct i"
  by (simp add: slot_of_def)

lemma slot_of_Pointer: "slot_of (p + POINTERS_PER_INODE) = Pointer p"
  by (simp add: slot_of_def)

lemma filled_in_orderD:
  assumes "filled_in_order \<rho> c"
  shows "\<And>q. q < POINTERS_PER_INODE + POINTERS_PER_BLOCK \<Longrightarrow> q * BLOCK_SIZE < c
            \<Longrightarrow> \<rho> (slot_of q) \<noteq> 0"
    "\<And>q q'. q < POINTERS_PER_INODE + POINTERS_PER_BLOCK \<Longrightarrow> q' < q \<Longrightarrow> \<rho> (slot_of q) \<noteq> 0
            \<Longrightarrow> \<rho> (slot_of q') \<noteq> 0"
  using assms unfolding filled_in_order_def by blast+

lemma filled_in_orderI:
  assumes "\<And>q. q < POINTERS_PER_INODE + POINTERS_PER_BLOCK \<Longrightarrow> q * BLOCK_SIZE < c
            \<Longrightarrow> \<rho> (slot_of q) \<noteq> 0"
    and "\<And>q q'. q < POINTERS_PER_INODE + POINTERS_PER_BLOCK \<Longrightarrow> q' < q \<Longrightarrow> \<rho> (slot_of q) \<noteq> 0
            \<Longrightarrow> \<rho> (slot_of q') \<noteq> 0"
  shows "filled_in_order \<rho> c"
  using assms unfolding filled_in_order_def by blast

lemma filled_in_order_empty: "(\<And>s. slot_ok s \<Longrightarrow> \<rho> s = 0) \<Longrightarrow> filled_in_order \<rho> 0"
  by (rule filled_in_orderI) simp_all

lemma filled_in_order_cong:
  assumes f: "filled_in_order \<rho> c"
    and e: "\<And>s. slot_ok s \<Longrightarrow> \<rho>' s = \<rho> s"
  shows "filled_in_order \<rho>' c"
proof (rule filled_in_orderI)
  fix q assume "q < POINTERS_PER_INODE + POINTERS_PER_BLOCK" "q * BLOCK_SIZE < c"
  with filled_in_orderD(1)[OF f] e[of "slot_of q"] show "\<rho>' (slot_of q) \<noteq> 0" by simp
next
  fix q q' assume q: "q < POINTERS_PER_INODE + POINTERS_PER_BLOCK" "q' < q" "\<rho>' (slot_of q) \<noteq> 0"
  then have "q' < POINTERS_PER_INODE + POINTERS_PER_BLOCK" by simp
  with q filled_in_orderD(2)[OF f q(1,2)] e[of "slot_of q"] e[of "slot_of q'"]
  show "\<rho>' (slot_of q') \<noteq> 0" by simp
qed

text \<open>Before the block with index \<open>p\<close>, a file that reaches \<open>p * BLOCK_SIZE\<close> has all its
  blocks.\<close>

lemma filled_in_order_before:
  assumes f: "filled_in_order \<rho> c" and p: "p * BLOCK_SIZE \<le> c"
    and q: "q < p" "q < POINTERS_PER_INODE + POINTERS_PER_BLOCK"
  shows "\<rho> (slot_of q) \<noteq> 0"
proof -
  from q(1) have "q * BLOCK_SIZE < p * BLOCK_SIZE" by (simp add: BLOCK_SIZE_def)
  from this p have "q * BLOCK_SIZE < c" by (rule less_le_trans)
  from filled_in_orderD(1)[OF f q(2) this] show ?thesis .
qed

text \<open>Filling the next slot, and growing into a block that is there.\<close>

lemma filled_in_order_set:
  assumes f: "filled_in_order \<rho> c"
    and p: "p * BLOCK_SIZE \<le> c" and b: "b \<noteq> 0"
    and e: "\<And>s. slot_ok s \<Longrightarrow> \<rho>' s = (if s = slot_of p then b else \<rho> s)"
  shows "filled_in_order \<rho>' c"
proof (rule filled_in_orderI)
  fix q assume q: "q < POINTERS_PER_INODE + POINTERS_PER_BLOCK" "q * BLOCK_SIZE < c"
  with filled_in_orderD(1)[OF f q] e[of "slot_of q"] b show "\<rho>' (slot_of q) \<noteq> 0" by simp
next
  fix q q' assume q: "q < POINTERS_PER_INODE + POINTERS_PER_BLOCK" "q' < q" "\<rho>' (slot_of q) \<noteq> 0"
  then have q': "q' < POINTERS_PER_INODE + POINTERS_PER_BLOCK" by simp
  have old: "\<rho> (slot_of q') \<noteq> 0"
  proof (cases "q = p")
    case True
    with q(2) have "q' < p" by simp
    from filled_in_order_before[OF f p this q'] show ?thesis .
  next
    case False
    with q e[of "slot_of q"] have "\<rho> (slot_of q) \<noteq> 0" by simp
    from filled_in_orderD(2)[OF f q(1,2) this] show ?thesis .
  qed
  with e[of "slot_of q'"] q' b show "\<rho>' (slot_of q') \<noteq> 0" by simp
qed

lemma filled_in_order_grow:
  assumes f: "filled_in_order \<rho> c"
    and p: "p * BLOCK_SIZE \<le> c" and nz: "\<rho> (slot_of p) \<noteq> 0"
    and c': "c' \<le> max c ((p + 1) * BLOCK_SIZE)"
  shows "filled_in_order \<rho> c'"
proof (rule filled_in_orderI)
  fix q assume q: "q < POINTERS_PER_INODE + POINTERS_PER_BLOCK" "q * BLOCK_SIZE < c'"
  show "\<rho> (slot_of q) \<noteq> 0"
  proof (cases "q * BLOCK_SIZE < c")
    case True
    from filled_in_orderD(1)[OF f q(1) this] show ?thesis .
  next
    case False
    with q(2) c' have "q * BLOCK_SIZE < (p + 1) * BLOCK_SIZE" by linarith
    then have "q < p + 1" by (simp add: BLOCK_SIZE_def)
    then consider "q = p" | "q < p" by linarith
    then show ?thesis
    proof cases
      case 1
      with nz show ?thesis by simp
    next
      case 2
      from filled_in_order_before[OF f p this q(1)] show ?thesis .
    qed
  qed
next
  fix q q' assume "q < POINTERS_PER_INODE + POINTERS_PER_BLOCK" "q' < q" "\<rho> (slot_of q) \<noteq> 0"
  from filled_in_orderD(2)[OF f this] show "\<rho> (slot_of q') \<noteq> 0" .
qed

subsection \<open>Tidy references\<close>

lemma tidy_refsD:
  assumes "tidy_refs t B IB r sz fb"
  shows "\<And>k. k < IB * INODES_PER_BLOCK \<Longrightarrow> filled_in_order (r k) (sz k)"
    "\<And>b. t \<Longrightarrow> b < B \<Longrightarrow> fb ! b
       \<Longrightarrow> b \<le> IB \<or> (\<exists>k s. k < IB * INODES_PER_BLOCK \<and> slot_ok s \<and> r k s = b)"
  using assms unfolding tidy_refs_def by blast+

lemma tidy_refsI:
  assumes "\<And>k. k < IB * INODES_PER_BLOCK \<Longrightarrow> filled_in_order (r k) (sz k)"
    and "\<And>b. t \<Longrightarrow> b < B \<Longrightarrow> fb ! b
       \<Longrightarrow> b \<le> IB \<or> (\<exists>k s. k < IB * INODES_PER_BLOCK \<and> slot_ok s \<and> r k s = b)"
  shows "tidy_refs t B IB r sz fb"
  using assms unfolding tidy_refs_def by blast

lemma tidy_refs_cong:
  assumes td: "tidy_refs t B IB r sz fb"
    and e: "\<And>k s. k < IB * INODES_PER_BLOCK \<Longrightarrow> slot_ok s \<Longrightarrow> r' k s = r k s"
    and z: "\<And>k. k < IB * INODES_PER_BLOCK \<Longrightarrow> sz' k = sz k"
  shows "tidy_refs t B IB r' sz' fb"
proof (rule tidy_refsI)
  fix k assume k: "k < IB * INODES_PER_BLOCK"
  from tidy_refsD(1)[OF td k] have "filled_in_order (r k) (sz' k)" using z[OF k] by simp
  then show "filled_in_order (r' k) (sz' k)" by (rule filled_in_order_cong) (rule e[OF k])
next
  fix b assume "t" "b < B" "fb ! b"
  from tidy_refsD(2)[OF td this] show "b \<le> IB \<or> (\<exists>k s. k < IB * INODES_PER_BLOCK \<and> slot_ok s \<and> r' k s = b)"
  proof
    assume "b \<le> IB" then show ?thesis by simp
  next
    assume "\<exists>k s. k < IB * INODES_PER_BLOCK \<and> slot_ok s \<and> r k s = b"
    then obtain k s where "k < IB * INODES_PER_BLOCK" "slot_ok s" "r k s = b" by blast
    with e[of k s] have "k < IB * INODES_PER_BLOCK \<and> slot_ok s \<and> r' k s = b" by simp
    then show ?thesis by blast
  qed
qed

lemma tidy_refs_size:
  assumes td: "tidy_refs t B IB r sz fb"
    and n: "n < IB * INODES_PER_BLOCK \<Longrightarrow> filled_in_order (r n) c"
  shows "tidy_refs t B IB r (sz(n := c)) fb"
proof (rule tidy_refsI)
  fix k assume k: "k < IB * INODES_PER_BLOCK"
  show "filled_in_order (r k) ((sz(n := c)) k)"
  proof (cases "k = n")
    case True
    with n k show ?thesis by simp
  next
    case False
    with tidy_refsD(1)[OF td k] show ?thesis by simp
  qed
next
  fix b assume "t" "b < B" "fb ! b"
  from tidy_refsD(2)[OF td this]
  show "b \<le> IB \<or> (\<exists>k s. k < IB * INODES_PER_BLOCK \<and> slot_ok s \<and> r k s = b)" .
qed

lemma tidy_refs_alloc:
  assumes td: "tidy_refs t B IB r sz fb"
    and n: "n < IB * INODES_PER_BLOCK" and s0: "slot_ok s0" and z: "r n s0 = 0"
    and b: "b \<noteq> 0" "b < B" and len: "length fb = B"
    and e: "\<And>k s. k < IB * INODES_PER_BLOCK \<Longrightarrow> slot_ok s
              \<Longrightarrow> r' k s = (if k = n \<and> s = s0 then b else r k s)"
    and ord: "s0 = Indirect \<or> (\<exists>p. s0 = slot_of p \<and> p * BLOCK_SIZE \<le> sz n)"
  shows "tidy_refs t B IB r' sz (fb[b := True])"
proof (rule tidy_refsI)
  fix k assume k: "k < IB * INODES_PER_BLOCK"
  note f = tidy_refsD(1)[OF td k]
  show "filled_in_order (r' k) (sz k)"
  proof (cases "k = n")
    case False
    with e[OF k] have "\<And>s. slot_ok s \<Longrightarrow> r' k s = r k s" by simp
    with f show ?thesis by (rule filled_in_order_cong)
  next
    case True
    from ord show ?thesis
    proof
      assume i: "s0 = Indirect"
      have "\<And>s. slot_ok s \<Longrightarrow> s \<noteq> Indirect \<Longrightarrow> r' k s = r k s" using e[OF k] i by simp
      then have "\<And>q. q < POINTERS_PER_INODE + POINTERS_PER_BLOCK
                   \<Longrightarrow> r' k (slot_of q) = r k (slot_of q)" by simp
      with f show ?thesis unfolding filled_in_order_def by simp
    next
      assume "\<exists>p. s0 = slot_of p \<and> p * BLOCK_SIZE \<le> sz n"
      then obtain p where p: "s0 = slot_of p" "p * BLOCK_SIZE \<le> sz n" by blast
      from f True have f': "filled_in_order (r n) (sz n)" by simp
      have "filled_in_order (r' n) (sz n)"
        by (rule filled_in_order_set[OF f' p(2) b(1)]) (use e[OF n] p(1) in simp)
      with True show ?thesis by simp
    qed
  qed
next
  fix x assume t: "t" and x: "x < B" "(fb[b := True]) ! x"
  show "x \<le> IB \<or> (\<exists>k s. k < IB * INODES_PER_BLOCK \<and> slot_ok s \<and> r' k s = x)"
  proof (cases "x = b")
    case True
    with e[OF n s0] n s0 have "n < IB * INODES_PER_BLOCK \<and> slot_ok s0 \<and> r' n s0 = x" by simp
    then show ?thesis by blast
  next
    case False
    with x have "fb ! x" by simp
    from tidy_refsD(2)[OF td t x(1) this] show ?thesis
    proof
      assume "x \<le> IB" then show ?thesis by simp
    next
      assume "\<exists>k s. k < IB * INODES_PER_BLOCK \<and> slot_ok s \<and> r k s = x"
      then obtain k s where ks: "k < IB * INODES_PER_BLOCK" "slot_ok s" "r k s = x" by blast
      show ?thesis
      proof (cases "k = n \<and> s = s0")
        case True
        with ks z have "x = 0" by simp
        then show ?thesis by simp
      next
        case False
        with e[OF ks(1,2)] ks have "k < IB * INODES_PER_BLOCK \<and> slot_ok s \<and> r' k s = x" by auto
        then show ?thesis by blast
      qed
    qed
  qed
qed

subsection \<open>Tidy handles and the steps of fs\_write\<close>

lemma tidy_parts:
  assumes "tidy t fs" and "disk fs = Some d" and "free_blocks fs = Some fb"
  shows "tidy_refs t (unat (blocks (meta_data fs))) (unat (inode_blocks (meta_data fs)))
           (ref (image d)) (file_size (image d)) fb"
  using assms unfolding tidy_def by auto

lemma tidyI:
  assumes "disk fs = Some d" and "free_blocks fs = Some fb"
    and "tidy_refs t (unat (blocks (meta_data fs))) (unat (inode_blocks (meta_data fs)))
           (ref (image d)) (file_size (image d)) fb"
  shows "tidy t fs"
  using assms unfolding tidy_def by blast

lemma tidy_same_contents:
  assumes "tidy t fs" and "same_contents fs fs'"
  shows "tidy t fs'"
proof -
  from assms(1) obtain d fb where f: "disk fs = Some d" "free_blocks fs = Some fb"
    unfolding tidy_def by blast
  note g = tidy_parts[OF assms(1) f]
  from assms(2) f(1) obtain d' where d': "disk fs' = Some d'" "disk_blocks d' = disk_blocks d"
    "image d' = image d" "meta_data fs' = meta_data fs" "free_blocks fs' = free_blocks fs"
    by (auto simp add: same_contents_def split: option.splits)
  with f g show ?thesis by (intro tidyI[of fs' d' fb]) simp_all
qed

lemma write_tidy_parts:
  assumes "write_tidy t fs n node ibo offset" and "disk fs = Some d" and "free_blocks fs = Some fb"
  shows "tidy_refs t (unat (blocks (meta_data fs))) (unat (inode_blocks (meta_data fs)))
           (local_ref (image d) n node
              (case ibo of None \<Rightarrow> image d (unat (indirect node)) | Some ib \<Rightarrow> ib))
           (local_size (image d) n node offset) fb"
  using assms unfolding write_tidy_def by auto

lemma write_tidyI:
  assumes "disk fs = Some d" and "free_blocks fs = Some fb"
    and "tidy_refs t (unat (blocks (meta_data fs))) (unat (inode_blocks (meta_data fs)))
           (local_ref (image d) n node
              (case ibo of None \<Rightarrow> image d (unat (indirect node)) | Some ib \<Rightarrow> ib))
           (local_size (image d) n node offset) fb"
  shows "write_tidy t fs n node ibo offset"
  using assms unfolding write_tidy_def by blast

lemma write_tidy_same_contents:
  assumes "write_tidy t fs n node ibo offset" and "same_contents fs fs'"
  shows "write_tidy t fs' n node ibo offset"
proof -
  from assms(1) obtain d fb where f: "disk fs = Some d" "free_blocks fs = Some fb"
    unfolding write_tidy_def by blast
  note g = write_tidy_parts[OF assms(1) f]
  from assms(2) f(1) obtain d' where d': "disk fs' = Some d'" "disk_blocks d' = disk_blocks d"
    "image d' = image d" "meta_data fs' = meta_data fs" "free_blocks fs' = free_blocks fs"
    by (auto simp add: same_contents_def split: option.splits)
  with f g show ?thesis by (intro write_tidyI[of fs' d' fb]) (simp_all cong: option.case_cong)
qed

lemma file_size_fun_upd:
  assumes "k < IB * INODES_PER_BLOCK" and "IB < b"
  shows "file_size (img(b := x)) k = file_size img k"
  using inode_at_fun_upd[OF assms, of img x] by (simp add: file_size_def)

lemma file_size_put_inode:
  assumes "length (direct nd) = 5"
  shows "file_size (put_inode img n nd) k
           = (if k = n then (if valid nd = 0 then 0 else unat (size nd)) else file_size img k)"
  unfolding file_size_def inode_at_put_inode[OF assms] by simp

lemma local_size_same [simp]: "local_size img n node offset n = max offset (unat (size node))"
  by (simp add: local_size_def)

lemma local_size_other [simp]: "k \<noteq> n \<Longrightarrow> local_size img n node offset k = file_size img k"
  by (simp add: local_size_def)

text \<open>Where \<^verbatim>\<open>fs_write\<close> starts.\<close>

lemma write_tidy_start:
  assumes c: "consistent fs" and td: "tidy t fs"
    and load: "fs_load_inode fs n = Inr (fs0, Some node)"
    and off: "offset \<le> unat (size node)"
  shows "write_tidy t fs0 n node None offset"
proof -
  from c obtain d fb where f: "disk fs = Some d" "free_blocks fs = Some fb"
    by (rule consistentD)
  note g = tidy_parts[OF td f]
  note l = fs_load_inode_inode_at[OF load f(1)]
  have e: "local_ref (image d) n node (image d (unat (indirect node))) = ref (image d)"
    using l(3,4) by (auto simp add: local_ref_def ref_def fun_eq_iff)
  have z: "local_size (image d) n node offset = file_size (image d)"
    using l(3,4) off by (auto simp add: local_size_def file_size_def fun_eq_iff max_def)
  have "write_tidy t fs n node None offset"
    using f g e z by (intro write_tidyI[of fs d fb]) simp_all
  from this fs_load_inode_same_contents[OF load] show ?thesis by (rule write_tidy_same_contents)
qed

text \<open>How a block write moves the offset.\<close>

lemma fs_write_block_result:
  assumes w: "fs_write_block fs b blk data len offset written = Inr (fs', len', offset', written')"
    and o: "offset < 2 ^ 32"
  shows "offset \<le> offset'" "offset' \<le> (offset div BLOCK_SIZE + 1) * BLOCK_SIZE"
    "0 < len' \<Longrightarrow> offset' div BLOCK_SIZE = offset div BLOCK_SIZE + 1"
proof -
  define m where "m = offset mod BLOCK_SIZE"
  define cs where "cs = (if BLOCK_SIZE - m < len then BLOCK_SIZE - m else len)"
  have m: "m < BLOCK_SIZE" unfolding m_def by (simp add: BLOCK_SIZE_def)
  have cs: "cs \<le> BLOCK_SIZE - m" unfolding cs_def by simp
  have e: "offset = offset div BLOCK_SIZE * BLOCK_SIZE + m" unfolding m_def by simp
  from w have r: "len' = len - cs" "offset' = (offset + cs) mod 2 ^ 64"
    unfolding fs_write_block_def Let_def cs_def m_def by (auto split: sum.splits)
  from cs have "offset + cs \<le> offset + BLOCK_SIZE" by simp
  also from o have "\<dots> < 2 ^ 32 + BLOCK_SIZE" by simp
  also have "\<dots> < 2 ^ 64" by (simp add: BLOCK_SIZE_def)
  finally have o': "offset' = offset + cs" using r(2) by simp
  then show "offset \<le> offset'" by simp
  have "offset + cs \<le> offset div BLOCK_SIZE * BLOCK_SIZE + m + (BLOCK_SIZE - m)"
    using cs e by linarith
  also have "\<dots> = (offset div BLOCK_SIZE + 1) * BLOCK_SIZE" using m by simp
  finally show "offset' \<le> (offset div BLOCK_SIZE + 1) * BLOCK_SIZE" using o' by simp
  assume "0 < len'"
  with r(1) have "cs = BLOCK_SIZE - m" unfolding cs_def by (auto split: if_splits)
  with o' e m have "offset' = (offset div BLOCK_SIZE + 1) * BLOCK_SIZE" by simp
  then show "offset' div BLOCK_SIZE = offset div BLOCK_SIZE + 1"
    by (simp add: BLOCK_SIZE_def)
qed

text \<open>Allocating a block for the next direct slot.\<close>

lemma write_tidy_alloc_direct:
  assumes inv: "write_inv fs n node None" and td: "write_tidy t fs n node None offset"
    and i: "i < POINTERS_PER_INODE" "direct node ! i = 0"
    and al: "fs_allocate_free_block fs = Inr (fs1, b)" and b: "b \<noteq> 0"
    and ord: "i * BLOCK_SIZE \<le> offset"
  shows "write_tidy t fs1 n (node\<lparr>direct := (direct node)[i := b]\<rparr>) None offset"
proof -
  let ?B = "unat (blocks (meta_data fs))" and ?IB = "unat (inode_blocks (meta_data fs))"
  let ?nd = "node\<lparr>direct := (direct node)[i := b]\<rparr>"
  from fs_allocate_free_block_write_inv[OF inv al b] obtain d fb where
    a: "disk fs = Some d" "free_blocks fs = Some fb"
    "fs1 = fs\<lparr>free_blocks := Some (fb[unat b := True])\<rparr>" "unat b < ?B" "\<not> fb ! unat b"
    by blast
  let ?r = "local_ref (image d) n node (image d (unat (indirect node)))"
  let ?sz = "local_size (image d) n node offset"
  note f = write_inv_parts[OF inv a(1,2), simplified]
  note g = write_tidy_parts[OF td a(1,2), simplified]
  have s0: "slot_ok (Direct i)" using i(1) by simp
  have z: "?r n (Direct i) = 0" using i(2) by simp
  have b0: "unat b \<noteq> 0" using b by (simp add: unat_eq_0)
  have len: "length fb = ?B" using wf_refsD(1)[OF f(8)] .
  have "tidy_refs t ?B ?IB (local_ref (image d) n ?nd (image d (unat (indirect ?nd)))) ?sz
          (fb[unat b := True])"
  proof (rule tidy_refs_alloc[OF g f(5) s0 z b0 a(4) len])
    fix k s assume k: "k < ?IB * INODES_PER_BLOCK" and s: "slot_ok s"
    show "local_ref (image d) n ?nd (image d (unat (indirect ?nd))) k s
            = (if k = n \<and> s = Direct i then unat b else ?r k s)"
    proof (cases "k = n")
      case False
      then show ?thesis by simp
    next
      case True
      then show ?thesis using f(7) i(1) s
        by (cases s) (auto simp add: nth_list_update POINTERS_PER_INODE_def)
    qed
  next
    from i(1) ord have "Direct i = slot_of i \<and> i * BLOCK_SIZE \<le> ?sz n"
      by (simp add: slot_of_Direct)
    then show "Direct i = Indirect \<or> (\<exists>p. Direct i = slot_of p \<and> p * BLOCK_SIZE \<le> ?sz n)"
      by blast
  qed
  moreover have "local_size (image d) n ?nd offset = ?sz" by (simp add: local_size_def fun_eq_iff)
  ultimately show ?thesis using a
    by (intro write_tidyI[of fs1 d "fb[unat b := True]"]) simp_all
qed

text \<open>Allocating the indirect block; its buffer is all zero.\<close>

lemma write_tidy_alloc_indirect:
  assumes inv: "write_inv fs n node None" and td: "write_tidy t fs n node None offset"
    and i: "indirect node = 0"
    and al: "fs_allocate_free_block fs = Inr (fs1, b)" and b: "b \<noteq> 0"
  shows "write_tidy t fs1 n (node\<lparr>indirect := b\<rparr>) (Some zero_block) offset"
proof -
  let ?B = "unat (blocks (meta_data fs))" and ?IB = "unat (inode_blocks (meta_data fs))"
  let ?nd = "node\<lparr>indirect := b\<rparr>"
  from fs_allocate_free_block_write_inv[OF inv al b] obtain d fb where
    a: "disk fs = Some d" "free_blocks fs = Some fb"
    "fs1 = fs\<lparr>free_blocks := Some (fb[unat b := True])\<rparr>" "unat b < ?B" "\<not> fb ! unat b"
    by blast
  let ?r = "local_ref (image d) n node (image d (unat (indirect node)))"
  let ?sz = "local_size (image d) n node offset"
  note f = write_inv_parts[OF inv a(1,2), simplified]
  note g = write_tidy_parts[OF td a(1,2), simplified]
  have s0: "slot_ok Indirect" by simp
  have z: "?r n Indirect = 0" using i by simp
  have b0: "unat b \<noteq> 0" using b by (simp add: unat_eq_0)
  have len: "length fb = ?B" using wf_refsD(1)[OF f(8)] .
  have "tidy_refs t ?B ?IB (local_ref (image d) n ?nd zero_block) ?sz (fb[unat b := True])"
  proof (rule tidy_refs_alloc[OF g f(5) s0 z b0 a(4) len])
    fix k s assume k: "k < ?IB * INODES_PER_BLOCK" and s: "slot_ok s"
    show "local_ref (image d) n ?nd zero_block k s
            = (if k = n \<and> s = Indirect then unat b else ?r k s)"
    proof (cases "k = n")
      case False
      then show ?thesis by simp
    next
      case True
      then show ?thesis using i b by (cases s) simp_all
    qed
  next
    show "Indirect = Indirect \<or> (\<exists>p. Indirect = slot_of p \<and> p * BLOCK_SIZE \<le> ?sz n)" by simp
  qed
  moreover have "local_size (image d) n ?nd offset = ?sz" by (simp add: local_size_def fun_eq_iff)
  ultimately show ?thesis using a
    by (intro write_tidyI[of fs1 d "fb[unat b := True]"]) simp_all
qed

text \<open>Allocating a block into the next slot of the indirect block buffer.\<close>

lemma write_tidy_alloc_pointer:
  assumes inv: "write_inv fs n node (Some blk)" and td: "write_tidy t fs n node (Some blk) offset"
    and i: "indirect node \<noteq> 0" "p < POINTERS_PER_BLOCK" "get_u32 blk p = 0"
    and al: "fs_allocate_free_block fs = Inr (fs1, b)" and b: "b \<noteq> 0"
    and ord: "(p + POINTERS_PER_INODE) * BLOCK_SIZE \<le> offset"
  shows "write_tidy t fs1 n node (Some (set_u32 blk p b)) offset"
proof -
  let ?B = "unat (blocks (meta_data fs))" and ?IB = "unat (inode_blocks (meta_data fs))"
  from fs_allocate_free_block_write_inv[OF inv al b] obtain d fb where
    a: "disk fs = Some d" "free_blocks fs = Some fb"
    "fs1 = fs\<lparr>free_blocks := Some (fb[unat b := True])\<rparr>" "unat b < ?B" "\<not> fb ! unat b"
    by blast
  let ?r = "local_ref (image d) n node blk"
  let ?sz = "local_size (image d) n node offset"
  note f = write_inv_parts[OF inv a(1,2), simplified]
  note g = write_tidy_parts[OF td a(1,2), simplified]
  have s0: "slot_ok (Pointer p)" using i(2) by simp
  have z: "?r n (Pointer p) = 0" using i(3) by simp
  have b0: "unat b \<noteq> 0" using b by (simp add: unat_eq_0)
  have len: "length fb = ?B" using wf_refsD(1)[OF f(8)] .
  have "tidy_refs t ?B ?IB (local_ref (image d) n node (set_u32 blk p b)) ?sz (fb[unat b := True])"
  proof (rule tidy_refs_alloc[OF g f(5) s0 z b0 a(4) len])
    fix k s assume k: "k < ?IB * INODES_PER_BLOCK" and s: "slot_ok s"
    show "local_ref (image d) n node (set_u32 blk p b) k s
            = (if k = n \<and> s = Pointer p then unat b else ?r k s)"
    proof (cases "k = n")
      case False
      then show ?thesis by simp
    next
      case True
      then show ?thesis using i(1) by (cases s) simp_all
    qed
  next
    from ord have "Pointer p = slot_of (p + POINTERS_PER_INODE)
        \<and> (p + POINTERS_PER_INODE) * BLOCK_SIZE \<le> ?sz n"
      by (simp add: slot_of_Pointer)
    then show "Pointer p = Indirect \<or> (\<exists>q. Pointer p = slot_of q \<and> q * BLOCK_SIZE \<le> ?sz n)"
      by blast
  qed
  with a show ?thesis
    by (intro write_tidyI[of fs1 d "fb[unat b := True]"]) simp_all
qed

text \<open>Writing the data block with index \<open>q\<close> of the file.\<close>

lemma write_tidy_write_block:
  assumes inv: "write_inv fs n node ibo" and td: "write_tidy t fs n node ibo offset"
    and d: "disk fs = Some d"
    and q: "q < POINTERS_PER_INODE + POINTERS_PER_BLOCK" "q = offset div BLOCK_SIZE"
    and b: "node_ref node (case ibo of None \<Rightarrow> image d (unat (indirect node)) | Some ib \<Rightarrow> ib)
              (slot_of q) = b" "b \<noteq> 0"
    and w: "fs_write_block fs b blk data len offset written = Inr (fs', len', offset', written')"
    and o: "offset < 2 ^ 32"
  shows "write_tidy t fs' n node ibo offset'"
proof -
  let ?B = "unat (blocks (meta_data fs))" and ?IB = "unat (inode_blocks (meta_data fs))"
  let ?ib = "case ibo of None \<Rightarrow> image d (unat (indirect node)) | Some ib \<Rightarrow> ib"
  let ?r = "local_ref (image d) n node ?ib"
  let ?sz = "local_size (image d) n node offset"
  let ?s0 = "slot_of q"
  from inv obtain fb where fb: "free_blocks fs = Some fb" by (rule write_inv_bitmap)
  note p = write_inv_parts[OF inv d fb]
  note f = fb p
  note g = write_tidy_parts[OF td d fb]
  have s0: "slot_ok ?s0" "?s0 \<noteq> Indirect" using q(1) by simp_all
  have rb: "?r n ?s0 = b" using b(1) by simp
  from wf_refsD(6)[OF f(9) f(6) s0(1)] rb b(2) have rng: "?IB < b" "b < ?B" by simp_all
  have dis: "k = n \<and> s = ?s0"
    if k: "k < ?IB * INODES_PER_BLOCK" and s: "slot_ok s" and e: "?r k s = b" for k s
  proof -
    from rb b(2) have nz: "?r n ?s0 \<noteq> 0" by simp
    from e rb have "?r k s = ?r n ?s0" by simp
    from wf_refsD(7)[OF f(9) f(6) k s0(1) s nz this] show ?thesis .
  qed
  from w obtain x where dw: "fs_disk_write fs b x = Inr fs'"
    by (auto simp add: fs_write_block_def Let_def split: sum.splits)
  with d have fs': "fs' = fs\<lparr>disk := Some (d\<lparr>image := (image d)(b := x), writes := writes d + 1\<rparr>)\<rparr>"
    unfolding fs_disk_write_Inr by auto
  let ?img' = "(image d)(b := x)"
  let ?ib' = "case ibo of None \<Rightarrow> ?img' (unat (indirect node)) | Some ib \<Rightarrow> ib"
  have "unat (indirect node) \<noteq> b"
  proof
    assume "unat (indirect node) = b"
    then have "?r n Indirect = b" by simp
    from dis[OF f(6) _ this] s0(2) show False by simp
  qed
  then have ib: "?ib' = ?ib" by (cases ibo) simp_all
  note r = fs_write_block_result[OF w o]
  let ?c = "max offset' (unat (size node))"
  have f0: "filled_in_order (?r n) (?sz n)" using tidy_refsD(1)[OF g f(6)] .
  have "filled_in_order (?r n) ?c"
  proof (rule filled_in_order_grow[OF f0, of q])
    have "q * BLOCK_SIZE \<le> offset" unfolding q(2) by simp
    then show "q * BLOCK_SIZE \<le> ?sz n" by simp
    show "?r n ?s0 \<noteq> 0" using rb b(2) by simp
    have "offset' \<le> (q + 1) * BLOCK_SIZE" using r(2) unfolding q(2) .
    then show "?c \<le> max (?sz n) ((q + 1) * BLOCK_SIZE)"
      unfolding local_size_same by linarith
  qed
  then have g1: "tidy_refs t ?B ?IB ?r (?sz(n := ?c)) fb" by (intro tidy_refs_size[OF g])
  have "tidy_refs t ?B ?IB (local_ref ?img' n node ?ib') (local_size ?img' n node offset') fb"
  proof (rule tidy_refs_cong[OF g1])
    fix k s assume k: "k < ?IB * INODES_PER_BLOCK" and s: "slot_ok s"
    show "local_ref ?img' n node ?ib' k s = ?r k s"
    proof (cases "k = n")
      case True
      then show ?thesis unfolding ib by simp
    next
      case False
      have "ref (image d) k Indirect \<noteq> b"
      proof
        assume "ref (image d) k Indirect = b"
        with False have "?r k Indirect = b" by simp
        from dis[OF k _ this] False show False by simp
      qed
      from ref_fun_upd[OF k rng(1) this] False show ?thesis by simp
    qed
  next
    fix k assume k: "k < ?IB * INODES_PER_BLOCK"
    show "local_size ?img' n node offset' k = (?sz(n := ?c)) k"
      using file_size_fun_upd[OF k rng(1), of "image d" x] by (simp add: local_size_def)
  qed
  then show ?thesis using f fs'
    by (intro write_tidyI[of fs' "d\<lparr>image := ?img', writes := writes d + 1\<rparr>" fb])
       (simp_all cong: option.case_cong)
qed

text \<open>Reading the indirect block into the buffer, and writing the buffer back.\<close>

lemma write_tidy_read_indirect:
  assumes "write_tidy t fs n node None offset" and "disk fs = Some d"
  shows "write_tidy t fs n node (Some (image d (unat (indirect node)))) offset"
  using assms unfolding write_tidy_def by auto

lemma write_tidy_write_indirect:
  assumes inv: "write_inv fs n node (Some blk)" and td: "write_tidy t fs n node (Some blk) offset"
    and i: "indirect node \<noteq> 0"
    and w: "fs_disk_write fs (unat (indirect node)) blk = Inr fs'"
  shows "write_tidy t fs' n node None offset"
proof -
  let ?B = "unat (blocks (meta_data fs))" and ?IB = "unat (inode_blocks (meta_data fs))"
  let ?b = "unat (indirect node)"
  from inv obtain d where d: "disk fs = Some d" by (rule write_inv_disk)
  from inv obtain fb where fb: "free_blocks fs = Some fb" by (rule write_inv_bitmap)
  note f = d fb write_inv_parts[OF inv d fb, simplified]
  note g = write_tidy_parts[OF td d fb, simplified]
  let ?r = "local_ref (image d) n node blk"
  let ?sz = "local_size (image d) n node offset"
  have rb: "?r n Indirect = ?b" by simp
  from i have b0: "?b \<noteq> 0" by (simp add: unat_eq_0)
  from wf_refsD(6)[OF f(10) f(7), of Indirect] rb b0 have rng: "?IB < ?b" "?b < ?B" by simp_all
  have dis: "k = n \<and> s = Indirect"
    if k: "k < ?IB * INODES_PER_BLOCK" and s: "slot_ok s" and e: "?r k s = ?b" for k s
  proof -
    from rb b0 have nz: "?r n Indirect \<noteq> 0" by simp
    from e rb have "?r k s = ?r n Indirect" by simp
    from wf_refsD(7)[OF f(10) f(7) k _ s nz this] show ?thesis by simp
  qed
  from w f(1) have fs': "fs' = fs\<lparr>disk := Some (d\<lparr>image := (image d)(?b := blk), writes := writes d + 1\<rparr>)\<rparr>"
    unfolding fs_disk_write_Inr by auto
  let ?img' = "(image d)(?b := blk)"
  have "tidy_refs t ?B ?IB (local_ref ?img' n node (?img' ?b)) (local_size ?img' n node offset) fb"
  proof (rule tidy_refs_cong[OF g])
    fix k s assume k: "k < ?IB * INODES_PER_BLOCK" and s: "slot_ok s"
    show "local_ref ?img' n node (?img' ?b) k s = ?r k s"
    proof (cases "k = n")
      case True
      then show ?thesis by simp
    next
      case False
      have "ref (image d) k Indirect \<noteq> ?b"
      proof
        assume "ref (image d) k Indirect = ?b"
        with False have "?r k Indirect = ?b" by simp
        from dis[OF k _ this] False show False by simp
      qed
      from ref_fun_upd[OF k rng(1) this] False show ?thesis by simp
    qed
  next
    fix k assume k: "k < ?IB * INODES_PER_BLOCK"
    show "local_size ?img' n node offset k = ?sz k"
      using file_size_fun_upd[OF k rng(1), of "image d" blk] by (simp add: local_size_def)
  qed
  then show ?thesis using f fs'
    by (intro write_tidyI[of fs' "d\<lparr>image := ?img', writes := writes d + 1\<rparr>" fb])
       (simp_all cong: option.case_cong)
qed

text \<open>Where \<^verbatim>\<open>fs_write\<close> ends: the inode is saved with the larger of its size and the offset
  reached.\<close>

lemma write_tidy_end:
  assumes inv: "write_inv fs n node None" and td: "write_tidy t fs n node None offset"
    and o: "offset < 2 ^ 32"
    and sv: "assert_save_inode fs n
               (node\<lparr>size := (if offset > unat (size node) then of_nat offset else size node)\<rparr>)
               = Inr fs'"
  shows "tidy t fs'"
proof -
  let ?B = "unat (blocks (meta_data fs))" and ?IB = "unat (inode_blocks (meta_data fs))"
  let ?nd = "node\<lparr>size := (if offset > unat (size node) then of_nat offset else size node)\<rparr>"
  from inv obtain d where d: "disk fs = Some d" by (rule write_inv_disk)
  from inv obtain fb where fb: "free_blocks fs = Some fb" by (rule write_inv_bitmap)
  note f = d fb write_inv_parts[OF inv d fb, simplified]
  note g = write_tidy_parts[OF td d fb, simplified]
  let ?r = "local_ref (image d) n node (image d (unat (indirect node)))"
  let ?sz = "local_size (image d) n node offset"
  from assert_save_inode_result[OF sv] f(1)
  have r: "fs' = fs\<lparr>disk := Some (d\<lparr>image := put_inode (image d) n ?nd,
                                      reads := reads d + 1, writes := writes d + 1\<rparr>)\<rparr>"
    by auto
  have nd: "length (direct ?nd) = 5" "valid ?nd \<noteq> 0" using f(8,9) by simp_all
  from wf_refs_Indirect[OF f(10) f(7)]
  have ind: "indirect ?nd = 0 \<or> ?IB < unat (indirect ?nd)"
    by (simp add: local_ref_def unat_eq_0)
  from o have u: "unat (of_nat offset :: u32) = offset" by (simp add: unat_of_nat)
  have sz: "unat (size ?nd) = max offset (unat (size node))" using u by (simp add: max_def)
  have "tidy_refs t ?B ?IB (ref (put_inode (image d) n ?nd)) (file_size (put_inode (image d) n ?nd)) fb"
  proof (rule tidy_refs_cong[OF g])
    fix k s assume k: "k < ?IB * INODES_PER_BLOCK" and s: "slot_ok s"
    show "ref (put_inode (image d) n ?nd) k s = ?r k s"
    proof (cases "k = n")
      case True
      from ref_put_inode_same[OF f(7) nd ind, of "image d" s] True show ?thesis
        by (simp add: local_ref_def)
    next
      case False
      from wf_refs_Indirect[OF f(10) k] False
      have "ref (image d) k Indirect = 0 \<or> ?IB < ref (image d) k Indirect"
        by (simp add: local_ref_def)
      from ref_put_inode_other[OF k f(7) False nd(1) this] False show ?thesis
        by (simp add: local_ref_def)
    qed
  next
    fix k assume k: "k < ?IB * INODES_PER_BLOCK"
    show "file_size (put_inode (image d) n ?nd) k = ?sz k"
      unfolding file_size_put_inode[OF nd(1)] using nd(2) sz by (simp add: local_size_def)
  qed
  with r f show ?thesis
    by (intro tidyI[of fs' "d\<lparr>image := put_inode (image d) n ?nd,
                                      reads := reads d + 1, writes := writes d + 1\<rparr>" fb]) simp_all
qed

subsection \<open>fs\_write keeps the handle tidy\<close>

lemma offset_bound:
  assumes "offset' \<le> (q + 1) * BLOCK_SIZE" and "q < POINTERS_PER_INODE + POINTERS_PER_BLOCK"
  shows "offset' < 2 ^ 32"
proof -
  from assms(2) have "(q + 1) * BLOCK_SIZE \<le> 1029 * 4096"
    by (simp add: POINTERS_PER_INODE_def POINTERS_PER_BLOCK_def BLOCK_SIZE_def)
  with assms(1) show ?thesis by simp
qed

lemma fs_write_direct_tidy:
  assumes "write_inv fs n node None" and "write_tidy t fs n node None offset"
    and "offset < 2 ^ 32" and "0 < len \<longrightarrow> point = offset div BLOCK_SIZE"
    and "fs_write_direct fs node data len offset written point
           = Inr (fs', node', len', offset', written', point', jumped)"
  shows "write_tidy t fs' n node' None offset' \<and> offset' < 2 ^ 32
           \<and> (0 < len' \<longrightarrow> point' = offset' div BLOCK_SIZE)"
  using assms
proof (induction fs node data len offset written point rule: fs_write_direct.induct)
  case (1 fs node data len offset written point)
  note inv = "1.prems"(1) and td = "1.prems"(2) and o32 = "1.prems"(3) and pt = "1.prems"(4)
    and run = "1.prems"(5)
  note simps = fs_write_direct.simps[of fs node data len offset written point]
  show ?case
  proof (cases "point < POINTERS_PER_INODE \<and> 0 < len")
    case False
    with run have "fs' = fs" "node' = node" "len' = len" "offset' = offset" "point' = point"
      by (auto simp add: simps)
    with td o32 pt show ?thesis by simp
  next
    case c: True
    then have p: "point < POINTERS_PER_INODE" and q2: "point = offset div BLOCK_SIZE"
      using pt by simp_all
    from p have q1: "point < POINTERS_PER_INODE + POINTERS_PER_BLOCK" by simp
    have ord: "point * BLOCK_SIZE \<le> offset" unfolding q2 by simp
    have so: "slot_ok (Direct point)" "Direct point \<noteq> Indirect" using p by simp_all
    show ?thesis
    proof (cases "direct node ! point = 0")
      case z: True
      from run c z obtain fs1 b where al: "fs_allocate_free_block fs = Inr (fs1, b)"
        by (cases "fs_allocate_free_block fs") (auto simp add: simps)
      show ?thesis
      proof (cases "b = 0")
        case True
        with run c z al have e: "fs' = fs1" "node' = node\<lparr>direct := (direct node)[point := 0]\<rparr>"
          "len' = len" "offset' = offset" "point' = point"
          by (auto simp add: simps)
        from z have "(direct node)[point := 0] = direct node"
          by (metis list_update_id)
        with e have "node' = node" by simp
        moreover from al True fs_allocate_free_block_none[OF inv] have "fs1 = fs" by simp
        ultimately show ?thesis using e td o32 pt by simp
      next
        case nz: False
        let ?nd = "node\<lparr>direct := (direct node)[point := b]\<rparr>"
        note inv1 = write_inv_alloc_direct[OF inv p z al nz]
        note td1 = write_tidy_alloc_direct[OF inv td p z al nz ord]
        from run c z al nz obtain fs2 len2 off2 w2 where
          wb: "fs_write_block fs1 (unat b) zero_block data len offset written
                 = Inr (fs2, len2, off2, w2)"
          by (cases "fs_write_block fs1 (unat b) zero_block data len offset written")
             (auto simp add: simps)
        with run c z al nz have
          rec: "fs_write_direct fs2 ?nd data len2 off2 w2 (point + 1)
                  = Inr (fs', node', len', offset', written', point', jumped)"
          by (simp add: simps)
        from inv1 obtain d1 where d1: "disk fs1 = Some d1" by (rule write_inv_disk)
        from inv1 have l5: "length (direct node) = 5" unfolding write_inv_def by auto
        have nr: "node_ref ?nd (case None of None \<Rightarrow> image d1 (unat (indirect ?nd)) | Some ib \<Rightarrow> ib)
                    (Direct point) = unat b"
          using p l5 by (simp add: POINTERS_PER_INODE_def)
        have nr': "node_ref ?nd (case None of None \<Rightarrow> image d1 (unat (indirect ?nd)) | Some ib \<Rightarrow> ib)
                    (slot_of point) = unat b"
          using nr unfolding slot_of_Direct[OF p] .
        have b0: "unat b \<noteq> 0" using nz by (simp add: unat_eq_0)
        note inv2 = write_inv_write_block[OF inv1 d1 so nr b0 wb]
        note td2 = write_tidy_write_block[OF inv1 td1 d1 q1 q2 nr' b0 wb o32]
        note r = fs_write_block_result[OF wb o32]
        from r(2) have "off2 \<le> (point + 1) * BLOCK_SIZE" unfolding q2 .
        from offset_bound[OF this q1] have o32': "off2 < 2 ^ 32" .
        from r(3) have pt': "0 < len2 \<longrightarrow> point + 1 = off2 div BLOCK_SIZE" unfolding q2 by simp
        from "1.IH"(1)[OF c z al refl nz wb refl refl refl inv2 td2 o32' pt' rec] show ?thesis .
      qed
    next
      case nz: False
      from run c nz obtain fs1 blk where rd: "fs_disk_read fs (unat (direct node ! point)) = Inr (fs1, blk)"
        by (cases "fs_disk_read fs (unat (direct node ! point))") (auto simp add: simps)
      note inv1 = write_inv_same_contents[OF inv fs_disk_read_same_contents[OF rd]]
      note td1 = write_tidy_same_contents[OF td fs_disk_read_same_contents[OF rd]]
      from run c nz rd obtain fs2 len2 off2 w2 where
        wb: "fs_write_block fs1 (unat (direct node ! point)) blk data len offset written
               = Inr (fs2, len2, off2, w2)"
        by (cases "fs_write_block fs1 (unat (direct node ! point)) blk data len offset written")
           (auto simp add: simps)
      with run c nz rd have
        rec: "fs_write_direct fs2 node data len2 off2 w2 (point + 1)
                = Inr (fs', node', len', offset', written', point', jumped)"
        by (simp add: simps)
      from inv1 obtain d1 where d1: "disk fs1 = Some d1" by (rule write_inv_disk)
      have nr: "node_ref node (case None of None \<Rightarrow> image d1 (unat (indirect node)) | Some ib \<Rightarrow> ib)
                  (Direct point) = unat (direct node ! point)"
        by simp
      have nr': "node_ref node (case None of None \<Rightarrow> image d1 (unat (indirect node)) | Some ib \<Rightarrow> ib)
                  (slot_of point) = unat (direct node ! point)"
        using nr unfolding slot_of_Direct[OF p] .
      have b0: "unat (direct node ! point) \<noteq> 0" using nz by (simp add: unat_eq_0)
      note inv2 = write_inv_write_block[OF inv1 d1 so nr b0 wb]
      note td2 = write_tidy_write_block[OF inv1 td1 d1 q1 q2 nr' b0 wb o32]
      note r = fs_write_block_result[OF wb o32]
      from r(2) have "off2 \<le> (point + 1) * BLOCK_SIZE" unfolding q2 .
      from offset_bound[OF this q1] have o32': "off2 < 2 ^ 32" .
      from r(3) have pt': "0 < len2 \<longrightarrow> point + 1 = off2 div BLOCK_SIZE" unfolding q2 by simp
      from "1.IH"(2)[OF c nz rd refl wb refl refl refl inv2 td2 o32' pt' rec] show ?thesis .
    qed
  qed
qed

lemma fs_write_indirect_tidy:
  assumes "write_inv fs n node (Some block)" and "write_tidy t fs n node (Some block) offset"
    and "indirect node \<noteq> 0"
    and "offset < 2 ^ 32" and "0 < len \<longrightarrow> point + POINTERS_PER_INODE = offset div BLOCK_SIZE"
    and "fs_write_indirect fs block data len offset written point
           = Inr (fs', block', len', offset', written')"
  shows "write_tidy t fs' n node (Some block') offset' \<and> offset' < 2 ^ 32"
  using assms
proof (induction fs block data len offset written point rule: fs_write_indirect.induct)
  case (1 fs block data len offset written point)
  note inv = "1.prems"(1) and td = "1.prems"(2) and ind = "1.prems"(3) and o32 = "1.prems"(4)
    and pt = "1.prems"(5) and run = "1.prems"(6)
  note simps = fs_write_indirect.simps[of fs block data len offset written point]
  show ?case
  proof (cases "0 < len")
    case False
    with run have "fs' = fs" "block' = block" "offset' = offset" by (auto simp add: simps)
    with td o32 show ?thesis by simp
  next
    case c: True
    from run c have p: "\<not> POINTERS_PER_BLOCK \<le> point"
      by (auto simp add: simps split: if_splits)
    then have p': "point < POINTERS_PER_BLOCK" by simp
    from c pt have q2: "point + POINTERS_PER_INODE = offset div BLOCK_SIZE" by simp
    from p' have q1: "point + POINTERS_PER_INODE < POINTERS_PER_INODE + POINTERS_PER_BLOCK" by simp
    have ord: "(point + POINTERS_PER_INODE) * BLOCK_SIZE \<le> offset" unfolding q2 by simp
    have so: "slot_ok (Pointer point)" "Pointer point \<noteq> Indirect" using p' by simp_all
    show ?thesis
    proof (cases "get_u32 block point = 0")
      case z: True
      from run c p z obtain fs1 b where al: "fs_allocate_free_block fs = Inr (fs1, b)"
        by (cases "fs_allocate_free_block fs") (auto simp add: simps)
      show ?thesis
      proof (cases "b = 0")
        case True
        with run c p z al have e: "fs' = fs1" "block' = set_u32 block point 0" "offset' = offset"
          by (auto simp add: simps)
        from z set_u32_get_u32[of block point] have "set_u32 block point 0 = block" by simp
        with e have "block' = block" by simp
        moreover from al True fs_allocate_free_block_none[OF inv] have "fs1 = fs" by simp
        ultimately show ?thesis using e td o32 by simp
      next
        case nz: False
        let ?blk = "set_u32 block point b"
        note inv1 = write_inv_alloc_pointer[OF inv ind p' z al nz]
        note td1 = write_tidy_alloc_pointer[OF inv td ind p' z al nz ord]
        from run c p z al nz obtain fs2 len2 off2 w2 where
          wb: "fs_write_block fs1 (unat b) zero_block data len offset written
                 = Inr (fs2, len2, off2, w2)"
          by (cases "fs_write_block fs1 (unat b) zero_block data len offset written")
             (auto simp add: simps)
        with run c p z al nz have
          rec: "fs_write_indirect fs2 ?blk data len2 off2 w2 (point + 1)
                  = Inr (fs', block', len', offset', written')"
          by (simp add: simps)
        from inv1 obtain d1 where d1: "disk fs1 = Some d1" by (rule write_inv_disk)
        have nr: "node_ref node (case Some ?blk of None \<Rightarrow> image d1 (unat (indirect node)) | Some ib \<Rightarrow> ib)
                    (Pointer point) = unat b"
          using ind by simp
        have nr': "node_ref node (case Some ?blk of None \<Rightarrow> image d1 (unat (indirect node)) | Some ib \<Rightarrow> ib)
                    (slot_of (point + POINTERS_PER_INODE)) = unat b"
          using nr unfolding slot_of_Pointer .
        have b0: "unat b \<noteq> 0" using nz by (simp add: unat_eq_0)
        note inv2 = write_inv_write_block[OF inv1 d1 so nr b0 wb]
        note td2 = write_tidy_write_block[OF inv1 td1 d1 q1 q2 nr' b0 wb o32]
        note r = fs_write_block_result[OF wb o32]
        from r(2) have "off2 \<le> (point + POINTERS_PER_INODE + 1) * BLOCK_SIZE"
          unfolding q2 .
        from offset_bound[OF this q1] have o32': "off2 < 2 ^ 32" .
        from r(3) have pt': "0 < len2 \<longrightarrow> point + 1 + POINTERS_PER_INODE = off2 div BLOCK_SIZE"
          unfolding q2[symmetric] by simp
        from "1.IH"(1)[OF c p z al refl nz wb refl refl refl inv2 td2 ind o32' pt' rec]
        show ?thesis .
      qed
    next
      case nz: False
      from run c p nz obtain fs1 blk where
        rd: "fs_disk_read fs (unat (get_u32 block point)) = Inr (fs1, blk)"
        by (cases "fs_disk_read fs (unat (get_u32 block point))") (auto simp add: simps)
      note inv1 = write_inv_same_contents[OF inv fs_disk_read_same_contents[OF rd]]
      note td1 = write_tidy_same_contents[OF td fs_disk_read_same_contents[OF rd]]
      from run c p nz rd obtain fs2 len2 off2 w2 where
        wb: "fs_write_block fs1 (unat (get_u32 block point)) blk data len offset written
               = Inr (fs2, len2, off2, w2)"
        by (cases "fs_write_block fs1 (unat (get_u32 block point)) blk data len offset written")
           (auto simp add: simps)
      with run c p nz rd have
        rec: "fs_write_indirect fs2 block data len2 off2 w2 (point + 1)
                = Inr (fs', block', len', offset', written')"
        by (simp add: simps)
      from inv1 obtain d1 where d1: "disk fs1 = Some d1" by (rule write_inv_disk)
      have nr: "node_ref node (case Some block of None \<Rightarrow> image d1 (unat (indirect node)) | Some ib \<Rightarrow> ib)
                  (Pointer point) = unat (get_u32 block point)"
        using ind by simp
      have nr': "node_ref node (case Some block of None \<Rightarrow> image d1 (unat (indirect node)) | Some ib \<Rightarrow> ib)
                  (slot_of (point + POINTERS_PER_INODE)) = unat (get_u32 block point)"
        using nr unfolding slot_of_Pointer .
      have b0: "unat (get_u32 block point) \<noteq> 0" using nz by (simp add: unat_eq_0)
      note inv2 = write_inv_write_block[OF inv1 d1 so nr b0 wb]
      note td2 = write_tidy_write_block[OF inv1 td1 d1 q1 q2 nr' b0 wb o32]
      note r = fs_write_block_result[OF wb o32]
      from r(2) have "off2 \<le> (point + POINTERS_PER_INODE + 1) * BLOCK_SIZE"
        unfolding q2 .
      from offset_bound[OF this q1] have o32': "off2 < 2 ^ 32" .
      from r(3) have pt': "0 < len2 \<longrightarrow> point + 1 + POINTERS_PER_INODE = off2 div BLOCK_SIZE"
        unfolding q2[symmetric] by simp
      from "1.IH"(2)[OF c p nz rd refl wb refl refl refl inv2 td2 ind o32' pt' rec]
      show ?thesis .
    qed
  qed
qed

lemma fs_write_indirect_part_tidy:
  assumes inv: "write_inv fs n node None" and td: "write_tidy t fs n node None offset"
    and o32: "offset < 2 ^ 32" and len: "0 < len" and pt: "point = offset div BLOCK_SIZE"
    and run: "fs_write_indirect_part fs node data len offset written point
           = Inr (fs', node', offset', written')"
  shows "write_tidy t fs' n node' None offset' \<and> offset' < 2 ^ 32"
proof -
  note def = fs_write_indirect_part_def[of fs node data len offset written point]
  from run have p: "\<not> point < POINTERS_PER_INODE" by (auto simp add: def split: if_splits)
  with pt len have pt': "0 < len \<longrightarrow> point - POINTERS_PER_INODE + POINTERS_PER_INODE
                            = offset div BLOCK_SIZE" by simp
  show ?thesis
  proof (cases "indirect node = 0")
    case z: True
    with run p have al0: "offset mod BLOCK_SIZE = 0" by (auto simp add: def split: if_splits)
    from run p z al0 obtain fs1 b where al: "fs_allocate_free_block fs = Inr (fs1, b)"
      by (cases "fs_allocate_free_block fs") (auto simp add: def)
    show ?thesis
    proof (cases "b = 0")
      case True
      with run p z al0 al have e: "fs' = fs1" "node' = node\<lparr>indirect := 0\<rparr>" "offset' = offset"
        by (auto simp add: def)
      from z have "node\<lparr>indirect := 0\<rparr> = node" by simp
      with e have "node' = node" by simp
      moreover from al True fs_allocate_free_block_none[OF inv] have "fs1 = fs" by simp
      ultimately show ?thesis using e td o32 by simp
    next
      case nz: False
      let ?nd = "node\<lparr>indirect := b\<rparr>"
      note inv1 = write_inv_alloc_indirect[OF inv z al nz]
      note td1 = write_tidy_alloc_indirect[OF inv td z al nz]
      have ind: "indirect ?nd \<noteq> 0" using nz by simp
      from run p z al0 al nz obtain fs2 blk2 len2 off2 w2 where
        lp: "fs_write_indirect fs1 zero_block data len offset written (point - POINTERS_PER_INODE)
               = Inr (fs2, blk2, len2, off2, w2)"
        by (cases "fs_write_indirect fs1 zero_block data len offset written
                     (point - POINTERS_PER_INODE)") (auto simp add: def)
      note inv2 = fs_write_indirect_write_inv[OF inv1 ind lp]
      from fs_write_indirect_tidy[OF inv1 td1 ind o32 pt' lp]
      have td2: "write_tidy t fs2 n ?nd (Some blk2) off2" and o2: "off2 < 2 ^ 32" by simp_all
      from run p z al0 al nz lp obtain fs3 where
        dw: "fs_disk_write fs2 (unat b) blk2 = Inr fs3"
        by (cases "fs_disk_write fs2 (unat b) blk2") (auto simp add: def)
      with run p z al0 al nz lp have e: "fs' = fs3" "node' = ?nd" "offset' = off2"
        by (auto simp add: def)
      from dw have "fs_disk_write fs2 (unat (indirect ?nd)) blk2 = Inr fs3" by simp
      from write_tidy_write_indirect[OF inv2 td2 ind this] e o2 show ?thesis by simp
    qed
  next
    case nz: False
    from run p nz obtain fs1 blk where rd: "fs_disk_read fs (unat (indirect node)) = Inr (fs1, blk)"
      by (cases "fs_disk_read fs (unat (indirect node))") (auto simp add: def)
    from inv obtain d where d: "disk fs = Some d" by (rule write_inv_disk)
    from rd d have blk: "blk = image d (unat (indirect node))" unfolding fs_disk_read_Inr by auto
    from write_inv_read_indirect[OF inv d] blk have "write_inv fs n node (Some blk)" by simp
    from write_inv_same_contents[OF this fs_disk_read_same_contents[OF rd]]
    have inv1: "write_inv fs1 n node (Some blk)" .
    from write_tidy_read_indirect[OF td d] blk have "write_tidy t fs n node (Some blk) offset"
      by simp
    from write_tidy_same_contents[OF this fs_disk_read_same_contents[OF rd]]
    have td1: "write_tidy t fs1 n node (Some blk) offset" .
    from run p nz rd obtain fs2 blk2 len2 off2 w2 where
      lp: "fs_write_indirect fs1 blk data len offset written (point - POINTERS_PER_INODE)
             = Inr (fs2, blk2, len2, off2, w2)"
      by (cases "fs_write_indirect fs1 blk data len offset written (point - POINTERS_PER_INODE)")
         (auto simp add: def)
    note inv2 = fs_write_indirect_write_inv[OF inv1 nz lp]
    from fs_write_indirect_tidy[OF inv1 td1 nz o32 pt' lp]
    have td2: "write_tidy t fs2 n node (Some blk2) off2" and o2: "off2 < 2 ^ 32" by simp_all
    from run p nz rd lp obtain fs3 where
      dw: "fs_disk_write fs2 (unat (indirect node)) blk2 = Inr fs3"
      by (cases "fs_disk_write fs2 (unat (indirect node)) blk2") (auto simp add: def)
    with run p nz rd lp have e: "fs' = fs3" "node' = node" "offset' = off2"
      by (auto simp add: def)
    from write_tidy_write_indirect[OF inv2 td2 nz dw] e o2 show ?thesis by simp
  qed
qed

lemma fs_write_last_tidy:
  assumes "write_inv fs n node None" and "write_tidy t fs n node None offset"
    and "offset < 2 ^ 32"
    and "fs_write_last fs n node offset written = Inr (fs', r)"
  shows "tidy t fs'"
proof -
  from assms(4) have "assert_save_inode fs n
      (node\<lparr>size := (if offset > unat (size node) then of_nat offset else size node)\<rparr>) = Inr fs'"
    by (auto simp add: fs_write_last_def split: sum.splits)
  from write_tidy_end[OF assms(1-3) this] show ?thesis .
qed

lemma fs_write_tidy:
  assumes c: "consistent fs" and td: "tidy t fs"
    and w: "fs_write fs n data len offset = Inr (fs', r)"
  shows "tidy t fs'"
proof -
  from w obtain fs0 ld where load: "fs_load_inode fs n = Inr (fs0, ld)"
    by (cases "fs_load_inode fs n") (auto simp add: fs_write_def)
  note s0 = fs_load_inode_same_contents[OF load]
  show ?thesis
  proof (cases ld)
    case None
    with w load have "fs' = fs0" by (simp add: fs_write_def)
    with s0 td show ?thesis by (auto intro: tidy_same_contents)
  next
    case (Some node)
    note load' = load[unfolded Some]
    show ?thesis
    proof (cases "offset > unat (size node)")
      case True
      with w load' have "fs' = fs0" by (simp add: fs_write_def)
      with s0 td show ?thesis by (auto intro: tidy_same_contents)
    next
      case False
      then have off: "offset \<le> unat (size node)" by simp
      have "unat (size node) < 2 ^ 32" using unsigned_less[of "size node"] by simp
      with off have o32: "offset < 2 ^ 32" by simp
      note inv0 = write_inv_start[OF c load']
      note td0 = write_tidy_start[OF c td load' off]
      have pt0: "0 < len \<longrightarrow> offset div BLOCK_SIZE = offset div BLOCK_SIZE" by simp
      from w load' False obtain fs1 node1 len1 off1 w1 p1 j1 where
        dl: "fs_write_direct fs0 node data len offset 0 (offset div BLOCK_SIZE)
               = Inr (fs1, node1, len1, off1, w1, p1, j1)"
        by (cases "fs_write_direct fs0 node data len offset 0 (offset div BLOCK_SIZE)")
           (auto simp add: fs_write_def)
      note inv1 = fs_write_direct_write_inv[OF inv0 dl]
      from fs_write_direct_tidy[OF inv0 td0 o32 pt0 dl]
      have td1: "write_tidy t fs1 n node1 None off1" and o1: "off1 < 2 ^ 32"
        and pt1: "0 < len1 \<longrightarrow> p1 = off1 div BLOCK_SIZE" by simp_all
      show ?thesis
      proof (cases "\<not> j1 \<and> len1 > 0")
        case F2: False
        with w load' False dl have "fs_write_last fs1 n node1 off1 w1 = Inr (fs', r)"
          by (auto simp add: fs_write_def)
        from fs_write_last_tidy[OF inv1 td1 o1 this] show ?thesis .
      next
        case True
        with w load' False dl obtain fs2 node2 off2 w2 where
          ip: "fs_write_indirect_part fs1 node1 data len1 off1 w1 p1 = Inr (fs2, node2, off2, w2)"
          by (cases "fs_write_indirect_part fs1 node1 data len1 off1 w1 p1")
             (auto simp add: fs_write_def)
        with w load' False dl True have l: "fs_write_last fs2 n node2 off2 w2 = Inr (fs', r)"
          by (auto simp add: fs_write_def)
        from True pt1 have l1: "0 < len1" and p1: "p1 = off1 div BLOCK_SIZE" by simp_all
        from fs_write_indirect_part_tidy[OF inv1 td1 o1 l1 p1 ip]
        have td2: "write_tidy t fs2 n node2 None off2" and o2: "off2 < 2 ^ 32" by simp_all
        from fs_write_last_tidy[OF fs_write_indirect_part_write_inv[OF inv1 ip] td2 o2 l]
        show ?thesis .
      qed
    qed
  qed
qed

subsection \<open>fs\_create and fs\_remove keep the handle tidy\<close>

lemma fs_create_tidy:
  assumes c: "consistent fs" and td: "tidy t fs" and cr: "fs_create fs = Inr (fs', r)"
  shows "tidy t fs'"
proof -
  let ?B = "unat (blocks (meta_data fs))" and ?IB = "unat (inode_blocks (meta_data fs))"
  let ?nd = "zero_inode\<lparr>valid := 1, indirect := 0\<rparr>"
  have p: "0 < (1::nat)" by simp
  from cr have "fs_create_blocks fs ?IB 1 = Inr (fs', r)" by (simp add: fs_create_def)
  from fs_create_blocks_result[OF this p] show ?thesis
  proof
    assume "same_contents fs fs'"
    with td show ?thesis by (rule tidy_same_contents)
  next
    assume "\<exists>k d d'. disk fs = Some d \<and> disk fs' = Some d' \<and> k < ?IB * INODES_PER_BLOCK
               \<and> valid (inode_at (image d) k) = 0
               \<and> image d' = put_inode (image d) k ?nd
               \<and> disk_blocks d' = disk_blocks d \<and> free_blocks fs' = free_blocks fs
               \<and> meta_data fs' = meta_data fs"
    then obtain k d d' where e: "disk fs = Some d" "disk fs' = Some d'" "k < ?IB * INODES_PER_BLOCK"
      "valid (inode_at (image d) k) = 0" "image d' = put_inode (image d) k ?nd"
      "disk_blocks d' = disk_blocks d" "free_blocks fs' = free_blocks fs"
      "meta_data fs' = meta_data fs"
      by blast
    from c e(1) obtain fb where f: "free_blocks fs = Some fb"
      "wf_refs ?B ?IB (ref (image d)) fb"
      by (auto elim: consistentD)
    note g = tidy_parts[OF td e(1) f(1)]
    have len: "length (direct ?nd) = 5" by (simp add: zero_inode_def)
    have "tidy_refs t ?B ?IB (ref (image d')) (file_size (image d')) fb"
    proof (rule tidy_refs_cong[OF g])
      fix k' s assume k': "k' < ?IB * INODES_PER_BLOCK" and s: "slot_ok s"
      show "ref (image d') k' s = ref (image d) k' s"
      proof (cases "k' = k")
        case True
        have "ref (put_inode (image d) k ?nd) k s = node_ref ?nd (image d (unat (indirect ?nd))) s"
          by (rule ref_put_inode_same[OF e(3) len]) (simp_all add: zero_inode_def)
        with True e(4,5) s show ?thesis by (simp add: node_ref_new_inode ref_def)
      next
        case False
        from ref_put_inode_other[OF k' e(3) False len wf_refs_Indirect[OF f(2) k']] e(5)
        show ?thesis by simp
      qed
    next
      fix k' assume k': "k' < ?IB * INODES_PER_BLOCK"
      show "file_size (image d') k' = file_size (image d) k'"
        unfolding e(5) file_size_put_inode[OF len] using e(4)
        by (simp add: file_size_def zero_inode_def)
    qed
    with e f show ?thesis by (intro tidyI[of fs' d' fb]) simp_all
  qed
qed

text \<open>The bitmap after removing an inode without indirect block.\<close>

lemma fs_remove_valid_direct:
  assumes load: "fs_load_inode fs n = Inr (fs1, Some inode)"
    and ind: "indirect inode = 0"
    and d: "disk fs = Some d"
    and fb: "free_blocks fs = Some fb"
    and rm: "fs_remove fs n = Inr (fs', ok)"
  shows "\<exists>fb'. free_blocks fs' = Some fb' \<and> length fb' = length fb
     \<and> (\<forall>b < length fb. fb' ! b \<longleftrightarrow> fb ! b
           \<and> \<not> (\<exists>i < POINTERS_PER_INODE. (\<forall>j \<le> i. direct inode ! j \<noteq> 0)
                      \<and> unat (direct inode ! i) = b))"
proof -
  from load d have fs1: "fs1 = fs\<lparr>disk := Some (d\<lparr>reads := reads d + 1\<rparr>)\<rparr>"
    unfolding fs_load_inode_Some by auto
  with fb have fb1: "free_blocks fs1 = Some fb" by simp
  from rm load ind obtain fs2 where
    sd: "set_direct_blocks fs1 inode False 0 = Inr fs2"
    and sv: "assert_save_inode fs2 n zero_inode = Inr fs'"
    by (auto simp add: fs_remove_def split: sum.splits if_splits)
  from set_direct_blocks_result[OF sd fb1] obtain fb2 iD where
    D: "fs2 = fs1\<lparr>free_blocks := Some fb2\<rparr>" "length fb2 = length fb" "iD \<le> POINTERS_PER_INODE"
       "\<forall>j. j < iD \<longrightarrow> direct inode ! j \<noteq> 0 \<and> unat (direct inode ! j) < length fb"
       "iD < POINTERS_PER_INODE \<longrightarrow> direct inode ! iD = 0"
       "\<forall>b < length fb. fb2 ! b = (if \<exists>j. j < iD \<and> unat (direct inode ! j) = b then False else fb ! b)"
    by auto
  from assert_save_inode_frame[OF sv] D(1) have fb': "free_blocks fs' = Some fb2" by simp
  have dpre: "\<And>k. k < POINTERS_PER_INODE \<Longrightarrow> (\<forall>j \<le> k. direct inode ! j \<noteq> 0) \<longleftrightarrow> k < iD"
    using prefix_index_iff[of iD POINTERS_PER_INODE "\<lambda>j. direct inode ! j"] D(3,4,5) by blast
  have dset: "\<And>b. (\<exists>k < POINTERS_PER_INODE. (\<forall>j \<le> k. direct inode ! j \<noteq> 0) \<and> unat (direct inode ! k) = b)
                \<longleftrightarrow> (\<exists>j. j < iD \<and> unat (direct inode ! j) = b)"
    using dpre D(3) by (metis less_le_trans)
  have "\<forall>b < length fb. fb2 ! b \<longleftrightarrow> fb ! b
           \<and> \<not> (\<exists>k < POINTERS_PER_INODE. (\<forall>j \<le> k. direct inode ! j \<noteq> 0)
                      \<and> unat (direct inode ! k) = b)"
    unfolding dset using D(6) by auto
  with fb' D(2) show ?thesis by blast
qed

text \<open>Unless the indirect block holds no pointer, \<^verbatim>\<open>fs_remove\<close> clears the entry of every block
  that an inode with slots filled in order refers to; it sets no entry.\<close>

lemma fs_remove_clears:
  assumes load: "fs_load_inode fs n = Inr (fs1, Some inode)"
    and d: "disk fs = Some d"
    and fb: "free_blocks fs = Some fb"
    and rm: "fs_remove fs n = Inr (fs', ok)"
    and fo: "filled_in_order (node_ref inode (image d (unat (indirect inode)))) c"
  shows "\<exists>fb'. free_blocks fs' = Some fb' \<and> length fb' = length fb
     \<and> (\<forall>x < length fb. fb' ! x \<longrightarrow> fb ! x)
     \<and> (\<not> (indirect inode \<noteq> 0 \<and> get_u32 (image d (unat (indirect inode))) 0 = 0)
          \<longrightarrow> (\<forall>x < length fb. \<forall>s. slot_ok s \<and> x \<noteq> 0
                  \<and> node_ref inode (image d (unat (indirect inode))) s = x \<longrightarrow> \<not> fb' ! x))"
proof -
  let ?blk = "image d (unat (indirect inode))"
  let ?\<rho> = "node_ref inode ?blk"
  have dpre: "\<forall>j \<le> i. direct inode ! j \<noteq> 0"
    if i: "i < POINTERS_PER_INODE" and nz: "direct inode ! i \<noteq> 0" for i
  proof (intro allI impI)
    fix j assume j: "j \<le> i"
    show "direct inode ! j \<noteq> 0"
    proof (cases "j = i")
      case True
      with nz show ?thesis by simp
    next
      case False
      with j have ji: "j < i" by simp
      with i have j5: "j < POINTERS_PER_INODE" by simp
      from i have "i < POINTERS_PER_INODE + POINTERS_PER_BLOCK" by simp
      moreover from nz i have "?\<rho> (slot_of i) \<noteq> 0" by (simp add: slot_of_Direct unat_eq_0)
      ultimately have "?\<rho> (slot_of j) \<noteq> 0" using filled_in_orderD(2)[OF fo _ ji] by blast
      with j5 show ?thesis by (simp add: slot_of_Direct unat_eq_0)
    qed
  qed
  have ppre: "\<forall>j \<le> i. get_u32 ?blk j \<noteq> 0"
    if i: "i < POINTERS_PER_BLOCK" and ind: "indirect inode \<noteq> 0" and nz: "get_u32 ?blk i \<noteq> 0" for i
  proof (intro allI impI)
    fix j assume j: "j \<le> i"
    show "get_u32 ?blk j \<noteq> 0"
    proof (cases "j = i")
      case True
      with nz show ?thesis by simp
    next
      case False
      with j have ji: "j + POINTERS_PER_INODE < i + POINTERS_PER_INODE" by simp
      from i have "i + POINTERS_PER_INODE < POINTERS_PER_INODE + POINTERS_PER_BLOCK" by simp
      moreover from nz ind have "?\<rho> (slot_of (i + POINTERS_PER_INODE)) \<noteq> 0"
        by (simp add: slot_of_Pointer unat_eq_0)
      ultimately have "?\<rho> (slot_of (j + POINTERS_PER_INODE)) \<noteq> 0"
        using filled_in_orderD(2)[OF fo _ ji] by blast
      with ind show ?thesis by (simp add: slot_of_Pointer unat_eq_0)
    qed
  qed
  show ?thesis
  proof (cases "indirect inode = 0")
    case z: True
    from fs_remove_valid_direct[OF load z d fb rm] obtain fb' where
      r: "free_blocks fs' = Some fb'" "length fb' = length fb"
      "\<forall>b < length fb. fb' ! b \<longleftrightarrow> fb ! b
           \<and> \<not> (\<exists>i < POINTERS_PER_INODE. (\<forall>j \<le> i. direct inode ! j \<noteq> 0)
                      \<and> unat (direct inode ! i) = b)"
      by blast
    have M: "\<forall>x < length fb. fb' ! x \<longrightarrow> fb ! x" using r(3) by blast
    have F: "\<forall>x < length fb. \<forall>s. slot_ok s \<and> x \<noteq> 0 \<and> ?\<rho> s = x \<longrightarrow> \<not> fb' ! x"
    proof (intro allI impI)
      fix x s assume x: "x < length fb" and a: "slot_ok s \<and> x \<noteq> 0 \<and> ?\<rho> s = x"
      show "\<not> fb' ! x"
      proof (cases s)
        case (Direct i)
        with a have i: "i < POINTERS_PER_INODE" "unat (direct inode ! i) = x" "direct inode ! i \<noteq> 0"
          by auto
        from dpre[OF i(1,3)] i have "\<exists>i < POINTERS_PER_INODE. (\<forall>j \<le> i. direct inode ! j \<noteq> 0)
                      \<and> unat (direct inode ! i) = x" by blast
        with r(3) x show ?thesis by blast
      next
        case Indirect
        with a z show ?thesis by auto
      next
        case (Pointer j)
        with a z show ?thesis by auto
      qed
    qed
    from r(1,2) M F show ?thesis by blast
  next
    case nz: False
    from fs_remove_valid_indirect[OF load nz d fb rm] obtain fb' where
      r: "free_blocks fs' = Some fb'" "length fb' = length fb"
      "\<forall>b < length fb. fb' ! b \<longleftrightarrow> fb ! b
           \<and> \<not> ((\<exists>i < POINTERS_PER_INODE. (\<forall>j \<le> i. direct inode ! j \<noteq> 0)
                      \<and> unat (direct inode ! i) = b)
                \<or> (\<exists>i < POINTERS_PER_BLOCK.
                      (\<forall>j \<le> i. get_u32 ?blk j \<noteq> 0)
                      \<and> unat (get_u32 ?blk i) = b)
                \<or> (get_u32 ?blk 0 \<noteq> 0 \<and> unat (indirect inode) = b))"
      by blast
    have M: "\<forall>x < length fb. fb' ! x \<longrightarrow> fb ! x" using r(3) by blast
    have F: "\<forall>x < length fb. \<forall>s. slot_ok s \<and> x \<noteq> 0 \<and> ?\<rho> s = x \<longrightarrow> \<not> fb' ! x"
      if p0: "get_u32 ?blk 0 \<noteq> 0"
    proof (intro allI impI)
      fix x s assume x: "x < length fb" and a: "slot_ok s \<and> x \<noteq> 0 \<and> ?\<rho> s = x"
      show "\<not> fb' ! x"
      proof (cases s)
        case (Direct i)
        with a have i: "i < POINTERS_PER_INODE" "unat (direct inode ! i) = x" "direct inode ! i \<noteq> 0"
          by auto
        from dpre[OF i(1,3)] i have "\<exists>i < POINTERS_PER_INODE. (\<forall>j \<le> i. direct inode ! j \<noteq> 0)
                      \<and> unat (direct inode ! i) = x" by blast
        with r(3) x show ?thesis by blast
      next
        case Indirect
        with a have "unat (indirect inode) = x" by simp
        with p0 r(3) x show ?thesis by blast
      next
        case (Pointer j)
        with a nz have j: "j < POINTERS_PER_BLOCK" "unat (get_u32 ?blk j) = x" "get_u32 ?blk j \<noteq> 0"
          by auto
        from ppre[OF j(1) nz j(3)] j have "\<exists>i < POINTERS_PER_BLOCK.
                      (\<forall>j \<le> i. get_u32 ?blk j \<noteq> 0) \<and> unat (get_u32 ?blk i) = x" by blast
        with r(3) x show ?thesis by blast
      qed
    qed
    from r(1,2) M F nz show ?thesis by blast
  qed
qed

lemma fs_remove_tidy:
  assumes c: "consistent fs" and td: "tidy t fs" and rm: "fs_remove fs n = Inr (fs', ok)"
    and nl: "t \<longrightarrow> \<not> leaves_indirect fs (Remove n)"
  shows "tidy t fs'"
proof -
  let ?B = "unat (blocks (meta_data fs))" and ?IB = "unat (inode_blocks (meta_data fs))"
  from rm obtain fs1 ld where load: "fs_load_inode fs n = Inr (fs1, ld)"
    by (auto simp add: fs_remove_def split: sum.splits)
  show ?thesis
  proof (cases ld)
    case None
    with rm load have "fs' = fs1" by (simp add: fs_remove_def)
    with fs_load_inode_same_contents[OF load] td show ?thesis
      by (auto intro: tidy_same_contents)
  next
    case (Some inode)
    from c obtain d fb where f: "disk fs = Some d" "free_blocks fs = Some fb"
      "disk_blocks d = ?B"
      "unat (inodes (meta_data fs)) = ?IB * INODES_PER_BLOCK"
      "magic_number (meta_data fs) = MAGIC_NUMBER"
      "block_super (image d 0) = meta_data fs"
      "wf_refs ?B ?IB (ref (image d)) fb"
      by (rule consistentD)
    note g = tidy_parts[OF td f(1,2)]
    note load' = load[unfolded Some]
    note l = fs_load_inode_inode_at[OF load' f(1)]
    from l(2) f(4) have n: "n < ?IB * INODES_PER_BLOCK" by simp
    let ?blk = "image d (unat (indirect inode))"
    have rn: "ref (image d) n = node_ref inode ?blk"
      using l(3,4) by (simp add: ref_def fun_eq_iff)
    from tidy_refsD(1)[OF g n] have fo: "filled_in_order (node_ref inode ?blk) (file_size (image d) n)"
      unfolding rn .
    from fs_remove_frees[OF load' f(1,2) rm] obtain d' fb' where
      r: "disk fs' = Some d'" "image d' = put_inode (image d) n zero_inode"
         "disk_blocks d' = disk_blocks d" "meta_data fs' = meta_data fs"
         "free_blocks fs' = Some fb'" "length fb' = length fb"
      by blast
    from fs_remove_clears[OF load' f(1,2) rm fo] r(5) have
      M: "\<forall>x < length fb. fb' ! x \<longrightarrow> fb ! x"
      and F: "\<not> (indirect inode \<noteq> 0 \<and> get_u32 ?blk 0 = 0)
          \<longrightarrow> (\<forall>x < length fb. \<forall>s. slot_ok s \<and> x \<noteq> 0 \<and> node_ref inode ?blk s = x \<longrightarrow> \<not> fb' ! x)"
      by auto
    have len: "length fb = ?B" using wf_refsD(1)[OF f(7)] .
    have z: "length (direct zero_inode) = 5" "valid zero_inode = 0" by (simp_all add: zero_inode_def)
    have re: "ref (image d') k s = (if k = n then 0 else ref (image d) k s)"
      if k: "k < ?IB * INODES_PER_BLOCK" for k s
    proof (cases "k = n")
      case True
      with r(2) ref_put_inode_invalid[OF z, of "image d" n s] show ?thesis by simp
    next
      case False
      from ref_put_inode_other[OF k n False z(1) wf_refs_Indirect[OF f(7) k]] r(2) False
      show ?thesis by simp
    qed
    have "tidy_refs t ?B ?IB (ref (image d')) (file_size (image d')) fb'"
    proof (rule tidy_refsI)
      fix k assume k: "k < ?IB * INODES_PER_BLOCK"
      show "filled_in_order (ref (image d') k) (file_size (image d') k)"
      proof (cases "k = n")
        case True
        have "file_size (image d') n = 0"
          unfolding r(2) file_size_put_inode[OF z(1)] using z(2) by simp
        moreover have "filled_in_order (ref (image d') n) 0"
          by (rule filled_in_order_empty) (simp add: re[OF n])
        ultimately show ?thesis using True by simp
      next
        case False
        have "file_size (image d') k = file_size (image d) k"
          unfolding r(2) file_size_put_inode[OF z(1)] using False by simp
        moreover have "filled_in_order (ref (image d') k) (file_size (image d) k)"
          by (rule filled_in_order_cong[OF tidy_refsD(1)[OF g k]]) (simp add: re[OF k] False)
        ultimately show ?thesis by simp
      qed
    next
      fix x assume t: "t" and x: "x < ?B" "fb' ! x"
      from x len M have fx: "fb ! x" by simp
      from nl t f(1) l(2,3,4) have "\<not> (indirect inode \<noteq> 0 \<and> get_u32 ?blk 0 = 0)" by simp
      from this F have A: "\<forall>x < length fb. \<forall>s. slot_ok s \<and> x \<noteq> 0
          \<and> node_ref inode ?blk s = x \<longrightarrow> \<not> fb' ! x" by (rule rev_mp)
      from x(1) len have xl: "x < length fb" by simp
      have F': "\<not> fb' ! x" if "slot_ok s" "x \<noteq> 0" "node_ref inode ?blk s = x" for s
        using A[rule_format, OF xl, of s] that by simp
      from tidy_refsD(2)[OF g t x(1) fx]
      show "x \<le> ?IB \<or> (\<exists>k s. k < ?IB * INODES_PER_BLOCK \<and> slot_ok s \<and> ref (image d') k s = x)"
      proof
        assume "x \<le> ?IB" then show ?thesis by simp
      next
        assume "\<exists>k s. k < ?IB * INODES_PER_BLOCK \<and> slot_ok s \<and> ref (image d) k s = x"
        then obtain k s where ks: "k < ?IB * INODES_PER_BLOCK" "slot_ok s" "ref (image d) k s = x"
          by blast
        show ?thesis
        proof (cases "k = n")
          case True
          with ks rn have e: "node_ref inode ?blk s = x" by simp
          have "x = 0"
          proof (rule ccontr)
            assume "x \<noteq> 0"
            from F'[OF ks(2) this e] x(2) show False by simp
          qed
          then show ?thesis by simp
        next
          case False
          with re[OF ks(1), of s] ks have "k < ?IB * INODES_PER_BLOCK \<and> slot_ok s
              \<and> ref (image d') k s = x" by simp
          then show ?thesis by blast
        qed
      qed
    qed
    with r show ?thesis by (intro tidyI[of fs' d' fb']) simp_all
  qed
qed

subsection \<open>Sequences of operations keep the handle tidy\<close>

lemma apply_operation_tidy:
  assumes c: "consistent fs" and td: "tidy t fs" and a: "apply_operation fs x = Inr fs'"
    and nl: "t \<longrightarrow> \<not> leaves_indirect fs x"
  shows "tidy t fs'"
proof (cases x)
  case Create
  with a obtain r where "fs_create fs = Inr (fs', r)"
    by (cases "fs_create fs") auto
  from fs_create_tidy[OF c td this] show ?thesis .
next
  case (Remove n)
  with a obtain r where "fs_remove fs n = Inr (fs', r)"
    by (cases "fs_remove fs n") auto
  from fs_remove_tidy[OF c td this] nl Remove show ?thesis by simp
next
  case (Stat n)
  with a obtain r where "fs_stat fs n = Inr (fs', r)"
    by (cases "fs_stat fs n") auto
  from tidy_same_contents[OF td fs_stat_same_contents[OF this]] show ?thesis .
next
  case (Read n buf len offset)
  with a obtain r where "fs_read fs n buf len offset = Inr (fs', r)"
    by (cases "fs_read fs n buf len offset") auto
  from tidy_same_contents[OF td fs_read_same_contents[OF this]] show ?thesis .
next
  case (Write n buf len offset)
  with a obtain r where "fs_write fs n buf len offset = Inr (fs', r)"
    by (cases "fs_write fs n buf len offset") auto
  from fs_write_tidy[OF c td this] show ?thesis .
qed

lemma run_tidy:
  assumes "consistent fs" and "tidy t fs" and "run fs ops = Inr fs'"
    and "t \<longrightarrow> no_indirect_left fs ops"
  shows "tidy t fs'"
  using assms
proof (induction ops arbitrary: fs)
  case Nil
  then show ?case by simp
next
  case (Cons x xs)
  from Cons.prems(3) obtain fs1 where a: "apply_operation fs x = Inr fs1"
    and r: "run fs1 xs = Inr fs'"
    by (cases "apply_operation fs x") auto
  from Cons.prems(4) a have nl: "t \<longrightarrow> \<not> leaves_indirect fs x"
    and nl': "t \<longrightarrow> no_indirect_left fs1 xs" by simp_all
  note c1 = apply_operation_consistent[OF Cons.prems(1) a]
  note t1 = apply_operation_tidy[OF Cons.prems(1,2) a nl]
  from Cons.IH[OF c1 t1 r nl'] show ?case .
qed

subsection \<open>What mounting marks\<close>

lemma set_direct_blocks_covers:
  assumes sd: "set_direct_blocks fs nd True 0 = Inr fs1" and fb: "free_blocks fs = Some fb"
    and fo: "filled_in_order (node_ref nd ib) c"
  shows "\<exists>fb1. fs1 = fs\<lparr>free_blocks := Some fb1\<rparr> \<and> length fb1 = length fb
           \<and> (\<forall>x < length fb. fb ! x \<longrightarrow> fb1 ! x)
           \<and> (\<forall>i < POINTERS_PER_INODE. direct nd ! i \<noteq> 0
                 \<longrightarrow> unat (direct nd ! i) < length fb \<and> fb1 ! unat (direct nd ! i))"
proof -
  from set_direct_blocks_result[OF sd fb] obtain fb1 iD where
    D: "fs1 = fs\<lparr>free_blocks := Some fb1\<rparr>" "length fb1 = length fb" "iD \<le> POINTERS_PER_INODE"
       "\<forall>j. j < iD \<longrightarrow> direct nd ! j \<noteq> 0 \<and> unat (direct nd ! j) < length fb"
       "iD < POINTERS_PER_INODE \<longrightarrow> direct nd ! iD = 0"
       "\<forall>b < length fb. fb1 ! b = (if \<exists>j. j < iD \<and> unat (direct nd ! j) = b then True else fb ! b)"
    by auto
  have pre: "i < iD" if i: "i < POINTERS_PER_INODE" and nz: "direct nd ! i \<noteq> 0" for i
  proof (rule ccontr)
    assume "\<not> i < iD"
    then have le: "iD \<le> i" by simp
    with i have "iD < POINTERS_PER_INODE" by simp
    with D(5) have z: "direct nd ! iD = 0" by simp
    with nz have "iD \<noteq> i" by auto
    with le have lt: "iD < i" by simp
    from i have "i < POINTERS_PER_INODE + POINTERS_PER_BLOCK" by simp
    moreover from nz i have "node_ref nd ib (slot_of i) \<noteq> 0" by (simp add: slot_of_Direct unat_eq_0)
    ultimately have "node_ref nd ib (slot_of iD) \<noteq> 0" using filled_in_orderD(2)[OF fo _ lt] by blast
    with \<open>iD < POINTERS_PER_INODE\<close> z show False by (simp add: slot_of_Direct)
  qed
  have m: "\<forall>x < length fb. fb ! x \<longrightarrow> fb1 ! x" using D(6) by simp
  have c: "\<forall>i < POINTERS_PER_INODE. direct nd ! i \<noteq> 0
                 \<longrightarrow> unat (direct nd ! i) < length fb \<and> fb1 ! unat (direct nd ! i)"
  proof (intro allI impI)
    fix i assume i: "i < POINTERS_PER_INODE" "direct nd ! i \<noteq> 0"
    from pre[OF i] D(4) have l: "unat (direct nd ! i) < length fb" by simp
    moreover from pre[OF i] D(6) l have "fb1 ! unat (direct nd ! i)" by auto
    ultimately show "unat (direct nd ! i) < length fb \<and> fb1 ! unat (direct nd ! i)" by simp
  qed
  from D(1,2) m c show ?thesis by blast
qed

lemma set_pointer_blocks_covers:
  assumes sp: "set_pointer_blocks fs ib True 0 = Inr (fs1, j0)" and fb: "free_blocks fs = Some fb"
    and fo: "filled_in_order (node_ref nd ib) c" and ind: "indirect nd \<noteq> 0"
  shows "\<exists>fb1. fs1 = fs\<lparr>free_blocks := Some fb1\<rparr> \<and> length fb1 = length fb
           \<and> (\<forall>x < length fb. fb ! x \<longrightarrow> fb1 ! x)
           \<and> (\<forall>i < POINTERS_PER_BLOCK. get_u32 ib i \<noteq> 0
                 \<longrightarrow> unat (get_u32 ib i) < length fb \<and> fb1 ! unat (get_u32 ib i))"
proof -
  from set_pointer_blocks_result[OF sp fb] obtain fb1 where
    P: "fs1 = fs\<lparr>free_blocks := Some fb1\<rparr>" "length fb1 = length fb" "j0 \<le> POINTERS_PER_BLOCK"
       "\<forall>j. j < j0 \<longrightarrow> get_u32 ib j \<noteq> 0 \<and> unat (get_u32 ib j) < length fb"
       "j0 < POINTERS_PER_BLOCK \<longrightarrow> get_u32 ib j0 = 0"
       "\<forall>b < length fb. fb1 ! b = (if \<exists>j. j < j0 \<and> unat (get_u32 ib j) = b then True else fb ! b)"
    by auto
  have pre: "i < j0" if i: "i < POINTERS_PER_BLOCK" and nz: "get_u32 ib i \<noteq> 0" for i
  proof (rule ccontr)
    assume "\<not> i < j0"
    then have le: "j0 \<le> i" by simp
    with i have j: "j0 < POINTERS_PER_BLOCK" by simp
    with P(5) have z: "get_u32 ib j0 = 0" by simp
    with nz have "j0 \<noteq> i" by auto
    with le have lt: "j0 + POINTERS_PER_INODE < i + POINTERS_PER_INODE" by simp
    from i have "i + POINTERS_PER_INODE < POINTERS_PER_INODE + POINTERS_PER_BLOCK" by simp
    moreover from nz ind have "node_ref nd ib (slot_of (i + POINTERS_PER_INODE)) \<noteq> 0"
      by (simp add: slot_of_Pointer unat_eq_0)
    ultimately have "node_ref nd ib (slot_of (j0 + POINTERS_PER_INODE)) \<noteq> 0"
      using filled_in_orderD(2)[OF fo _ lt] by blast
    with z ind show False by (simp add: slot_of_Pointer)
  qed
  have m: "\<forall>x < length fb. fb ! x \<longrightarrow> fb1 ! x" using P(6) by simp
  have c: "\<forall>i < POINTERS_PER_BLOCK. get_u32 ib i \<noteq> 0
                 \<longrightarrow> unat (get_u32 ib i) < length fb \<and> fb1 ! unat (get_u32 ib i)"
  proof (intro allI impI)
    fix i assume i: "i < POINTERS_PER_BLOCK" "get_u32 ib i \<noteq> 0"
    from pre[OF i] P(4) have l: "unat (get_u32 ib i) < length fb" by simp
    moreover from pre[OF i] P(6) l have "fb1 ! unat (get_u32 ib i)" by auto
    ultimately show "unat (get_u32 ib i) < length fb \<and> fb1 ! unat (get_u32 ib i)" by simp
  qed
  from P(1,2) m c show ?thesis by blast
qed

text \<open>The blocks of one inode: the statements of \<^verbatim>\<open>fs_initialize_free_block_bitmap\<close> for an
  inode whose slots are filled in order mark every block that the inode refers to.\<close>

lemma inode_covers:
  assumes sd: "set_direct_blocks fs nd True 0 = Inr fs1" and fb: "free_blocks fs = Some fb"
    and fo: "filled_in_order (node_ref nd ib) c"
    and rest: "indirect nd = 0 \<and> fs4 = fs1
       \<or> indirect nd \<noteq> 0
          \<and> (\<exists>fs2 fs3 j. set_free_block fs1 (unat (indirect nd)) True = Inr fs2
                \<and> free_blocks fs3 = free_blocks fs2
                \<and> set_pointer_blocks fs3 ib True 0 = Inr (fs4, j))"
  shows "\<exists>fb4. free_blocks fs4 = Some fb4 \<and> length fb4 = length fb
           \<and> (\<forall>x < length fb. fb ! x \<longrightarrow> fb4 ! x)
           \<and> (\<forall>s. slot_ok s \<and> node_ref nd ib s \<noteq> 0
                 \<longrightarrow> node_ref nd ib s < length fb \<and> fb4 ! node_ref nd ib s)"
proof -
  from set_direct_blocks_covers[OF sd fb fo] obtain fb1 where
    D: "fs1 = fs\<lparr>free_blocks := Some fb1\<rparr>" "length fb1 = length fb"
       "\<forall>x < length fb. fb ! x \<longrightarrow> fb1 ! x"
       "\<forall>i < POINTERS_PER_INODE. direct nd ! i \<noteq> 0
                 \<longrightarrow> unat (direct nd ! i) < length fb \<and> fb1 ! unat (direct nd ! i)"
    by blast
  from rest show ?thesis
  proof
    assume a: "indirect nd = 0 \<and> fs4 = fs1"
    have "\<forall>s. slot_ok s \<and> node_ref nd ib s \<noteq> 0
                 \<longrightarrow> node_ref nd ib s < length fb \<and> fb1 ! node_ref nd ib s"
    proof (intro allI impI)
      fix s assume s: "slot_ok s \<and> node_ref nd ib s \<noteq> 0"
      show "node_ref nd ib s < length fb \<and> fb1 ! node_ref nd ib s"
      proof (cases s)
        case (Direct i)
        with s D(4) show ?thesis by (auto simp add: unat_eq_0)
      next
        case Indirect
        with s a show ?thesis by simp
      next
        case (Pointer j)
        with s a show ?thesis by simp
      qed
    qed
    with a D show ?thesis by simp
  next
    assume "indirect nd \<noteq> 0
          \<and> (\<exists>fs2 fs3 j. set_free_block fs1 (unat (indirect nd)) True = Inr fs2
                \<and> free_blocks fs3 = free_blocks fs2
                \<and> set_pointer_blocks fs3 ib True 0 = Inr (fs4, j))"
    then obtain fs2 fs3 j where ind: "indirect nd \<noteq> 0"
      and sf: "set_free_block fs1 (unat (indirect nd)) True = Inr fs2"
      and e3: "free_blocks fs3 = free_blocks fs2"
      and sp: "set_pointer_blocks fs3 ib True 0 = Inr (fs4, j)" by blast
    let ?x = "unat (indirect nd)"
    from sf D(1,2) have il: "?x < length fb"
      and fb2: "free_blocks fs2 = Some (fb1[?x := True])"
      by (auto simp add: set_free_block_Inr)
    from e3 fb2 have fb3: "free_blocks fs3 = Some (fb1[?x := True])" by simp
    from set_pointer_blocks_covers[OF sp fb3 fo ind] D(2) obtain fb4 where
      P: "fs4 = fs3\<lparr>free_blocks := Some fb4\<rparr>" "length fb4 = length fb"
         "\<forall>x < length fb. (fb1[?x := True]) ! x \<longrightarrow> fb4 ! x"
         "\<forall>i < POINTERS_PER_BLOCK. get_u32 ib i \<noteq> 0
                 \<longrightarrow> unat (get_u32 ib i) < length fb \<and> fb4 ! unat (get_u32 ib i)"
      by auto
    have m12: "\<forall>x < length fb. fb1 ! x \<longrightarrow> (fb1[?x := True]) ! x"
    proof (intro allI impI)
      fix x assume "x < length fb" "fb1 ! x"
      with D(2) show "(fb1[?x := True]) ! x" by (cases "x = ?x") simp_all
    qed
    have m: "\<forall>x < length fb. fb ! x \<longrightarrow> fb4 ! x" using D(3) m12 P(3) by blast
    have i4: "fb4 ! ?x" using P(3) il D(2) by simp
    have "\<forall>s. slot_ok s \<and> node_ref nd ib s \<noteq> 0
                 \<longrightarrow> node_ref nd ib s < length fb \<and> fb4 ! node_ref nd ib s"
    proof (intro allI impI)
      fix s assume s: "slot_ok s \<and> node_ref nd ib s \<noteq> 0"
      show "node_ref nd ib s < length fb \<and> fb4 ! node_ref nd ib s"
      proof (cases s)
        case (Direct i)
        with s D(4) have "unat (direct nd ! i) < length fb \<and> fb1 ! unat (direct nd ! i)"
          by (auto simp add: unat_eq_0)
        with m12 P(3) Direct show ?thesis by simp
      next
        case Indirect
        with il i4 show ?thesis by simp
      next
        case (Pointer k)
        with s ind P(4) show ?thesis by (auto simp add: unat_eq_0)
      qed
    qed
    with P(1,2) m show ?thesis by simp
  qed
qed

lemma bitmap_inodes_covers:
  assumes "bitmap_inodes fs b p = Inr fs'"
    and "free_blocks fs = Some fb" and "disk fs = Some d" and "image d = img"
    and "\<forall>p' < INODES_PER_BLOCK. valid (block_inode b p') \<noteq> 0
           \<longrightarrow> (\<exists>c. filled_in_order
                      (node_ref (block_inode b p') (img (unat (indirect (block_inode b p'))))) c)"
  shows "\<exists>fb' d'. free_blocks fs' = Some fb' \<and> length fb' = length fb
           \<and> disk fs' = Some d' \<and> image d' = img
           \<and> (\<forall>x < length fb. fb ! x \<longrightarrow> fb' ! x)
           \<and> (\<forall>p' s. p \<le> p' \<and> p' < INODES_PER_BLOCK \<and> valid (block_inode b p') \<noteq> 0
                  \<and> slot_ok s
                  \<and> node_ref (block_inode b p') (img (unat (indirect (block_inode b p')))) s \<noteq> 0
                \<longrightarrow> node_ref (block_inode b p') (img (unat (indirect (block_inode b p')))) s
                      < length fb
                    \<and> fb' ! node_ref (block_inode b p')
                              (img (unat (indirect (block_inode b p')))) s)"
  using assms
proof (induction fs b p arbitrary: fb d rule: bitmap_inodes.induct)
  case (1 fs b p)
  note run = "1.prems"(1) and fb = "1.prems"(2) and d = "1.prems"(3) and img = "1.prems"(4)
    and hyp = "1.prems"(5)
  note simps = bitmap_inodes.simps[of fs b p]
  let ?R = "\<lambda>p'. node_ref (block_inode b p') (img (unat (indirect (block_inode b p'))))"
  show ?case
  proof (cases "p < INODES_PER_BLOCK")
    case False
    with run have "fs' = fs" by (simp add: simps)
    with False fb d img show ?thesis by auto
  next
    case p: True
    let ?nd = "block_inode b p"
    let ?ib = "img (unat (indirect ?nd))"
    show ?thesis
    proof (cases "valid ?nd = 0")
      case z: True
      with run p have rec: "bitmap_inodes fs b (p + 1) = Inr fs'" by (simp add: simps)
      from "1.IH"(1)[OF p z rec fb d img hyp] obtain fb' d' where
        r: "free_blocks fs' = Some fb'" "length fb' = length fb" "disk fs' = Some d'"
           "image d' = img" "\<forall>x < length fb. fb ! x \<longrightarrow> fb' ! x"
           "\<forall>p' s. p + 1 \<le> p' \<and> p' < INODES_PER_BLOCK \<and> valid (block_inode b p') \<noteq> 0
                  \<and> slot_ok s \<and> ?R p' s \<noteq> 0
                \<longrightarrow> ?R p' s < length fb \<and> fb' ! ?R p' s"
        by blast
      have "\<forall>p' s. p \<le> p' \<and> p' < INODES_PER_BLOCK \<and> valid (block_inode b p') \<noteq> 0
                  \<and> slot_ok s \<and> ?R p' s \<noteq> 0
                \<longrightarrow> ?R p' s < length fb \<and> fb' ! ?R p' s"
      proof (intro allI impI)
        fix p' s assume a: "p \<le> p' \<and> p' < INODES_PER_BLOCK \<and> valid (block_inode b p') \<noteq> 0
                  \<and> slot_ok s \<and> ?R p' s \<noteq> 0"
        with z have "p' \<noteq> p" by auto
        with a have "p + 1 \<le> p'" by simp
        with a r(6) show "?R p' s < length fb \<and> fb' ! ?R p' s" by blast
      qed
      with r(1-5) show ?thesis by blast
    next
      case nz: False
      from hyp p nz obtain c where fo: "filled_in_order (node_ref ?nd ?ib) c" by blast
      from run p nz obtain fs1 where sd: "set_direct_blocks fs ?nd True 0 = Inr fs1"
        by (cases "set_direct_blocks fs ?nd True 0") (auto simp add: simps)
      from set_direct_blocks_covers[OF sd fb fo] have fs1: "disk fs1 = disk fs" by auto
      have "\<exists>fs4. (indirect ?nd = 0 \<and> fs4 = fs1
                \<or> indirect ?nd \<noteq> 0
                  \<and> (\<exists>fs2 fs3 j. set_free_block fs1 (unat (indirect ?nd)) True = Inr fs2
                        \<and> free_blocks fs3 = free_blocks fs2
                        \<and> set_pointer_blocks fs3 ?ib True 0 = Inr (fs4, j)))
              \<and> bitmap_inodes fs4 b (p + 1) = Inr fs'
              \<and> (\<exists>d4. disk fs4 = Some d4 \<and> image d4 = img)
              \<and> (\<forall>fb4. free_blocks fs4 = Some fb4
                    \<longrightarrow> (\<exists>fb' d'. free_blocks fs' = Some fb' \<and> length fb' = length fb4
                          \<and> disk fs' = Some d' \<and> image d' = img
                          \<and> (\<forall>x < length fb4. fb4 ! x \<longrightarrow> fb' ! x)
                          \<and> (\<forall>p' s. p + 1 \<le> p' \<and> p' < INODES_PER_BLOCK
                                \<and> valid (block_inode b p') \<noteq> 0 \<and> slot_ok s \<and> ?R p' s \<noteq> 0
                              \<longrightarrow> ?R p' s < length fb4 \<and> fb' ! ?R p' s)))"
      proof (cases "indirect ?nd = 0")
        case iz: True
        with run p nz sd have rec: "bitmap_inodes fs1 b (p + 1) = Inr fs'" by (simp add: simps)
        from fs1 d have d1: "disk fs1 = Some d" by simp
        have "\<forall>fb4. free_blocks fs1 = Some fb4
                    \<longrightarrow> (\<exists>fb' d'. free_blocks fs' = Some fb' \<and> length fb' = length fb4
                          \<and> disk fs' = Some d' \<and> image d' = img
                          \<and> (\<forall>x < length fb4. fb4 ! x \<longrightarrow> fb' ! x)
                          \<and> (\<forall>p' s. p + 1 \<le> p' \<and> p' < INODES_PER_BLOCK
                                \<and> valid (block_inode b p') \<noteq> 0 \<and> slot_ok s \<and> ?R p' s \<noteq> 0
                              \<longrightarrow> ?R p' s < length fb4 \<and> fb' ! ?R p' s))"
        proof (intro allI impI)
          fix fb4 assume "free_blocks fs1 = Some fb4"
          from "1.IH"(2)[OF p nz sd iz rec this d1 img hyp]
          show "\<exists>fb' d'. free_blocks fs' = Some fb' \<and> length fb' = length fb4
                          \<and> disk fs' = Some d' \<and> image d' = img
                          \<and> (\<forall>x < length fb4. fb4 ! x \<longrightarrow> fb' ! x)
                          \<and> (\<forall>p' s. p + 1 \<le> p' \<and> p' < INODES_PER_BLOCK
                                \<and> valid (block_inode b p') \<noteq> 0 \<and> slot_ok s \<and> ?R p' s \<noteq> 0
                              \<longrightarrow> ?R p' s < length fb4 \<and> fb' ! ?R p' s)" .
        qed
        with iz rec d1 img show ?thesis by blast
      next
        case inz: False
        from run p nz sd inz obtain fs2 where
          sf: "set_free_block fs1 (unat (indirect ?nd)) True = Inr fs2"
          by (cases "set_free_block fs1 (unat (indirect ?nd)) True") (auto simp add: simps)
        from run p nz sd inz sf obtain fs3 blk where
          rd: "fs_disk_read fs2 (unat (indirect ?nd)) = Inr (fs3, blk)"
          by (cases "fs_disk_read fs2 (unat (indirect ?nd))") (auto simp add: simps)
        from sf fs1 d have d2: "disk fs2 = Some d" by (auto simp add: set_free_block_Inr)
        from rd d2 img have blk: "blk = ?ib"
          and d3: "disk fs3 = Some (d\<lparr>reads := reads d + 1\<rparr>)"
          and e3: "free_blocks fs3 = free_blocks fs2"
          unfolding fs_disk_read_Inr by auto
        from run p nz sd inz sf rd blk obtain fs4 j where
          sp: "set_pointer_blocks fs3 ?ib True 0 = Inr (fs4, j)"
          by (cases "set_pointer_blocks fs3 ?ib True 0") (auto simp add: simps)
        with run p nz sd inz sf rd blk have rec: "bitmap_inodes fs4 b (p + 1) = Inr fs'"
          by (simp add: simps)
        obtain fb3 where fb3: "free_blocks fs3 = Some fb3"
          using sf e3 by (auto simp add: set_free_block_Inr)
        from set_pointer_blocks_result[OF sp fb3] d3
        have d4: "disk fs4 = Some (d\<lparr>reads := reads d + 1\<rparr>)" by auto
        have i4: "image (d\<lparr>reads := reads d + 1\<rparr>) = img" using img by simp
        have "\<forall>fb4. free_blocks fs4 = Some fb4
                    \<longrightarrow> (\<exists>fb' d'. free_blocks fs' = Some fb' \<and> length fb' = length fb4
                          \<and> disk fs' = Some d' \<and> image d' = img
                          \<and> (\<forall>x < length fb4. fb4 ! x \<longrightarrow> fb' ! x)
                          \<and> (\<forall>p' s. p + 1 \<le> p' \<and> p' < INODES_PER_BLOCK
                                \<and> valid (block_inode b p') \<noteq> 0 \<and> slot_ok s \<and> ?R p' s \<noteq> 0
                              \<longrightarrow> ?R p' s < length fb4 \<and> fb' ! ?R p' s))"
        proof (intro allI impI)
          fix fb4 assume "free_blocks fs4 = Some fb4"
          from "1.IH"(3)[OF p nz sd inz sf rd[unfolded blk] refl sp refl rec this d4 i4 hyp]
          show "\<exists>fb' d'. free_blocks fs' = Some fb' \<and> length fb' = length fb4
                          \<and> disk fs' = Some d' \<and> image d' = img
                          \<and> (\<forall>x < length fb4. fb4 ! x \<longrightarrow> fb' ! x)
                          \<and> (\<forall>p' s. p + 1 \<le> p' \<and> p' < INODES_PER_BLOCK
                                \<and> valid (block_inode b p') \<noteq> 0 \<and> slot_ok s \<and> ?R p' s \<noteq> 0
                              \<longrightarrow> ?R p' s < length fb4 \<and> fb' ! ?R p' s)" .
        qed
        with inz sf e3 sp rec d4 i4 show ?thesis by blast
      qed
      then obtain fs4 where
        rest: "indirect ?nd = 0 \<and> fs4 = fs1
                \<or> indirect ?nd \<noteq> 0
                  \<and> (\<exists>fs2 fs3 j. set_free_block fs1 (unat (indirect ?nd)) True = Inr fs2
                        \<and> free_blocks fs3 = free_blocks fs2
                        \<and> set_pointer_blocks fs3 ?ib True 0 = Inr (fs4, j))"
        and IH: "\<forall>fb4. free_blocks fs4 = Some fb4
                    \<longrightarrow> (\<exists>fb' d'. free_blocks fs' = Some fb' \<and> length fb' = length fb4
                          \<and> disk fs' = Some d' \<and> image d' = img
                          \<and> (\<forall>x < length fb4. fb4 ! x \<longrightarrow> fb' ! x)
                          \<and> (\<forall>p' s. p + 1 \<le> p' \<and> p' < INODES_PER_BLOCK
                                \<and> valid (block_inode b p') \<noteq> 0 \<and> slot_ok s \<and> ?R p' s \<noteq> 0
                              \<longrightarrow> ?R p' s < length fb4 \<and> fb' ! ?R p' s))"
        by blast
      from inode_covers[OF sd fb fo rest] obtain fb4 where
        c4: "free_blocks fs4 = Some fb4" "length fb4 = length fb"
            "\<forall>x < length fb. fb ! x \<longrightarrow> fb4 ! x"
            "\<forall>s. slot_ok s \<and> ?R p s \<noteq> 0 \<longrightarrow> ?R p s < length fb \<and> fb4 ! ?R p s"
        by blast
      from IH c4(1) obtain fb' d' where
        r: "free_blocks fs' = Some fb'" "length fb' = length fb4" "disk fs' = Some d'"
           "image d' = img" "\<forall>x < length fb4. fb4 ! x \<longrightarrow> fb' ! x"
           "\<forall>p' s. p + 1 \<le> p' \<and> p' < INODES_PER_BLOCK \<and> valid (block_inode b p') \<noteq> 0
                  \<and> slot_ok s \<and> ?R p' s \<noteq> 0
                \<longrightarrow> ?R p' s < length fb4 \<and> fb' ! ?R p' s"
        by blast
      have m: "\<forall>x < length fb. fb ! x \<longrightarrow> fb' ! x" using c4(2,3) r(5) by simp
      have "\<forall>p' s. p \<le> p' \<and> p' < INODES_PER_BLOCK \<and> valid (block_inode b p') \<noteq> 0
                  \<and> slot_ok s \<and> ?R p' s \<noteq> 0
                \<longrightarrow> ?R p' s < length fb \<and> fb' ! ?R p' s"
      proof (intro allI impI)
        fix p' s assume a: "p \<le> p' \<and> p' < INODES_PER_BLOCK \<and> valid (block_inode b p') \<noteq> 0
                  \<and> slot_ok s \<and> ?R p' s \<noteq> 0"
        show "?R p' s < length fb \<and> fb' ! ?R p' s"
        proof (cases "p' = p")
          case True
          with a c4(4) have "?R p s < length fb \<and> fb4 ! ?R p s" by blast
          with r(5) c4(2) True show ?thesis by simp
        next
          case False
          with a have "p + 1 \<le> p'" by simp
          with a r(6) c4(2) show ?thesis by auto
        qed
      qed
      with r(1-4) c4(2) m show ?thesis by auto
    qed
  qed
qed

lemma ref_valid:
  assumes "valid (inode_at img k) \<noteq> 0"
  shows "ref img k = node_ref (inode_at img k) (img (unat (indirect (inode_at img k))))"
  using assms by (intro ext) (simp add: ref_def)

lemma bitmap_inode_blocks_covers:
  assumes "bitmap_inode_blocks fs n i = Inr fs'"
    and "free_blocks fs = Some fb" and "disk fs = Some d" and "image d = img"
    and "0 < i"
    and "\<forall>k < n * INODES_PER_BLOCK. filled_in_order (ref img k) (sz k)"
  shows "\<exists>fb'. free_blocks fs' = Some fb' \<and> length fb' = length fb
           \<and> (\<forall>x < length fb. fb ! x \<longrightarrow> fb' ! x)
           \<and> (\<forall>k s. (i - 1) * INODES_PER_BLOCK \<le> k \<and> k < n * INODES_PER_BLOCK
                  \<and> slot_ok s \<and> ref img k s \<noteq> 0
                \<longrightarrow> ref img k s < length fb \<and> fb' ! ref img k s)"
  using assms
proof (induction fs n i arbitrary: fb d rule: bitmap_inode_blocks.induct)
  case (1 fs n i)
  note run = "1.prems"(1) and fb = "1.prems"(2) and d = "1.prems"(3) and img = "1.prems"(4)
    and i0 = "1.prems"(5) and hyp = "1.prems"(6)
  note simps = bitmap_inode_blocks.simps[of fs n i]
  show ?case
  proof (cases "i \<le> n")
    case False
    with run have e: "fs' = fs" by (simp add: simps)
    have "\<forall>k s. (i - 1) * INODES_PER_BLOCK \<le> k \<and> k < n * INODES_PER_BLOCK
                  \<and> slot_ok s \<and> ref img k s \<noteq> 0
                \<longrightarrow> ref img k s < length fb \<and> fb ! ref img k s"
    proof (intro allI impI)
      fix k s assume a: "(i - 1) * INODES_PER_BLOCK \<le> k \<and> k < n * INODES_PER_BLOCK
                  \<and> slot_ok s \<and> ref img k s \<noteq> 0"
      from False have "n \<le> i - 1" by simp
      then have "n * INODES_PER_BLOCK \<le> (i - 1) * INODES_PER_BLOCK" by simp
      with a show "ref img k s < length fb \<and> fb ! ref img k s" by linarith
    qed
    with e fb show ?thesis by simp
  next
    case c: True
    from run c obtain fs1 where sf: "set_free_block fs i True = Inr fs1"
      by (cases "set_free_block fs i True") (auto simp add: simps)
    from run c sf obtain fs2 blk where rd: "fs_disk_read fs1 i = Inr (fs2, blk)"
      by (cases "fs_disk_read fs1 i") (auto simp add: simps)
    from sf fb d have il: "i < length fb" and fb1: "free_blocks fs1 = Some (fb[i := True])"
      and d1: "disk fs1 = Some d"
      by (auto simp add: set_free_block_Inr)
    from rd d1 img fb1 have blk: "blk = img i"
      and d2: "disk fs2 = Some (d\<lparr>reads := reads d + 1\<rparr>)"
      and fb2: "free_blocks fs2 = Some (fb[i := True])"
      unfolding fs_disk_read_Inr by auto
    from run c sf rd blk obtain fs3 where bi: "bitmap_inodes fs2 (img i) 0 = Inr fs3"
      by (cases "bitmap_inodes fs2 (img i) 0") (auto simp add: simps)
    from run c sf rd blk bi have ne: "i \<noteq> 2 ^ 32 - 1"
      and rec: "bitmap_inode_blocks fs3 n (i + 1) = Inr fs'"
      by (auto simp add: simps split: if_splits)
    have i2: "image (d\<lparr>reads := reads d + 1\<rparr>) = img" using img by simp
    have kb: "(i - 1) * INODES_PER_BLOCK + p < n * INODES_PER_BLOCK"
      if p: "p < INODES_PER_BLOCK" for p
    proof -
      have "(i - 1) * INODES_PER_BLOCK + p < (i - 1) * INODES_PER_BLOCK + INODES_PER_BLOCK"
        using p by simp
      also have "\<dots> = i * INODES_PER_BLOCK" using i0 by (cases i) simp_all
      also have "\<dots> \<le> n * INODES_PER_BLOCK" using c by simp
      finally show ?thesis .
    qed
    have hb: "\<forall>p' < INODES_PER_BLOCK. valid (block_inode (img i) p') \<noteq> 0
           \<longrightarrow> (\<exists>c. filled_in_order
                      (node_ref (block_inode (img i) p')
                         (img (unat (indirect (block_inode (img i) p'))))) c)"
    proof (intro allI impI)
      fix p' assume p: "p' < INODES_PER_BLOCK" and v: "valid (block_inode (img i) p') \<noteq> 0"
      let ?k = "(i - 1) * INODES_PER_BLOCK + p'"
      have e: "inode_at img ?k = block_inode (img i) p'" using i0 p by (rule inode_at_block)
      from hyp kb[OF p] have "filled_in_order (ref img ?k) (sz ?k)" by blast
      with ref_valid[of img ?k] v e
      show "\<exists>c. filled_in_order
                      (node_ref (block_inode (img i) p')
                         (img (unat (indirect (block_inode (img i) p'))))) c"
        by auto
    qed
    from bitmap_inodes_covers[OF bi fb2 d2 i2 hb] obtain fb3 d3 where
      r3: "free_blocks fs3 = Some fb3" "length fb3 = length fb" "disk fs3 = Some d3"
          "image d3 = img" "\<forall>x < length fb. (fb[i := True]) ! x \<longrightarrow> fb3 ! x"
      and c3: "\<forall>p' s. p' < INODES_PER_BLOCK \<and> valid (block_inode (img i) p') \<noteq> 0
                  \<and> slot_ok s
                  \<and> node_ref (block_inode (img i) p')
                       (img (unat (indirect (block_inode (img i) p')))) s \<noteq> 0
                \<longrightarrow> node_ref (block_inode (img i) p')
                       (img (unat (indirect (block_inode (img i) p')))) s < length fb
                    \<and> fb3 ! node_ref (block_inode (img i) p')
                              (img (unat (indirect (block_inode (img i) p')))) s"
      by auto
    have i1: "0 < i + 1" by simp
    from "1.IH"[OF c sf rd[unfolded blk] refl bi ne rec r3(1,3,4) i1 hyp] r3(2) obtain fb' where
      r: "free_blocks fs' = Some fb'" "length fb' = length fb"
         "\<forall>x < length fb. fb3 ! x \<longrightarrow> fb' ! x"
         "\<forall>k s. i * INODES_PER_BLOCK \<le> k \<and> k < n * INODES_PER_BLOCK
                  \<and> slot_ok s \<and> ref img k s \<noteq> 0
                \<longrightarrow> ref img k s < length fb \<and> fb' ! ref img k s"
      by auto
    have m01: "\<forall>x < length fb. fb ! x \<longrightarrow> (fb[i := True]) ! x"
    proof (intro allI impI)
      fix x assume "x < length fb" "fb ! x"
      then show "(fb[i := True]) ! x" by (cases "x = i") simp_all
    qed
    have m: "\<forall>x < length fb. fb ! x \<longrightarrow> fb' ! x" using m01 r3(5) r(3) by blast
    have "\<forall>k s. (i - 1) * INODES_PER_BLOCK \<le> k \<and> k < n * INODES_PER_BLOCK
                  \<and> slot_ok s \<and> ref img k s \<noteq> 0
                \<longrightarrow> ref img k s < length fb \<and> fb' ! ref img k s"
    proof (intro allI impI)
      fix k s assume a: "(i - 1) * INODES_PER_BLOCK \<le> k \<and> k < n * INODES_PER_BLOCK
                  \<and> slot_ok s \<and> ref img k s \<noteq> 0"
      show "ref img k s < length fb \<and> fb' ! ref img k s"
      proof (cases "i * INODES_PER_BLOCK \<le> k")
        case True
        with a r(4) show ?thesis by blast
      next
        case False
        define p where "p = k - (i - 1) * INODES_PER_BLOCK"
        from a have k: "k = (i - 1) * INODES_PER_BLOCK + p" by (simp add: p_def)
        have "i * INODES_PER_BLOCK = (i - 1) * INODES_PER_BLOCK + INODES_PER_BLOCK"
          using i0 by (cases i) simp_all
        with False k have p: "p < INODES_PER_BLOCK" by linarith
        have e: "inode_at img k = block_inode (img i) p"
          unfolding k using i0 p by (rule inode_at_block)
        from a have v: "valid (inode_at img k) \<noteq> 0" by (auto simp add: ref_def)
        from ref_valid[OF v] e
        have rf: "ref img k s = node_ref (block_inode (img i) p)
                       (img (unat (indirect (block_inode (img i) p)))) s" by simp
        from a v e p rf c3 have "ref img k s < length fb \<and> fb3 ! ref img k s" by auto
        with r(3) show ?thesis by simp
      qed
    qed
    with r(1,2) m show ?thesis by blast
  qed
qed

text \<open>The bitmap that marks the superblock, the inode blocks and the blocks that the
  references \<open>r\<close> name, and no other block.\<close>

lemma wf_refs_exact:
  assumes wf: "wf_refs B IB r fb"
    and l: "length fb' = B"
    and e: "\<forall>b < B. fb' ! b
              \<longleftrightarrow> b \<le> IB \<or> (\<exists>k s. k < IB * INODES_PER_BLOCK \<and> slot_ok s \<and> r k s = b)"
  shows "wf_refs B IB r fb'"
proof -
  note w = wf_refsD[OF wf]
  have a: "\<forall>b \<le> IB. fb' ! b" using e w(3) by auto
  have b: "\<forall>k s. k < IB * INODES_PER_BLOCK \<and> slot_ok s \<and> r k s \<noteq> 0
            \<longrightarrow> IB < r k s \<and> r k s < B \<and> fb' ! r k s"
  proof (intro allI impI)
    fix k s assume k: "k < IB * INODES_PER_BLOCK \<and> slot_ok s \<and> r k s \<noteq> 0"
    then have "IB < r k s \<and> r k s < B" using w(6)[of k s] by simp
    moreover with k e have "fb' ! r k s" by blast
    ultimately show "IB < r k s \<and> r k s < B \<and> fb' ! r k s" by simp
  qed
  have c: "\<forall>k s k' s'. k < IB * INODES_PER_BLOCK \<and> k' < IB * INODES_PER_BLOCK
            \<and> slot_ok s \<and> slot_ok s' \<and> r k s \<noteq> 0 \<and> r k' s' = r k s
            \<longrightarrow> k' = k \<and> s' = s"
    using w(7) by blast
  from l w(2,3,4) a b c show ?thesis unfolding wf_refs_def by (intro conjI)
qed

subsection \<open>The bitmap that a remount rebuilds\<close>

lemma remount_exact:
  assumes c: "consistent fs" and td: "tidy t fs"
    and d: "disk fs = Some d" and fb: "free_blocks fs = Some fb"
  shows "\<exists>fs' fbR. remount fs = Inr fs' \<and> meta_data fs' = meta_data fs
           \<and> free_blocks fs' = Some fbR \<and> length fbR = length fb
           \<and> (\<forall>b < length fb. fbR ! b
                 \<longleftrightarrow> b \<le> unat (inode_blocks (meta_data fs))
                     \<or> (\<exists>k s. k < unat (inode_blocks (meta_data fs)) * INODES_PER_BLOCK
                           \<and> slot_ok s \<and> ref (image d) k s = b))"
proof -
  define B where "B = unat (blocks (meta_data fs))"
  define IB where "IB = unat (inode_blocks (meta_data fs))"
  define img where "img = image d"
  from c obtain d' fb' where f0: "disk fs = Some d'" "free_blocks fs = Some fb'"
    "disk_blocks d' = unat (blocks (meta_data fs))"
    "unat (inodes (meta_data fs)) = unat (inode_blocks (meta_data fs)) * INODES_PER_BLOCK"
    "magic_number (meta_data fs) = MAGIC_NUMBER"
    "block_super (image d' 0) = meta_data fs"
    "wf_refs (unat (blocks (meta_data fs))) (unat (inode_blocks (meta_data fs))) (ref (image d')) fb'"
    by (rule consistentD)
  from f0(1,2) d fb have e: "d' = d" "fb' = fb" by simp_all
  note f = f0[unfolded e]
  have wf: "wf_refs B IB (ref img) fb" using f(7) by (simp add: B_def IB_def img_def)
  note w = wf_refsD[OF wf]
  have hyp: "\<forall>k < IB * INODES_PER_BLOCK. filled_in_order (ref img k) (file_size img k)"
    using tidy_refsD(1)[OF tidy_parts[OF td d fb]] by (simp add: IB_def img_def)
  define fbX where
    "fbX = map (\<lambda>b. b \<le> IB \<or> (\<exists>k s. k < IB * INODES_PER_BLOCK \<and> slot_ok s \<and> ref img k s = b))
             [0..<B]"
  have lX: "length fbX = B" by (simp add: fbX_def)
  have eX: "\<forall>b < B. fbX ! b
              \<longleftrightarrow> b \<le> IB \<or> (\<exists>k s. k < IB * INODES_PER_BLOCK \<and> slot_ok s \<and> ref img k s = b)"
    by (simp add: fbX_def)
  have wfX: "wf_refs B IB (ref img) fbX" using wf lX eX by (rule wf_refs_exact)
  have dB: "disk_blocks d = B" using f(3) by (simp add: B_def)
  have sb: "block_super (image d 0) = meta_data fs" by (rule f(6))
  have n: "disk (fs_unmount fs) = None" by (simp add: fs_unmount_def)
  have "\<exists>fs' d'. fs_mount (fs_unmount fs) d = Inr (True, fs', d')
           \<and> marked_within (block_super (image d 0)) (image d) (disk_blocks d) fbX
                (unat (inode_blocks (block_super (image d 0))) + 1) fs'"
    by (rule fs_mount_marked[OF n])
       (use f wfX in \<open>simp_all add: B_def IB_def img_def\<close>)
  then obtain fs' d2 where mt: "fs_mount (fs_unmount fs) d = Inr (True, fs', d2)"
    and m: "marked_within (meta_data fs) img B fbX (IB + 1) fs'"
    unfolding sb dB by (auto simp add: IB_def img_def)
  from m obtain fbR where r: "meta_data fs' = meta_data fs" "free_blocks fs' = Some fbR"
    "length fbR = B" "\<forall>b < B. fbR ! b \<longrightarrow> fbX ! b" "\<forall>b < IB + 1. fbR ! b"
    unfolding marked_within_def by blast
  from mt d have rm: "remount fs = Inr fs'" by (simp add: remount_def)
  let ?d = "d\<lparr>reads := reads d + 1\<rparr>"
  let ?fs = "(fs_unmount fs)\<lparr>disk := Some ?d, meta_data := block_super (image d 0)\<rparr>"
  from w(2,3) dB have rd: "disk_read d 0 = Some (?d, image d 0)"
    by (simp add: disk_read_def disk_sanity_check_def)
  from mt n rd have ini: "fs_initialize_free_block_bitmap ?fs = Inr (fs', True)"
    unfolding fs_mount_def by (auto split: if_splits sum.splits)
  let ?fs0 = "?fs\<lparr>free_blocks := Some (replicate (unat (blocks (meta_data ?fs))) False)\<rparr>"
  from ini obtain fs1 where s0: "set_free_block ?fs0 0 True = Inr fs1"
    and bb: "bitmap_inode_blocks fs1 (unat (inode_blocks (meta_data ?fs))) 1 = Inr fs'"
    unfolding fs_initialize_free_block_bitmap_def by (auto split: sum.splits)
  from bb sb have bb': "bitmap_inode_blocks fs1 IB 1 = Inr fs'" by (simp add: IB_def)
  from s0 sb have fb1: "free_blocks fs1 = Some ((replicate B False)[0 := True])"
    and d1: "disk fs1 = Some ?d"
    by (auto simp add: set_free_block_Inr B_def)
  have i1: "image ?d = img" by (simp add: img_def)
  from bitmap_inode_blocks_covers[OF bb' fb1 d1 i1 zero_less_one hyp] r(2) have
    cov: "\<forall>k s. k < IB * INODES_PER_BLOCK \<and> slot_ok s \<and> ref img k s \<noteq> 0
                \<longrightarrow> ref img k s < B \<and> fbR ! ref img k s"
    by auto
  have ex: "\<forall>b < length fb. fbR ! b
                 \<longleftrightarrow> b \<le> IB \<or> (\<exists>k s. k < IB * INODES_PER_BLOCK \<and> slot_ok s \<and> ref img k s = b)"
  proof (intro allI impI iffI)
    fix b assume "b < length fb" "fbR ! b"
    with w(1) r(4) eX
    show "b \<le> IB \<or> (\<exists>k s. k < IB * INODES_PER_BLOCK \<and> slot_ok s \<and> ref img k s = b)" by simp
  next
    fix b assume b: "b < length fb"
      and a: "b \<le> IB \<or> (\<exists>k s. k < IB * INODES_PER_BLOCK \<and> slot_ok s \<and> ref img k s = b)"
    show "fbR ! b"
    proof (cases "b \<le> IB")
      case True
      with r(5) show ?thesis by simp
    next
      case False
      with a obtain k s where "k < IB * INODES_PER_BLOCK" "slot_ok s" "ref img k s = b" by blast
      moreover with False have "ref img k s \<noteq> 0" by simp
      ultimately show ?thesis using cov by blast
    qed
  qed
  from rm r(1,2,3) w(1) ex show ?thesis unfolding IB_def img_def by auto
qed

lemma tidy_weaken:
  assumes "tidy t fs"
  shows "tidy False fs"
  using assms unfolding tidy_def tidy_refs_def by auto

lemma format_and_mount_tidy:
  assumes fam: "format_and_mount fs0 d0 = Inr fs"
  shows "tidy True fs"
proof -
  define B where "B = disk_blocks d0"
  define IB where "IB = (if B div 10 = 0 then 1 else B div 10)"
  from format_and_mount_fresh[OF fam B_def IB_def] obtain d where
    r: "disk fs = Some d" "disk_blocks d = B" "0 < IB" "IB < B"
       "unat (blocks (meta_data fs)) = B" "unat (inode_blocks (meta_data fs)) = IB"
       "\<forall>b. 0 < b \<and> b < B \<longrightarrow> image d b = zero_block"
       "free_blocks fs = Some (replicate (IB + 1) True @ replicate (B - (IB + 1)) False)"
    by blast
  have z: "inode_at (image d) k = zero_inode" if "k < IB * INODES_PER_BLOCK" for k
  proof -
    from inode_block_le[OF that] r(4) have "0 < k div INODES_PER_BLOCK + 1"
      "k div INODES_PER_BLOCK + 1 < B" by simp_all
    with r(7) show ?thesis by (simp add: inode_at_def)
  qed
  have "tidy_refs True B IB (ref (image d)) (file_size (image d))
          (replicate (IB + 1) True @ replicate (B - (IB + 1)) False)"
  proof (rule tidy_refsI)
    fix k assume "k < IB * INODES_PER_BLOCK"
    from z[OF this] have "file_size (image d) k = 0" "\<And>s. ref (image d) k s = 0"
      by (simp_all add: file_size_def ref_def zero_inode_def)
    then show "filled_in_order (ref (image d) k) (file_size (image d) k)"
      by (simp add: filled_in_order_empty)
  next
    fix b assume "b < B"
      and m: "(replicate (IB + 1) True @ replicate (B - (IB + 1)) False) ! b"
    have "b < IB + 1"
    proof (rule ccontr)
      assume "\<not> b < IB + 1"
      with \<open>b < B\<close> have "\<not> (replicate (IB + 1) True @ replicate (B - (IB + 1)) False) ! b"
        by (simp add: nth_append)
      with m show False by simp
    qed
    then show "b \<le> IB \<or> (\<exists>k s. k < IB * INODES_PER_BLOCK \<and> slot_ok s \<and> ref (image d) k s = b)"
      by simp
  qed
  with r(1,5,6,8) show ?thesis by (auto intro: tidyI)
qed

lemma run_mounted10_written:
  "run mounted10 [Create, Write 0 zero_block 24576 0] = Inr written10"
  by (simp add: fs_create_mounted10 fs_write_created10)

lemma run_mounted10_removed:
  "run mounted10 [Create, Write 0 zero_block 24576 0, Remove 0] = Inr removed10"
  by (simp add: fs_create_mounted10 fs_write_created10 fs_remove_written10)

lemma no_indirect_left_mounted10:
  "no_indirect_left mounted10 [Create, Write 0 zero_block 24576 0, Remove 0]"
  "no_indirect_left mounted10 [Create, Write 0 zero_block 24576 0]"
proof -
  have "get_u32 (image written10_disk 7) 0 = 8" by (simp add: written10_disk_def)
  moreover have "inode_at (image written10_disk) 0
      = \<lparr>valid = 1, size = 24576, direct = [2, 3, 4, 5, 6], indirect = 7\<rparr>"
    by (simp add: written10_disk_def inode_at_def block_inode_set_block_inode
          INODES_PER_BLOCK_def)
  moreover have "disk written10 = Some written10_disk" by (simp add: written10_def)
  ultimately have "\<not> leaves_indirect written10 (Remove 0)" by simp
  then show "no_indirect_left mounted10 [Create, Write 0 zero_block 24576 0, Remove 0]"
    "no_indirect_left mounted10 [Create, Write 0 zero_block 24576 0]"
    by (simp_all add: fs_create_mounted10 fs_write_created10 fs_remove_written10)
qed

lemma indirect_left_mounted8:
  "\<not> no_indirect_left mounted8 [Create, Write 0 zero_block 24576 0, Remove 0]"
  unfolding mounted8_def
  by (simp add: fs_run_simps fs_create_def fs_create_blocks.simps fs_create_slots.simps
        fs_write_def fs_write_direct.simps fs_write_indirect.simps
        fs_write_indirect_part_def fs_write_last_def fs_write_block_def
        fs_remove_def set_direct_blocks.simps set_pointer_blocks.simps inode_at_def)

subsection \<open>The bitmap after a remount\<close>

text \<open>Claim C2, as the code has it. After any sequence of \<^verbatim>\<open>fs_create\<close>, \<^verbatim>\<open>fs_remove\<close>,
  \<^verbatim>\<open>fs_write\<close>, \<^verbatim>\<open>fs_read\<close> and \<^verbatim>\<open>fs_stat\<close> calls on a freshly formatted and mounted disk
  (every call returning), \<^verbatim>\<open>fs_unmount\<close> followed by \<^verbatim>\<open>fs_mount\<close> succeeds and rebuilds,
  under the same cached superblock, a bitmap of the same length as the in-memory vector
  held before the unmount. The rebuilt bitmap marks exactly the superblock, the inode blocks
  and the blocks that a valid inode of the disk refers to (as a direct block, as its
  indirect block or through a pointer of its indirect block); each of these blocks is
  marked in the in-memory vector as well. The two vectors are equal when no \<^verbatim>\<open>fs_remove\<close> of
  the sequence was applied to a valid inode whose indirect block held no pointer in its
  first entry.\<close>

theorem remount_bitmap_exact:
  assumes "format_and_mount fs0 d0 = Inr fs" and "run fs ops = Inr fs'"
  shows "\<exists>fs'' d fb fbR. remount fs' = Inr fs'' \<and> meta_data fs'' = meta_data fs'
           \<and> disk fs' = Some d \<and> free_blocks fs' = Some fb \<and> free_blocks fs'' = Some fbR
           \<and> length fbR = length fb
           \<and> (\<forall>b < length fb. fbR ! b
                 \<longleftrightarrow> b \<le> unat (inode_blocks (meta_data fs'))
                     \<or> (\<exists>k s. k < unat (inodes (meta_data fs')) \<and> slot_ok s
                           \<and> ref (image d) k s = b))
           \<and> (\<forall>b < length fb. fbR ! b \<longrightarrow> fb ! b)
           \<and> (no_indirect_left fs ops \<longrightarrow> fbR = fb)"
proof -
  from assms(1) have c0: "consistent fs" by (rule format_and_mount_consistent)
  from assms(1) have t0: "tidy True fs" by (rule format_and_mount_tidy)
  from run_consistent[OF c0 assms(2)] have c: "consistent fs'" .
  have tF: "tidy False fs'"
    by (rule run_tidy[OF c0 tidy_weaken[OF t0] assms(2)]) simp
  from c obtain d fb where f: "disk fs' = Some d" "free_blocks fs' = Some fb"
    "disk_blocks d = unat (blocks (meta_data fs'))"
    "unat (inodes (meta_data fs')) = unat (inode_blocks (meta_data fs')) * INODES_PER_BLOCK"
    "magic_number (meta_data fs') = MAGIC_NUMBER"
    "block_super (image d 0) = meta_data fs'"
    "wf_refs (unat (blocks (meta_data fs'))) (unat (inode_blocks (meta_data fs')))
       (ref (image d)) fb"
    by (rule consistentD)
  note w = wf_refsD[OF f(7)]
  let ?IB = "unat (inode_blocks (meta_data fs'))"
  from remount_exact[OF c tF f(1,2)] obtain fs'' fbR where
    r: "remount fs' = Inr fs''" "meta_data fs'' = meta_data fs'"
       "free_blocks fs'' = Some fbR" "length fbR = length fb"
       "\<forall>b < length fb. fbR ! b
           \<longleftrightarrow> b \<le> ?IB \<or> (\<exists>k s. k < ?IB * INODES_PER_BLOCK \<and> slot_ok s
                                \<and> ref (image d) k s = b)"
    by blast
  have ex: "\<forall>b < length fb. fbR ! b
           \<longleftrightarrow> b \<le> ?IB \<or> (\<exists>k s. k < unat (inodes (meta_data fs')) \<and> slot_ok s
                                \<and> ref (image d) k s = b)"
    unfolding f(4) by (rule r(5))
  have incl: "\<forall>b < length fb. fbR ! b \<longrightarrow> fb ! b"
  proof (intro allI impI)
    fix b assume b: "b < length fb" and m: "fbR ! b"
    show "fb ! b"
    proof (cases "b \<le> ?IB")
      case True
      then show ?thesis by (rule w(5))
    next
      case False
      with r(5) b m obtain k s where k: "k < ?IB * INODES_PER_BLOCK" "slot_ok s"
        "ref (image d) k s = b" by blast
      with False have "ref (image d) k s \<noteq> 0" by simp
      from w(6)[OF k(1,2) this] k(3) show ?thesis by simp
    qed
  qed
  have eq: "no_indirect_left fs ops \<longrightarrow> fbR = fb"
  proof
    assume nl: "no_indirect_left fs ops"
    have tT: "tidy True fs'" by (rule run_tidy[OF c0 t0 assms(2)]) (simp add: nl)
    note tight = tidy_refsD(2)[OF tidy_parts[OF tT f(1,2)]]
    show "fbR = fb"
    proof (rule nth_equalityI)
      show "length fbR = length fb" by (rule r(4))
    next
      fix b assume "b < length fbR"
      with r(4) have b: "b < length fb" by simp
      show "fbR ! b = fb ! b"
      proof
        assume "fbR ! b"
        with incl b show "fb ! b" by simp
      next
        assume m: "fb ! b"
        from b w(1) have "b < unat (blocks (meta_data fs'))" by simp
        from tight[OF TrueI this m] r(5) b show "fbR ! b" by simp
      qed
    qed
  qed
  from r(1,2) f(1,2) r(3,4) ex incl eq show ?thesis by blast
qed

text \<open>Two instances on the disk of 10 blocks. After \<^verbatim>\<open>fs_create\<close> and a write of \<open>6 * 4096\<close>
  bytes to inode 0, the remount rebuilds the in-memory bitmap: the superblock, the inode
  block, the five direct blocks 2 to 6, the indirect block 7 and the block 8 behind its
  first pointer are marked, block 9 is free. After \<^verbatim>\<open>fs_remove\<close> of inode 0, whose indirect
  block holds a pointer, the remount again rebuilds the in-memory bitmap, with only blocks 0
  and 1 marked.\<close>

theorem remount_bitmap_exact_witness:
  "format_and_mount blank_fs (blank_disk 10) = Inr mounted10
   \<and> run mounted10 [Create, Write 0 zero_block 24576 0] = Inr written10
   \<and> no_indirect_left mounted10 [Create, Write 0 zero_block 24576 0]
   \<and> (\<exists>fs''. remount written10 = Inr fs''
          \<and> free_blocks fs'' = Some [True, True, True, True, True, True, True, True, True, False])
   \<and> run mounted10 [Create, Write 0 zero_block 24576 0, Remove 0] = Inr removed10
   \<and> no_indirect_left mounted10 [Create, Write 0 zero_block 24576 0, Remove 0]
   \<and> (\<exists>fs''. remount removed10 = Inr fs''
          \<and> free_blocks fs''
              = Some [True, True, False, False, False, False, False, False, False, False])"
proof -
  from remount_bitmap_exact[OF format_and_mount_blank10 run_mounted10_written]
    no_indirect_left_mounted10(2)
  obtain fs'' fb where "remount written10 = Inr fs''" "free_blocks written10 = Some fb"
    "free_blocks fs'' = Some fb" by blast
  then have a: "\<exists>fs''. remount written10 = Inr fs''
          \<and> free_blocks fs'' = Some [True, True, True, True, True, True, True, True, True, False]"
    by (auto simp add: written10_def)
  from remount_bitmap_exact[OF format_and_mount_blank10 run_mounted10_removed]
    no_indirect_left_mounted10(1)
  obtain fs'' fb where "remount removed10 = Inr fs''" "free_blocks removed10 = Some fb"
    "free_blocks fs'' = Some fb" by blast
  then have b: "\<exists>fs''. remount removed10 = Inr fs''
          \<and> free_blocks fs''
              = Some [True, True, False, False, False, False, False, False, False, False]"
    by (auto simp add: removed10_def)
  from format_and_mount_blank10 run_mounted10_written no_indirect_left_mounted10(2) a
    run_mounted10_removed no_indirect_left_mounted10(1) b
  show ?thesis by (intro conjI)
qed

text \<open>The exception occurs. On the disk of 8 blocks, the write of \<open>6 * 4096\<close> bytes to
  inode 0 stores \<open>5 * 4096\<close> bytes in the direct blocks 2 to 6 and takes the last free block,
  7, as indirect block; no block is left for its first pointer. \<^verbatim>\<open>fs_remove\<close> frees an
  indirect block only after it has walked over at least one pointer (\<^verbatim>\<open>if(i != 0)\<close>), so
  block 7 stays marked in memory, while the inode is invalid on the disk and the remount
  leaves block 7 free: the two bitmaps differ.\<close>

theorem remount_bitmap_differs:
  "format_and_mount blank_fs (blank_disk 8) = Inr mounted8
   \<and> run mounted8 [Create, Write 0 zero_block 24576 0, Remove 0] = Inr removed8
   \<and> \<not> no_indirect_left mounted8 [Create, Write 0 zero_block 24576 0, Remove 0]
   \<and> remount removed8 = Inr remounted8
   \<and> free_blocks removed8 = Some [True, True, False, False, False, False, False, True]
   \<and> free_blocks remounted8 = Some [True, True, False, False, False, False, False, False]
   \<and> free_blocks remounted8 \<noteq> free_blocks removed8"
  using format_and_mount_blank8 run_mounted8 remount_removed8 indirect_left_mounted8
  by (simp add: removed8_def remounted8_def)

end
